(* ===== verification/Relay_Prelude.thy ===== *)
theory Relay_Prelude
  imports Main "HOL-Library.Word" "HOL-Library.Monad_Syntax"
begin

unbundle bit_operations_syntax

text \<open>
  Shared material of the DnsRelay development: the machine types of the C sources, the
  collections of rewrite rules the component theories fill, bounds-checked array access,
  C strings, and the theory of doubly linked chains on which the pointer-level proofs of
  the container list (\<^verbatim>\<open>stl.c\<close>) and of the LRU list (\<^verbatim>\<open>dns_cache.c\<close>) rest.

  Every stateful operation of the model returns an \<open>option\<close>: \<open>None\<close> stands for an
  execution that has no defined result (a dereference of a freed or wild pointer, an array
  access out of range, or a loop that never ends), \<open>Some\<close> for one that returns. Error
  codes of the source are ordinary values inside \<open>Some\<close>. Allocation (\<open>malloc\<close>,
  \<open>realloc\<close>, \<open>strdup\<close>) is taken to succeed throughout.
\<close>

section \<open>Machine types\<close>

type_synonym byte = "8 word"
type_synonym uint16_t = "16 word"
type_synonym uint32_t = "32 word"
type_synonym uint64_t = "64 word"
type_synonym ms = int
type_synonym addr = nat

text \<open>The bytes of a C string, without its terminating zero byte.\<close>

type_synonym cstr = "byte list"

definition bytes_of :: "string \<Rightarrow> cstr" where
  "bytes_of s = map of_char s"

section \<open>Collections\<close>

named_theorems chain_simps \<open>rewrite rules for doubly linked chains\<close>
named_theorems container_laws \<open>what the container operations do to their abstraction\<close>
named_theorems wire_simps \<open>rewrite rules for the wire format\<close>

section \<open>Bounds-checked arrays\<close>

definition arr_get :: "'a list \<Rightarrow> int \<Rightarrow> 'a option" where
  "arr_get xs i = (if 0 \<le> i \<and> i < int (length xs) then Some (xs ! nat i) else None)"

definition arr_set :: "'a list \<Rightarrow> int \<Rightarrow> 'a \<Rightarrow> 'a list option" where
  "arr_set xs i x = (if 0 \<le> i \<and> i < int (length xs) then Some (xs[nat i := x]) else None)"

text \<open>A block write (\<open>memcpy\<close> into an array) and a block read.\<close>

definition arr_write :: "'a list \<Rightarrow> int \<Rightarrow> 'a list \<Rightarrow> 'a list option" where
  "arr_write xs i ys =
     (if 0 \<le> i \<and> i + int (length ys) \<le> int (length xs)
      then Some (take (nat i) xs @ ys @ drop (nat i + length ys) xs) else None)"

definition arr_read :: "'a list \<Rightarrow> int \<Rightarrow> nat \<Rightarrow> 'a list option" where
  "arr_read xs i n =
     (if 0 \<le> i \<and> i + int n \<le> int (length xs)
      then Some (take n (drop (nat i) xs)) else None)"

lemma arr_get_Some [simp]: "i < length xs \<Longrightarrow> arr_get xs (int i) = Some (xs ! i)"
  by (simp add: arr_get_def)

lemma arr_get_append: "arr_get (xs @ y # zs) (int (length xs)) = Some y"
  by (simp add: arr_get_def)

lemma arr_write_append:
  "length zs = length ys \<Longrightarrow>
     arr_write (xs @ zs @ ws) (int (length xs)) ys = Some (xs @ ys @ ws)"
  by (simp add: arr_write_def)

lemma arr_write_length: "arr_write xs i ys = Some zs \<Longrightarrow> length zs = length xs"
  by (auto simp: arr_write_def split: if_splits)

lemma arr_read_append:
  "arr_read (xs @ ys @ zs) (int (length xs)) (length ys) = Some ys"
  by (simp add: arr_read_def)

section \<open>Doubly linked chains\<close>

text \<open>
  \<open>dchain pv nx p as q\<close>: the nodes \<open>as\<close>, in this order, are linked forwards by
  \<open>nx\<close> and backwards by \<open>pv\<close>; the first node's predecessor is \<open>p\<close> and the last
  node's successor is \<open>q\<close>.
\<close>

definition first_or :: "'n list \<Rightarrow> 'n option \<Rightarrow> 'n option" where
  "first_or as q = (case as of [] \<Rightarrow> q | a # _ \<Rightarrow> Some a)"

definition last_or :: "'n option \<Rightarrow> 'n list \<Rightarrow> 'n option" where
  "last_or p as = (if as = [] then p else Some (last as))"

fun dchain :: "('n \<Rightarrow> 'n option) \<Rightarrow> ('n \<Rightarrow> 'n option) \<Rightarrow> 'n option \<Rightarrow> 'n list
    \<Rightarrow> 'n option \<Rightarrow> bool" where
  "dchain pv nx p [] q \<longleftrightarrow> True"
| "dchain pv nx p (a # as) q \<longleftrightarrow>
     pv a = p \<and> nx a = first_or as q \<and> dchain pv nx (Some a) as q"

lemma first_or_simps [simp, chain_simps]:
  "first_or [] q = q"
  "first_or (a # as) q = Some a"
  by (simp_all add: first_or_def)

lemma first_or_append [simp]: "first_or (as @ bs) q = first_or as (first_or bs q)"
  by (cases as) auto

lemma last_or_simps [simp, chain_simps]:
  "last_or p [] = p"
  "last_or p (a # as) = last_or (Some a) as"
  "last_or p (as @ [b]) = Some b"
  by (auto simp: last_or_def)

lemma last_or_append [simp]: "last_or p (as @ bs) = last_or (last_or p as) bs"
  by (auto simp: last_or_def)

lemma last_or_None: "last_or p as = None \<longleftrightarrow> p = None \<and> as = []"
  by (auto simp: last_or_def)

lemma first_or_None: "first_or as q = None \<longleftrightarrow> q = None \<and> as = []"
  by (auto simp: first_or_def split: list.splits)

lemma dchain_append [chain_simps]:
  "dchain pv nx p (as @ bs) q \<longleftrightarrow>
     dchain pv nx p as (first_or bs q) \<and> dchain pv nx (last_or p as) bs q"
  by (induction as arbitrary: p) auto

lemma dchain_upd_pv [simp]:
  "a \<notin> set as \<Longrightarrow> dchain (pv(a := x)) nx p as q = dchain pv nx p as q"
  by (induction as arbitrary: p) auto

lemma dchain_upd_nx [simp]:
  "a \<notin> set as \<Longrightarrow> dchain pv (nx(a := x)) p as q = dchain pv nx p as q"
  by (induction as arbitrary: p) auto

lemma dchain_cong:
  "(\<And>a. a \<in> set as \<Longrightarrow> pv a = pv' a \<and> nx a = nx' a) \<Longrightarrow>
     dchain pv nx p as q = dchain pv' nx' p as q"
  by (induction as arbitrary: p) auto

text \<open>Re-linking the two ends of a chain.\<close>

lemma dchain_set_last:
  "dchain pv nx p (as @ [a]) q \<Longrightarrow> a \<notin> set as \<Longrightarrow>
     dchain pv (nx(a := q')) p (as @ [a]) q'"
  by (simp add: dchain_append)

lemma dchain_set_first:
  "dchain pv nx p (a # as) q \<Longrightarrow> a \<notin> set as \<Longrightarrow>
     dchain (pv(a := p')) nx p' (a # as) q"
  by simp

text \<open>
  Unlinking an inner node \<open>a\<close>: its neighbours are linked to each other. Both neighbours
  exist here, as in a list with sentinels.
\<close>

lemma dchain_unlink:
  assumes "dchain pv nx p (as @ [b, a, c] @ cs) q" "distinct (as @ [b, a, c] @ cs)"
  shows "dchain (pv(c := Some b)) (nx(b := Some c)) p (as @ [b, c] @ cs) q"
  using assms by (auto simp: dchain_append)

text \<open>Linking a new node \<open>a\<close> between two neighbours.\<close>

lemma dchain_link:
  assumes "dchain pv nx p (as @ [b, c] @ cs) q" "distinct (as @ [b, c] @ cs)"
    and "a \<notin> set (as @ [b, c] @ cs)"
  shows "dchain (pv(a := Some b, c := Some a)) (nx(a := Some c, b := Some a)) p
    (as @ [b, a, c] @ cs) q"
  using assms by (auto simp: dchain_append)

text \<open>A chain that ends at a null successor determines its nodes.\<close>

lemma dchain_unique:
  assumes "dchain pv nx p as None" "dchain pv nx p bs None"
    and "first_or as None = first_or bs None"
  shows "as = bs"
  using assms
proof (induction as arbitrary: p bs)
  case Nil
  then show ?case by (cases bs) auto
next
  case (Cons a as)
  then obtain bs' where bs: "bs = a # bs'" by (cases bs) auto
  have "as = bs'" by (rule Cons.IH[of "Some a"]) (use Cons.prems bs in auto)
  with bs show ?case by simp
qed

end
