(* ===== verification/Id_Factory.thy ===== *)
theory Id_Factory
  imports Relay_Prelude
begin

text \<open>
  The pool of relay identifiers, \<^verbatim>\<open>src/dns/id_factory.c\<close>: a stack \<open>ids\<close> of free
  16-bit identifiers with its index \<open>top_idx\<close>, and a flag per identifier that says whether
  it is handed out. The interface is the locale \<open>id_allocator\<close>, over the set of
  identifiers in use; it is interpreted on the pool below.
\<close>

section \<open>State and operations\<close>

text \<open>
  The static arrays \<open>ids[65536]\<close> and \<open>st[65536]\<close> are functions on their indices: the
  indices of \<open>st\<close> are all 16-bit values, those of \<open>ids\<close> lie in range under the
  invariant (\<open>pool_inv_top\<close>).
\<close>

record IdPool =
  ids :: "int \<Rightarrow> uint16_t"
  top_idx :: int
  st :: "uint16_t \<Rightarrow> bool"

definition id_pool_init :: "IdPool \<Rightarrow> int \<times> IdPool" where
  "id_pool_init p =
     (0, p\<lparr>top_idx := 65535,
           ids := (\<lambda>i. if 0 \<le> i \<and> i < 65536 then of_int i else ids p i),
           st := (\<lambda>_. False)\<rparr>)"

text \<open>
  \<open>id_alloc\<close> takes the output pointer (\<open>True\<close> when it is not \<open>NULL\<close>) and returns the
  status code, the identifier written through the pointer, if any, and the new pool.
\<close>

definition id_alloc :: "bool \<Rightarrow> IdPool \<Rightarrow> int \<times> uint16_t option \<times> IdPool" where
  "id_alloc out p =
     (if \<not> out \<or> top_idx p < 0 then (1, None, p)
      else let rid = ids p (top_idx p)
           in (0, Some rid, p\<lparr>st := (st p)(rid := True), top_idx := top_idx p - 1\<rparr>))"

definition id_free :: "uint16_t \<Rightarrow> IdPool \<Rightarrow> IdPool" where
  "id_free rid p =
     (if st p rid \<and> top_idx p < 65535
      then p\<lparr>st := (st p)(rid := False), top_idx := top_idx p + 1,
             ids := (ids p)(top_idx p + 1 := rid)\<rparr>
      else p)"

section \<open>Invariant\<close>

definition used_ids :: "IdPool \<Rightarrow> uint16_t set" where
  "used_ids p = {rid. st p rid}"

definition pool_inv :: "IdPool \<Rightarrow> bool" where
  "pool_inv p \<longleftrightarrow>
     -1 \<le> top_idx p \<and> inj_on (ids p) {0..top_idx p} \<and> ids p ` {0..top_idx p} = - used_ids p"

lemma card_uint16: "card (UNIV :: uint16_t set) = 65536"
  by (simp add: card_word)

lemma pool_inv_count:
  assumes "pool_inv p"
  shows "int (card (used_ids p)) = 65535 - top_idx p"
proof -
  have "card (- used_ids p) = card {0..top_idx p}"
    using assms card_image[of "ids p" "{0..top_idx p}"] by (simp add: pool_inv_def)
  moreover have "card (used_ids p) + card (- used_ids p) = 65536"
    using card_Un_disjoint[of "used_ids p" "- used_ids p"] card_uint16
    by (simp add: Compl_partition)
  ultimately show ?thesis using assms by (auto simp: pool_inv_def)
qed

lemma pool_inv_top: "pool_inv p \<Longrightarrow> -1 \<le> top_idx p \<and> top_idx p \<le> 65535"
  using pool_inv_count[of p] by (auto simp: pool_inv_def)

lemma pool_inv_empty: "pool_inv p \<Longrightarrow> top_idx p < 0 \<longleftrightarrow> used_ids p = UNIV"
  by (auto simp: pool_inv_def)

lemma used_imp_room: "pool_inv p \<Longrightarrow> rid \<in> used_ids p \<Longrightarrow> top_idx p < 65535"
proof -
  assume inv: "pool_inv p" and "rid \<in> used_ids p"
  then have "0 < card (used_ids p)" by (auto simp: card_gt_0_iff)
  then show ?thesis using pool_inv_count[OF inv] by simp
qed

lemma init_inv: "pool_inv (snd (id_pool_init p))"
proof -
  let ?q = "snd (id_pool_init p)"
  have ids: "ids ?q i = word_of_int i" if "i \<in> {0..65535}" for i
    using that by (simp add: id_pool_init_def)
  have "inj_on (ids ?q) {0..65535}"
    using inj_on_word_of_int[where 'a = 16]
    by (intro inj_onI) (auto simp: ids inj_on_def)
  moreover have "w \<in> ids ?q ` {0..65535}" for w :: uint16_t
  proof
    show "uint w \<in> {0..65535}" using uint_lt2p[of w] by simp
    then show "w = ids ?q (uint w)" by (simp add: ids)
  qed
  ultimately show ?thesis
    by (auto simp: pool_inv_def id_pool_init_def used_ids_def)
qed

lemma id_alloc_fields:
  assumes "id_alloc out p = (r, oid, q)"
  shows "r = 0 \<longleftrightarrow> out \<and> 0 \<le> top_idx p"
    and "r = 0 \<Longrightarrow> oid = Some (ids p (top_idx p))"
    and "r = 0 \<Longrightarrow> q = p\<lparr>st := (st p)(ids p (top_idx p) := True), top_idx := top_idx p - 1\<rparr>"
    and "r \<noteq> 0 \<Longrightarrow> r = 1 \<and> oid = None \<and> q = p"
  using assms by (auto simp: id_alloc_def Let_def split: if_splits)

lemma id_alloc_inv:
  assumes inv: "pool_inv p" and eq: "id_alloc out p = (0, Some rid, q)"
  shows "rid \<notin> used_ids p" and "used_ids q = insert rid (used_ids p)" and "pool_inv q"
proof -
  note f = id_alloc_fields[OF eq]
  from f have t: "0 \<le> top_idx p" and rid: "rid = ids p (top_idx p)"
    and q: "q = p\<lparr>st := (st p)(rid := True), top_idx := top_idx p - 1\<rparr>" by auto
  from inv have img: "ids p ` {0..top_idx p} = - used_ids p" and inj: "inj_on (ids p) {0..top_idx p}"
    by (auto simp: pool_inv_def)
  have split: "{0..top_idx p} = insert (top_idx p) {0..top_idx p - 1}" using t by auto
  show notin: "rid \<notin> used_ids p" using img t rid by auto
  show used: "used_ids q = insert rid (used_ids p)" by (auto simp: q used_ids_def)
  have "rid \<notin> ids p ` {0..top_idx p - 1}"
    using inj t unfolding rid by (force simp: inj_on_def)
  moreover have "insert rid (ids p ` {0..top_idx p - 1}) = - used_ids p"
    using img unfolding split rid by simp
  ultimately have "ids p ` {0..top_idx p - 1} = - used_ids q"
    using used by auto
  moreover have "inj_on (ids p) {0..top_idx p - 1}"
    by (rule inj_on_subset[OF inj]) auto
  ultimately show "pool_inv q" using t by (simp add: pool_inv_def q)
qed

lemma id_free_used:
  "pool_inv p \<Longrightarrow> used_ids (id_free rid p) = used_ids p - {rid}"
  using used_imp_room[of p rid] by (auto simp: id_free_def used_ids_def)

lemma id_free_inv:
  assumes inv: "pool_inv p"
  shows "pool_inv (id_free rid p)"
proof (cases "st p rid")
  case False
  with inv show ?thesis by (simp add: id_free_def)
next
  case True
  then have room: "top_idx p < 65535" and used: "rid \<in> used_ids p"
    using used_imp_room[OF inv, of rid] by (auto simp: used_ids_def)
  let ?q = "id_free rid p"
  have ids: "ids ?q = (ids p)(top_idx p + 1 := rid)" and tq: "top_idx ?q = top_idx p + 1"
    using True room by (auto simp: id_free_def)
  have split: "{0..top_idx p + 1} = insert (top_idx p + 1) {0..top_idx p}"
    using inv by (auto simp: pool_inv_def)
  have img: "ids p ` {0..top_idx p} = - used_ids p" and inj: "inj_on (ids p) {0..top_idx p}"
    and lo: "-1 \<le> top_idx p"
    using inv by (auto simp: pool_inv_def)
  have "ids ?q ` {0..top_idx p} = ids p ` {0..top_idx p}" by (auto simp: ids)
  then have "ids ?q ` {0..top_idx ?q} = insert rid (- used_ids p)"
    unfolding tq split image_insert img by (simp add: ids)
  then have "ids ?q ` {0..top_idx ?q} = - used_ids ?q"
    using used by (auto simp: id_free_used[OF inv])
  moreover have "inj_on (ids ?q) {0..top_idx ?q}"
    using inj used img by (auto simp: tq split ids inj_on_def)
  ultimately show ?thesis using lo by (simp add: pool_inv_def tq)
qed

section \<open>Interface\<close>

text \<open>
  What the server relies on: an allocation fails exactly when every identifier is in use
  and otherwise hands out one that is not; freeing releases exactly the identifier named.
\<close>

locale id_allocator =
  fixes inv :: "'p \<Rightarrow> bool"
    and used :: "'p \<Rightarrow> uint16_t set"
    and alloc :: "'p \<Rightarrow> int \<times> uint16_t option \<times> 'p"
    and release :: "uint16_t \<Rightarrow> 'p \<Rightarrow> 'p"
  assumes alloc_ok: "inv p \<Longrightarrow> used p \<noteq> UNIV \<Longrightarrow> \<exists>rid q. alloc p = (0, Some rid, q)"
    and alloc_full: "inv p \<Longrightarrow> used p = UNIV \<Longrightarrow> alloc p = (1, None, p)"
    and alloc_fresh: "inv p \<Longrightarrow> alloc p = (0, Some rid, q) \<Longrightarrow> rid \<notin> used p"
    and alloc_used: "inv p \<Longrightarrow> alloc p = (0, Some rid, q) \<Longrightarrow> used q = insert rid (used p)"
    and alloc_inv: "inv p \<Longrightarrow> alloc p = (0, Some rid, q) \<Longrightarrow> inv q"
    and release_used: "inv p \<Longrightarrow> used (release rid p) = used p - {rid}"
    and release_inv: "inv p \<Longrightarrow> inv (release rid p)"
begin

text \<open>A released identifier can be allocated again: the pool never shrinks.\<close>

lemma alloc_after_release:
  assumes "inv p"
  shows "\<exists>rid' q. alloc (release rid p) = (0, Some rid', q)"
  using assms by (intro alloc_ok) (auto simp: release_inv release_used)

lemma release_alloc:
  assumes "inv p" "alloc p = (0, Some rid, q)"
  shows "used (release rid q) = used p"
  using assms alloc_fresh[OF assms] by (auto simp: release_used alloc_inv alloc_used)

lemma release_twice:
  "inv p \<Longrightarrow> used (release rid (release rid p)) = used (release rid p)"
  by (simp add: release_used release_inv)

end

text \<open>A run of the pool: allocations and releases in any order.\<close>

datatype id_op = Alloc | Free uint16_t

fun id_step :: "id_op \<Rightarrow> IdPool \<Rightarrow> IdPool" where
  "id_step Alloc p = snd (snd (id_alloc True p))"
| "id_step (Free rid) p = id_free rid p"

fun id_run :: "id_op list \<Rightarrow> IdPool \<Rightarrow> IdPool" where
  "id_run [] p = p"
| "id_run (x # xs) p = id_run xs (id_step x p)"

interpretation pool: id_allocator pool_inv used_ids "id_alloc True" id_free
proof unfold_locales
  fix p :: IdPool
  assume inv: "pool_inv p"
  show "\<exists>rid q. id_alloc True p = (0, Some rid, q)" if "used_ids p \<noteq> UNIV"
    using pool_inv_empty[OF inv] that by (auto simp: id_alloc_def Let_def)
  show "id_alloc True p = (1, None, p)" if "used_ids p = UNIV"
    using pool_inv_empty[OF inv] that by (auto simp: id_alloc_def Let_def)
qed (auto simp: id_alloc_inv id_free_used id_free_inv)

lemma id_step_inv: "pool_inv p \<Longrightarrow> pool_inv (id_step x p)"
proof (cases x)
  case Alloc
  assume inv: "pool_inv p"
  show ?thesis
  proof (cases "used_ids p = UNIV")
    case True
    then show ?thesis using inv Alloc by (simp add: pool.alloc_full)
  next
    case False
    then obtain rid q where "id_alloc True p = (0, Some rid, q)"
      using inv pool.alloc_ok by blast
    then show ?thesis using inv Alloc by (auto dest: pool.alloc_inv)
  qed
qed (auto simp: id_free_inv)

lemma id_run_inv: "pool_inv p \<Longrightarrow> pool_inv (id_run xs p)"
  by (induction xs arbitrary: p) (auto simp: id_step_inv)

text \<open>
  C24. After \<open>id_pool_init\<close> and any sequence of \<open>id_alloc\<close> and \<open>id_free\<close> calls, in any
  order and with any arguments (double frees and frees of identifiers that were never
  handed out included), \<open>id_alloc\<close> fails only when all 65536 identifiers are in use, and
  an identifier it hands out is not in use, and in use afterwards.
\<close>

theorem id_alloc_unique:
  "let p = id_run ops (snd (id_pool_init p0))
   in case id_alloc True p of
        (r, None, q) \<Rightarrow> r = 1 \<and> q = p \<and> used_ids p = UNIV
      | (r, Some rid, q) \<Rightarrow> r = 0 \<and> rid \<notin> used_ids p \<and> used_ids q = insert rid (used_ids p)"
proof -
  let ?p = "id_run ops (snd (id_pool_init p0))"
  have inv: "pool_inv ?p" by (intro id_run_inv init_inv)
  show ?thesis
  proof (cases "used_ids ?p = UNIV")
    case True
    then show ?thesis using inv by (simp add: pool.alloc_full Let_def)
  next
    case False
    then obtain rid q where "id_alloc True ?p = (0, Some rid, q)"
      using inv pool.alloc_ok by blast
    then show ?thesis
      using pool.alloc_fresh[OF inv] pool.alloc_used[OF inv] by (simp add: Let_def)
  qed
qed

text \<open>
  \<open>id_free\<close> releases exactly the identifier it is given and keeps the rest, whatever
  the pool went through before: its guard on \<open>top_idx\<close> never blocks a legitimate release, a
  second \<open>id_free\<close> of the same identifier changes nothing, and the next \<open>id_alloc\<close>
  succeeds.
\<close>

theorem id_free_exact:
  "let p = id_run ops (snd (id_pool_init p0)); q = id_free rid p
   in used_ids q = used_ids p - {rid} \<and> id_free rid q = q \<and>
      (\<exists>rid' q'. id_alloc True q = (0, Some rid', q'))"
proof -
  let ?p = "id_run ops (snd (id_pool_init p0))"
  have inv: "pool_inv ?p" by (intro id_run_inv init_inv)
  have "id_free rid (id_free rid ?p) = id_free rid ?p"
    using used_imp_room[OF inv, of rid] by (auto simp: id_free_def used_ids_def)
  then show ?thesis
    using pool.release_used[OF inv] pool.alloc_after_release[OF inv] by (simp add: Let_def)
qed

end
