(* ===== verification/Byte_Order.thy ===== *)
theory Byte_Order
  imports Relay_Prelude
begin

text \<open>
  Byte order, \<^verbatim>\<open>src/infra/utils.c\<close>. The host's byte order is the parameter \<open>le\<close>
  (\<open>True\<close> on a little-endian machine), and \<open>mem_bytes\<close> says how a word lies in memory
  under it. \<open>htons\<close>, \<open>ntohs\<close>, \<open>htonl\<close> and \<open>ntohl\<close> are the C library's, by their
  documented meaning. The lemmas show that a value converted with \<open>h2n_*\<close> lies in
  memory most significant byte first on either kind of host, which is what the packet
  theories use (\<open>be16\<close>, \<open>be32\<close>).
\<close>

section \<open>Words in memory\<close>

definition byte_at :: "'a::len word \<Rightarrow> nat \<Rightarrow> byte" where
  "byte_at v k = ucast (drop_bit (8 * k) v)"

definition mem_bytes :: "bool \<Rightarrow> nat \<Rightarrow> 'a::len word \<Rightarrow> byte list" where
  "mem_bytes le n v =
     (let low_first = map (byte_at v) [0..<n] in if le then low_first else rev low_first)"

definition be_bytes :: "nat \<Rightarrow> 'a::len word \<Rightarrow> byte list" where
  "be_bytes n v = rev (map (byte_at v) [0..<n])"

definition be16 :: "uint16_t \<Rightarrow> byte list" where
  "be16 v = [ucast (drop_bit 8 v), ucast v]"

definition be32 :: "uint32_t \<Rightarrow> byte list" where
  "be32 v = [ucast (drop_bit 24 v), ucast (drop_bit 16 v), ucast (drop_bit 8 v), ucast v]"

definition from_be16 :: "byte list \<Rightarrow> uint16_t" where
  "from_be16 bs = push_bit 8 (ucast (bs ! 0)) OR ucast (bs ! 1)"

definition from_be32 :: "byte list \<Rightarrow> uint32_t" where
  "from_be32 bs = push_bit 24 (ucast (bs ! 0)) OR push_bit 16 (ucast (bs ! 1))
     OR push_bit 8 (ucast (bs ! 2)) OR ucast (bs ! 3)"

section \<open>The code\<close>

text \<open>\<open>is_little_endian\<close> looks at the first byte of the 16-bit value 1.\<close>

definition is_little_endian :: "bool \<Rightarrow> bool" where
  "is_little_endian le \<longleftrightarrow> mem_bytes le 2 (0x0001 :: uint16_t) ! 0 = 0x01"

definition htons :: "bool \<Rightarrow> uint16_t \<Rightarrow> uint16_t" where
  "htons le v = (if le then push_bit 8 v OR drop_bit 8 v else v)"

definition htonl :: "bool \<Rightarrow> uint32_t \<Rightarrow> uint32_t" where
  "htonl le v =
     (if le then push_bit 24 (v AND 0xFF) OR push_bit 8 (v AND 0xFF00)
        OR drop_bit 8 (v AND 0xFF0000) OR drop_bit 24 v else v)"

definition swap_8 :: "uint64_t \<Rightarrow> uint64_t" where
  "swap_8 v =
     push_bit 56 (drop_bit 0 v AND 0xFF) OR
     push_bit 48 (drop_bit 8 v AND 0xFF) OR
     push_bit 40 (drop_bit 16 v AND 0xFF) OR
     push_bit 32 (drop_bit 24 v AND 0xFF) OR
     push_bit 24 (drop_bit 32 v AND 0xFF) OR
     push_bit 16 (drop_bit 40 v AND 0xFF) OR
     push_bit 8 (drop_bit 48 v AND 0xFF) OR
     push_bit 0 (drop_bit 56 v AND 0xFF)"

text \<open>The loop \<open>dst[i] = src[15 - i]\<close>.\<close>

definition swap_16 :: "byte list \<Rightarrow> byte list option" where
  "swap_16 src = those (map (\<lambda>i. arr_get src (15 - int i)) [0..<16])"

definition h2n_2 :: "bool \<Rightarrow> uint16_t \<Rightarrow> uint16_t" where
  "h2n_2 le host = htons le host"

definition h2n_4 :: "bool \<Rightarrow> uint32_t \<Rightarrow> uint32_t" where
  "h2n_4 le host = htonl le host"

definition h2n_8 :: "bool \<Rightarrow> uint64_t \<Rightarrow> uint64_t" where
  "h2n_8 le host = (if is_little_endian le then swap_8 host else host)"

text \<open>
  The 16-byte conversions leave the destination alone when either pointer is \<open>NULL\<close>; the
  result is the destination's new content.
\<close>

definition h2n_16 :: "bool \<Rightarrow> byte list option \<Rightarrow> byte list option \<Rightarrow> byte list option option" where
  "h2n_16 le host net =
     (case (host, net) of
        (Some h, Some _) \<Rightarrow>
          if is_little_endian le then map_option Some (swap_16 h)
          else map_option Some (arr_read h 0 16)
      | _ \<Rightarrow> Some net)"

definition n2h_2 :: "bool \<Rightarrow> uint16_t \<Rightarrow> uint16_t" where
  "n2h_2 le net = htons le net"

definition n2h_4 :: "bool \<Rightarrow> uint32_t \<Rightarrow> uint32_t" where
  "n2h_4 le net = htonl le net"

definition n2h_8 :: "bool \<Rightarrow> uint64_t \<Rightarrow> uint64_t" where
  "n2h_8 le net = (if is_little_endian le then swap_8 net else net)"

definition n2h_16 :: "bool \<Rightarrow> byte list option \<Rightarrow> byte list option \<Rightarrow> byte list option option" where
  "n2h_16 le net host =
     (case (net, host) of
        (Some n, Some _) \<Rightarrow>
          if is_little_endian le then map_option Some (swap_16 n)
          else map_option Some (arr_read n 0 16)
      | _ \<Rightarrow> Some host)"

section \<open>Lemmas\<close>

lemma is_little_endian_correct [simp]: "is_little_endian le = le"
  by (simp add: is_little_endian_def mem_bytes_def byte_at_def Let_def upt_conv_Cons numeral_2_eq_2)

lemma htons_htons [simp]: "htons le (htons le v) = v"
  unfolding htons_def
  by (rule bit_word_eqI) (auto simp: bit_simps)

lemma mask_consts:
  "(0xFF :: 'a::len word) = mask 8"
  "(0xFF00 :: 'a::len word) = push_bit 8 (mask 8)"
  "(0xFF0000 :: 'a::len word) = push_bit 16 (mask 8)"
  by (simp_all add: mask_eq_exp_minus_1 push_bit_eq_mult)

lemma bit_htonl_le:
  "bit (htonl True v) n \<longleftrightarrow>
     (if n < 8 then bit v (n + 24) else if n < 16 then bit v (n + 8)
      else if n < 24 then bit v (n - 8) else n < 32 \<and> bit v (n - 24))"
  unfolding htonl_def mask_consts
  by (auto simp: bit_simps add.commute dest: bit_imp_le_length)

lemma bit_byte_move:
  "bit (push_bit a (drop_bit b v AND mask 8) :: 'a::len word) n \<longleftrightarrow>
     n < LENGTH('a) \<and> a \<le> n \<and> n < a + 8 \<and> bit v (n - a + b)"
  by (auto simp: bit_simps add.commute)

lemma byte_range:
  obtains "n < (8::nat)" | "8 \<le> n" "n < 16" | "16 \<le> n" "n < 24" | "24 \<le> n" "n < 32"
  | "32 \<le> n" "n < 40" | "40 \<le> n" "n < 48" | "48 \<le> n" "n < 56" | "56 \<le> n"
  by linarith

lemma bit_swap_8:
  "bit (swap_8 v) n \<longleftrightarrow>
     (if n < 8 then bit v (n + 56) else if n < 16 then bit v (n + 40)
      else if n < 24 then bit v (n + 24) else if n < 32 then bit v (n + 8)
      else if n < 40 then bit v (n - 8) else if n < 48 then bit v (n - 24)
      else if n < 56 then bit v (n - 40) else n < 64 \<and> bit v (n - 56))"
  unfolding swap_8_def mask_consts bit_or_iff bit_byte_move
  by (cases rule: byte_range[of n]; simp add: add.commute[of _ n])

lemma swap_8_swap_8 [simp]: "swap_8 (swap_8 v) = v"
  by (intro bit_word_eqI) (auto simp: bit_swap_8 add.commute)

lemma htonl_htonl [simp]: "htonl le (htonl le v) = v"
proof (cases le)
  case True
  then show ?thesis
    by (intro bit_word_eqI) (auto simp: bit_htonl_le add.commute)
qed (simp add: htonl_def)

lemma from_be16_be16 [simp, wire_simps]: "from_be16 (be16 v) = v"
  unfolding from_be16_def be16_def by (rule bit_word_eqI) (auto simp: bit_simps)

lemma from_be32_be32 [simp, wire_simps]: "from_be32 (be32 v) = v"
  unfolding be32_def
proof (rule bit_word_eqI)
  fix n assume "n < LENGTH(32)"
  then show "bit (from_be32 [ucast (drop_bit 24 v), ucast (drop_bit 16 v),
      ucast (drop_bit 8 v), ucast v]) n = bit v n"
    unfolding from_be32_def by (cases rule: byte_range[of n]; auto simp: bit_simps)
qed

lemma length_be16 [simp, wire_simps]: "length (be16 v) = 2"
  by (simp add: be16_def)

lemma length_be32 [simp, wire_simps]: "length (be32 v) = 4"
  by (simp add: be32_def)

lemma mem_h2n_2: "mem_bytes le 2 (h2n_2 le v) = be16 v"
  unfolding mem_bytes_def h2n_2_def htons_def be16_def byte_at_def
  by (cases le; simp add: upt_conv_Cons numeral_2_eq_2 Let_def)
    (auto intro!: bit_word_eqI simp: bit_simps)

lemma upt_4: "[0..<4] = [0, 1, 2, 3]"
  by (simp add: upt_conv_Cons)

lemma mem_h2n_4: "mem_bytes le 4 (h2n_4 le v) = be32 v"
proof (cases le)
  case True
  then show ?thesis
    unfolding mem_bytes_def h2n_4_def be32_def byte_at_def upt_4
    by (auto intro!: bit_word_eqI simp: bit_simps bit_htonl_le add.commute)
next
  case False
  then show ?thesis
    unfolding mem_bytes_def h2n_4_def be32_def byte_at_def upt_4
    by (simp add: htonl_def)
qed

text \<open>
  \<open>sys_time_ms\<close> of what \<open>clock_gettime\<close> gives, seconds and nanoseconds: a clock that does
  not go back stays one in milliseconds.
\<close>

definition sys_time_ms :: "int \<Rightarrow> int \<Rightarrow> ms" where
  "sys_time_ms tv_sec tv_nsec = tv_sec * 1000 + tv_nsec div 1000000"

lemma sys_time_mono:
  assumes "s < s' \<or> s = s' \<and> n \<le> n'" "0 \<le> n" "n < 1000000000" "0 \<le> n'"
  shows "sys_time_ms s n \<le> sys_time_ms s' n'"
proof -
  have "n div 1000000 < 1000" "0 \<le> n' div 1000000" using assms by simp_all
  moreover have "n \<le> n' \<Longrightarrow> n div 1000000 \<le> n' div 1000000" by (rule zdiv_mono1) simp_all
  ultimately show ?thesis using assms(1) unfolding sys_time_ms_def by linarith
qed

lemma upt_8: "[0..<8] = [0, 1, 2, 3, 4, 5, 6, 7]"
  by (simp add: upt_conv_Cons)

lemma mem_h2n_8: "mem_bytes le 8 (h2n_8 le v) = be_bytes 8 v"
proof (cases le)
  case True
  then show ?thesis
    unfolding mem_bytes_def h2n_8_def be_bytes_def byte_at_def upt_8
    by (auto intro!: bit_word_eqI simp: bit_simps bit_swap_8 add.commute)
next
  case False
  then show ?thesis by (simp add: mem_bytes_def h2n_8_def be_bytes_def)
qed

lemma those_Some_map: "those (map Some xs) = Some xs"
  by (induction xs) auto

lemma swap_16_rev:
  assumes "length bs = 16"
  shows "swap_16 bs = Some (rev bs)"
proof -
  have "map (\<lambda>i. arr_get bs (15 - int i)) [0..<16] = map Some (rev bs)"
    using assms by (intro nth_equalityI) (auto simp: arr_get_def rev_nth nat_diff_distrib')
  then show ?thesis by (simp add: swap_16_def those_Some_map)
qed

lemma h2n_16_value:
  "length h = 16 \<Longrightarrow> h2n_16 le (Some h) (Some d) = Some (Some (if le then rev h else h))"
  by (simp add: h2n_16_def swap_16_rev arr_read_def)

lemma n2h_16_value:
  "length h = 16 \<Longrightarrow> n2h_16 le (Some h) (Some d) = Some (Some (if le then rev h else h))"
  by (simp add: n2h_16_def swap_16_rev arr_read_def)

section \<open>Properties\<close>

text \<open>
  C40. On a host of either byte order, \<open>h2n_2\<close>, \<open>h2n_4\<close> and \<open>h2n_8\<close> leave a value in
  memory most significant byte first, and each \<open>n2h_*\<close> undoes its \<open>h2n_*\<close>.
\<close>

theorem network_byte_order:
  "mem_bytes le 2 (h2n_2 le v2) = be_bytes 2 v2 \<and> n2h_2 le (h2n_2 le v2) = v2 \<and>
   mem_bytes le 4 (h2n_4 le v4) = be_bytes 4 v4 \<and> n2h_4 le (h2n_4 le v4) = v4 \<and>
   mem_bytes le 8 (h2n_8 le v8) = be_bytes 8 v8 \<and> n2h_8 le (h2n_8 le v8) = v8"
proof -
  have "be_bytes 2 v2 = be16 v2"
    by (simp add: be_bytes_def be16_def byte_at_def upt_conv_Cons numeral_2_eq_2)
  moreover have "be_bytes 4 v4 = be32 v4"
    by (simp add: be_bytes_def be32_def byte_at_def upt_4)
  ultimately show ?thesis
    using mem_h2n_2[of le v2] mem_h2n_4[of le v4] mem_h2n_8[of le v8]
    by (simp add: n2h_2_def h2n_2_def n2h_4_def h2n_4_def n2h_8_def h2n_8_def split: if_splits)
qed

end
