(* ===== verification/Exception_Chain.thy ===== *)
theory Exception_Chain
  imports Relay_Prelude
begin

text \<open>
  The error chain of \<^verbatim>\<open>src/infra/exception.c\<close>: a thread-local buffer \<open>msg\<close> that is
  filled from its end downwards, the flag \<open>err_flag\<close> and the index \<open>stack_top\<close> of the
  newest message. The contract of \<^verbatim>\<open>include/infra/exception.h\<close>, the three-state machine
  close / open / err, is the abstract machine \<open>chain_step\<close> over the list of recorded
  messages; the code refines it.
\<close>

section \<open>The code\<close>

definition MSG_SIZE :: int where
  "MSG_SIZE = 4096"

record ExState =
  msg :: "byte list"
  err_flag :: bool
  stack_top :: int

definition ex_initial :: ExState where
  "ex_initial = \<lparr>msg = replicate 4096 0, err_flag = False, stack_top = MSG_SIZE - 1\<rparr>"

definition ex_try :: "ExState \<Rightarrow> ExState option" where
  "ex_try s = do {
     m \<leftarrow> arr_set (msg s) (MSG_SIZE - 1) 0;
     Some (s\<lparr>err_flag := True, stack_top := MSG_SIZE - 1, msg := m\<rparr>) }"

definition ex_catch :: "ExState \<Rightarrow> bool" where
  "ex_catch s \<longleftrightarrow> err_flag s \<and> stack_top s < MSG_SIZE - 1"

text \<open>
  \<open>ex_throw\<close> takes the formatted message; \<open>vsnprintf\<close> into \<open>at[512]\<close> keeps its first
  511 bytes. The byte 10 is the newline.
\<close>

definition ex_throw :: "cstr \<Rightarrow> ExState \<Rightarrow> ExState option" where
  "ex_throw fmt s0 = do {
     s \<leftarrow> (if \<not> err_flag s0 then ex_try s0 else Some s0);
     let at = take 511 fmt;
         len = int (length at);
         net_r = stack_top s - len
     in if len = 0 then Some s
        else if net_r < 0 then Some s
        else do {
          m1 \<leftarrow> arr_write (msg s) net_r at;
          m2 \<leftarrow> arr_set m1 (net_r - 1) 10;
          Some (s\<lparr>msg := m2, stack_top := net_r - 1\<rparr>) } }"

definition ex_end :: "ExState \<Rightarrow> cstr \<times> ExState" where
  "ex_end s =
     (if \<not> err_flag s then ([], s)
      else (takeWhile (\<lambda>b. b \<noteq> 0) (drop (nat (stack_top s)) (msg s)), s\<lparr>err_flag := False\<rparr>))"

section \<open>The contract\<close>

text \<open>
  The abstract state: not recording, or recording with the messages so far, newest first.
  The state \<open>err\<close> of the header is \<open>Recording (m # ms)\<close>, the state \<open>open\<close> is
  \<open>Recording []\<close>.
\<close>

datatype Chain = Closed | Recording "cstr list"

definition render :: "cstr list \<Rightarrow> cstr" where
  "render ms = concat (map (\<lambda>m. 10 # m) ms)"

datatype ExOp = Try | Throw cstr | Catch | End

datatype ExOut = Done | Caught bool | Trace cstr

text \<open>The messages of a chain; a throw on a closed chain opens it first.\<close>

definition chain_msgs :: "Chain \<Rightarrow> cstr list" where
  "chain_msgs c = (case c of Closed \<Rightarrow> [] | Recording ms \<Rightarrow> ms)"

text \<open>
  A message longer than 511 bytes is cut; an empty one, and one that does not fit, is
  dropped. \<open>chain_room\<close> is the room left in the buffer.
\<close>

definition chain_room :: "Chain \<Rightarrow> int" where
  "chain_room c = MSG_SIZE - 1 - int (length (render (chain_msgs c)))"

definition chain_throw :: "cstr \<Rightarrow> Chain \<Rightarrow> Chain" where
  "chain_throw fmt c =
     (let m = take 511 fmt
      in if m = [] \<or> chain_room c < int (length m) then Recording (chain_msgs c)
         else Recording (m # chain_msgs c))"

fun chain_step :: "ExOp \<Rightarrow> Chain \<Rightarrow> ExOut \<times> Chain" where
  "chain_step Try c = (Done, Recording [])"
| "chain_step (Throw fmt) c = (Done, chain_throw fmt c)"
| "chain_step Catch c = (Caught (chain_msgs c \<noteq> []), c)"
| "chain_step End c = (Trace (render (chain_msgs c)), Closed)"

fun ex_step :: "ExOp \<Rightarrow> ExState \<Rightarrow> (ExOut \<times> ExState) option" where
  "ex_step Try s = map_option (Pair Done) (ex_try s)"
| "ex_step (Throw fmt) s = map_option (Pair Done) (ex_throw fmt s)"
| "ex_step Catch s = Some (Caught (ex_catch s), s)"
| "ex_step End s = (case ex_end s of (t, s') \<Rightarrow> Some (Trace t, s'))"

text \<open>The operation does not write below the buffer (\<open>net_r\<close> is not exactly 0).\<close>

fun op_fits :: "ExOp \<Rightarrow> Chain \<Rightarrow> bool" where
  "op_fits (Throw fmt) c \<longleftrightarrow>
     0 \<notin> set fmt \<and> (take 511 fmt = [] \<or> chain_room c \<noteq> int (length (take 511 fmt)))"
| "op_fits _ c \<longleftrightarrow> True"

definition ex_rel :: "ExState \<Rightarrow> Chain \<Rightarrow> bool" where
  "ex_rel s c \<longleftrightarrow>
     length (msg s) = 4096 \<and> err_flag s = (c \<noteq> Closed) \<and>
     (c \<noteq> Closed \<longrightarrow> 0 \<le> stack_top s \<and> stack_top s = chain_room c \<and>
        (\<forall>m \<in> set (chain_msgs c). 0 \<notin> set m) \<and> [] \<notin> set (chain_msgs c) \<and>
        drop (nat (stack_top s)) (msg s) = render (chain_msgs c) @ [0])"

lemma render_simps [simp]:
  "render [] = []"
  "render (m # ms) = 10 # m @ render ms"
  by (simp_all add: render_def)

lemma render_no_zero: "(\<forall>m \<in> set ms. 0 \<notin> set m) \<Longrightarrow> 0 \<notin> set (render ms)"
  by (induction ms) auto

lemma chain_msgs_simps [simp]:
  "chain_msgs Closed = []" "chain_msgs (Recording ms) = ms"
  by (simp_all add: chain_msgs_def)

lemma rel_initial: "ex_rel ex_initial Closed"
  by (simp add: ex_rel_def ex_initial_def)

lemma drop_set_here: "n < length xs \<Longrightarrow> drop n (xs[n := x]) = x # drop (Suc n) xs"
  by (simp add: upd_conv_take_nth_drop)

lemma rel_try:
  assumes "ex_rel s c"
  shows "\<exists>s'. ex_try s = Some s' \<and> ex_rel s' (Recording [])"
proof -
  have len: "length (msg s) = 4096" using assms by (simp add: ex_rel_def)
  have "drop 4095 ((msg s)[4095 := 0]) = [0]"
    using len by (subst drop_set_here) simp_all
  then show ?thesis
    using len by (simp add: ex_try_def arr_set_def MSG_SIZE_def ex_rel_def chain_room_def)
qed

lemma rel_catch: "ex_rel s c \<Longrightarrow> ex_catch s = (chain_msgs c \<noteq> [])"
  by (cases c) (auto simp: ex_rel_def ex_catch_def chain_room_def render_def)

lemma rel_end:
  assumes "ex_rel s c"
  shows "\<exists>s'. ex_end s = (render (chain_msgs c), s') \<and> ex_rel s' Closed"
proof (cases c)
  case Closed
  with assms show ?thesis by (simp add: ex_rel_def ex_end_def)
next
  case (Recording ms)
  with assms have "takeWhile (\<lambda>b. b \<noteq> 0) (render ms @ [0]) = render ms"
    using render_no_zero[of ms] by (subst takeWhile_append2) (auto simp: ex_rel_def)
  moreover have "drop (nat (stack_top s)) (msg s) = render ms @ [0]" "err_flag s"
    and "length (msg s) = 4096"
    using assms Recording by (auto simp: ex_rel_def)
  ultimately show ?thesis using Recording by (simp add: ex_rel_def ex_end_def)
qed

text \<open>The write of one message, newline first, in front of the older ones.\<close>

lemma write_message:
  assumes len: "length buf = 4096" and net: "0 < n" "n + length m \<le> 4096"
  shows "\<exists>b1 b2. arr_write buf (int n) m = Some b1 \<and> arr_set b1 (int n - 1) 10 = Some b2 \<and>
    length b2 = 4096 \<and> drop (n - 1) b2 = 10 # m @ drop (n + length m) buf"
proof -
  let ?b1 = "take n buf @ m @ drop (n + length m) buf"
  let ?b2 = "?b1[n - 1 := 10]"
  have w: "arr_write buf (int n) m = Some ?b1"
    using len net by (simp add: arr_write_def)
  have l1: "length ?b1 = 4096" using len net by simp
  have s: "arr_set ?b1 (int n - 1) 10 = Some ?b2"
    using net l1 unfolding arr_set_def by (auto simp: nat_diff_distrib')
  have "drop (n - 1) ?b2 = 10 # drop n ?b1"
    using net l1 by (subst drop_set_here) auto
  also have "drop n ?b1 = m @ drop (n + length m) buf"
    using len net by simp
  finally show ?thesis using w s l1 by auto
qed

lemma rel_throw_open:
  assumes rel: "ex_rel s (Recording ms)" and fits: "op_fits (Throw fmt) (Recording ms)"
  shows "\<exists>s'. ex_throw fmt s = Some s' \<and> ex_rel s' (chain_throw fmt (Recording ms))"
proof -
  let ?m = "take 511 fmt"
  let ?net = "stack_top s - int (length ?m)"
  have flag: "err_flag s" and len: "length (msg s) = 4096"
    and top: "0 \<le> stack_top s" "stack_top s = chain_room (Recording ms)"
    and nz: "\<forall>m \<in> set ms. 0 \<notin> set m" "[] \<notin> set ms"
    and buf: "drop (nat (stack_top s)) (msg s) = render ms @ [0]"
    using rel by (auto simp: ex_rel_def)
  have z: "0 \<notin> set ?m" using fits set_take_subset[of 511 fmt] by auto
  consider (empty) "?m = []" | (full) "?m \<noteq> []" "?net < 0" | (room) "?m \<noteq> []" "0 < ?net"
    using fits top by fastforce
  then show ?thesis
  proof cases
    case empty
    then show ?thesis using rel flag by (simp add: ex_throw_def chain_throw_def)
  next
    case full
    then show ?thesis
      using rel flag top by (auto simp: ex_throw_def chain_throw_def Let_def)
  next
    case room
    define n where "n = nat ?net"
    have n: "?net = int n" "0 < n" using room by (auto simp: n_def)
    have nb: "n + length ?m = nat (stack_top s)" using n by linarith
    have "stack_top s \<le> 4096" using top by (simp add: chain_room_def MSG_SIZE_def)
    then have "n + length ?m \<le> 4096" using nb by simp
    from write_message[OF len \<open>0 < n\<close> this] obtain b1 b2 where
      b: "arr_write (msg s) (int n) ?m = Some b1" "arr_set b1 (int n - 1) 10 = Some b2"
        "length b2 = 4096" "drop (n - 1) b2 = 10 # ?m @ drop (n + length ?m) (msg s)" by blast
    let ?s' = "s\<lparr>msg := b2, stack_top := int n - 1\<rparr>"
    have thr: "ex_throw fmt s = Some ?s'"
      using room flag b n by (simp add: ex_throw_def Let_def)
    have abs: "chain_throw fmt (Recording ms) = Recording (?m # ms)"
      using room top by (auto simp: chain_throw_def Let_def)
    have "ex_rel ?s' (Recording (?m # ms))"
      using room n b nb buf z nz top flag
      by (auto simp: ex_rel_def chain_room_def MSG_SIZE_def nat_diff_distrib')
    with thr abs show ?thesis by auto
  qed
qed

lemma rel_throw:
  assumes rel: "ex_rel s c" and fits: "op_fits (Throw fmt) c"
  shows "\<exists>s'. ex_throw fmt s = Some s' \<and> ex_rel s' (chain_throw fmt c)"
proof (cases c)
  case (Recording ms)
  then show ?thesis using rel_throw_open rel fits by blast
next
  case Closed
  obtain s1 where s1: "ex_try s = Some s1" "ex_rel s1 (Recording [])"
    using rel_try[OF rel] by blast
  then have "ex_throw fmt s = ex_throw fmt s1"
    using rel Closed by (simp add: ex_throw_def ex_rel_def)
  moreover have "chain_throw fmt c = chain_throw fmt (Recording [])"
    by (simp add: Closed chain_throw_def chain_room_def)
  moreover have "op_fits (Throw fmt) (Recording [])"
    using fits Closed by (simp add: chain_room_def)
  ultimately show ?thesis using rel_throw_open[OF s1(2)] by auto
qed

lemma rel_step:
  assumes "ex_rel s c" "op_fits x c"
  shows "\<exists>s'. ex_step x s = Some (fst (chain_step x c), s') \<and> ex_rel s' (snd (chain_step x c))"
proof (cases x)
  case Try
  then show ?thesis using rel_try[OF assms(1)] by auto
next
  case (Throw fmt)
  then show ?thesis using rel_throw[OF assms(1)] assms(2) by fastforce
next
  case Catch
  then show ?thesis using rel_catch[OF assms(1)] assms(1) by auto
next
  case End
  then show ?thesis using rel_end[OF assms(1)] by auto
qed

section \<open>Runs\<close>

fun ex_run :: "ExOp list \<Rightarrow> ExState \<Rightarrow> (ExOut list \<times> ExState) option" where
  "ex_run [] s = Some ([], s)"
| "ex_run (x # xs) s = do {
     (r, s1) \<leftarrow> ex_step x s;
     (rs, s2) \<leftarrow> ex_run xs s1;
     Some (r # rs, s2) }"

fun chain_run :: "ExOp list \<Rightarrow> Chain \<Rightarrow> ExOut list \<times> Chain" where
  "chain_run [] c = ([], c)"
| "chain_run (x # xs) c =
     (let (r, c1) = chain_step x c; (rs, c2) = chain_run xs c1 in (r # rs, c2))"

fun run_fits :: "ExOp list \<Rightarrow> Chain \<Rightarrow> bool" where
  "run_fits [] c = True"
| "run_fits (x # xs) c = (op_fits x c \<and> run_fits xs (snd (chain_step x c)))"

lemma rel_run:
  "ex_rel s c \<Longrightarrow> run_fits xs c \<Longrightarrow>
     \<exists>s'. ex_run xs s = Some (fst (chain_run xs c), s') \<and> ex_rel s' (snd (chain_run xs c))"
proof (induction xs arbitrary: s c)
  case (Cons x xs)
  then obtain s1 where s1: "ex_step x s = Some (fst (chain_step x c), s1)"
    "ex_rel s1 (snd (chain_step x c))"
    using rel_step[of s c x] by auto
  obtain s2 where "ex_run xs s1 = Some (fst (chain_run xs (snd (chain_step x c))), s2)"
    "ex_rel s2 (snd (chain_run xs (snd (chain_step x c))))"
    using Cons.IH[OF s1(2)] Cons.prems by auto
  with s1 show ?case by (auto simp: Let_def split: prod.splits)
qed simp



text \<open>
  The excluded throw: with room for exactly the message and not for its newline, the code
  writes the newline to \<open>msg[-1]\<close>.
\<close>

lemma throw_underflow:
  assumes rel: "ex_rel s (Recording ms)" and "take 511 fmt \<noteq> []"
    and "chain_room (Recording ms) = int (length (take 511 fmt))"
  shows "ex_throw fmt s = None"
proof -
  have "err_flag s" "stack_top s = int (length (take 511 fmt))" "length (msg s) = 4096"
    using assms by (auto simp: ex_rel_def)
  then show ?thesis
    using assms(2) by (auto simp: ex_throw_def Let_def arr_set_def arr_write_def bind_eq_None_conv)
qed

lemma chain_run_append:
  "chain_run (xs @ ys) c =
     (let (rs, c1) = chain_run xs c; (rs', c2) = chain_run ys c1 in (rs @ rs', c2))"
  by (induction xs arbitrary: c) (auto simp: Let_def split: prod.splits)

lemma long_throws:
  "k \<le> 7 \<Longrightarrow> length fmt \<ge> 511 \<Longrightarrow> 0 \<notin> set fmt \<Longrightarrow>
     run_fits (Try # replicate k (Throw fmt)) c \<and>
     snd (chain_run (Try # replicate k (Throw fmt)) c) =
       Recording (replicate k (take 511 fmt))"
proof (induction k)
  case (Suc k)
  have rep: "replicate (Suc k) x = replicate k x @ [x]" for x :: 'x
    by (simp add: replicate_append_same)
  have fits: "run_fits (xs @ ys) d \<longleftrightarrow> run_fits xs d \<and> run_fits ys (snd (chain_run xs d))"
    for xs ys d by (induction xs arbitrary: d) (auto simp: Let_def split: prod.splits)
  have len: "length (render (replicate j (take 511 fmt))) = j * 512" for j
    using Suc.prems by (induction j) auto
  have room: "chain_room (Recording (replicate k (take 511 fmt))) = 4095 - int k * 512"
    by (simp add: chain_room_def MSG_SIZE_def len)
  have IH: "run_fits (Try # replicate k (Throw fmt)) c"
    "snd (chain_run (Try # replicate k (Throw fmt)) c) = Recording (replicate k (take 511 fmt))"
    using Suc by auto
  have ne: "take 511 fmt \<noteq> []" using Suc.prems by auto
  have thr: "chain_throw fmt (Recording (replicate k (take 511 fmt))) =
      Recording (take 511 fmt # replicate k (take 511 fmt))"
    using Suc.prems ne by (auto simp: chain_throw_def Let_def room)
  show ?case
    unfolding rep append_Cons[symmetric]
    using IH Suc.prems ne room thr
    by (simp add: fits chain_run_append Let_def del: append_Cons split: prod.splits)
       (auto simp: replicate_append_same)
qed simp

text \<open>
  Eight messages of 511 bytes or more (each is cut to 511) after an \<open>ex_try\<close> overrun
  the buffer: the eighth \<open>ex_throw\<close> writes below \<open>msg\<close>, whatever the state before.
\<close>

theorem ex_throw_underflow:
  assumes "length fmt \<ge> 511" and "0 \<notin> set fmt"
  shows "ex_run (Try # replicate 8 (Throw fmt)) ex_initial = None"
proof -
  let ?xs = "Try # replicate 7 (Throw fmt)"
  have run: "run_fits ?xs Closed"
    "snd (chain_run ?xs Closed) = Recording (replicate 7 (take 511 fmt))"
    using long_throws[of 7 fmt Closed] assms by auto
  then obtain s rs where s: "ex_run ?xs ex_initial = Some (rs, s)"
    "ex_rel s (Recording (replicate 7 (take 511 fmt)))"
    using rel_run[OF rel_initial run(1)] by auto
  have "length (render (replicate j (take 511 fmt))) = j * 512" for j
    using assms by (induction j) auto
  then have "chain_room (Recording (replicate 7 (take 511 fmt))) = 511"
    by (simp add: chain_room_def MSG_SIZE_def)
  then have "ex_throw fmt s = None"
    using assms by (intro throw_underflow[OF s(2)]) auto
  moreover have "ex_run (xs @ [Throw fmt]) t = None"
    if "ex_run xs t = Some (rs', s)" "ex_throw fmt s = None" for xs t rs'
    using that by (induction xs arbitrary: t rs') (auto split: bind_splits prod.splits)
  ultimately have "ex_run (?xs @ [Throw fmt]) ex_initial = None" using s by blast
  then show ?thesis by (simp add: numeral_eq_Suc)
qed

theorem ex_throw_underflow_witness:
  "ex_run (Try # replicate 8 (Throw (replicate 600 65))) ex_initial = None"
  by (rule ex_throw_underflow) simp_all

end
