(* ===== verification/Stl_Vector.thy ===== *)
theory Stl_Vector
  imports Relay_Prelude
begin

text \<open>
  The growable array of \<^verbatim>\<open>src/infra/stl.c\<close> (\<open>Vector\<close>): an allocated element array, the
  number of valid elements and the capacity. A vector pointer is \<open>'a Vector option\<close>
  (\<open>None\<close> is \<open>NULL\<close>); an array slot that was never written is \<open>None\<close>, and reading it has
  no defined result. The interface is the locale \<open>sequence\<close>: under the invariant every
  operation acts on the list of valid elements as its name says, so the components that
  only use this interface model a vector field by that list.
\<close>

section \<open>State and operations\<close>

record 'a Vector =
  elements :: "'a option list"
  vec_size :: int
  capacity :: int

text \<open>
  The doubling loop of \<open>vector_grow\<close> (and of \<open>priority_queue_grow\<close>). Both callers make
  the start value positive first; the guard \<open>0 < temp\<close> says so to the termination proof.
\<close>

function grow_capacity :: "int \<Rightarrow> int \<Rightarrow> int" where
  "grow_capacity min_capacity temp =
     (if min_capacity > temp \<and> 0 < temp then grow_capacity min_capacity (temp * 2) else temp)"
  by pat_completeness auto
termination
  by (relation "measure (\<lambda>(m, t). nat (m - t))") auto

declare grow_capacity.simps [simp del]

definition vector_grow :: "'a Vector \<Rightarrow> int \<Rightarrow> 'a Vector" where
  "vector_grow v min_capacity =
     (if min_capacity \<le> capacity v then v
      else let temp = (if capacity v \<le> 0 then 1 else capacity v);
               temp_capacity = grow_capacity min_capacity temp
           in v\<lparr>elements := elements v @
                  replicate (nat temp_capacity - length (elements v)) None,
                capacity := temp_capacity\<rparr>)"

definition vector_create :: "int \<Rightarrow> 'a Vector option" where
  "vector_create init_capacity =
     (let c = (if init_capacity \<le> 0 then 1 else init_capacity)
      in Some \<lparr>elements = replicate (nat c) None, vec_size = 0, capacity = c\<rparr>)"

fun vector_add :: "'a Vector option \<Rightarrow> 'a \<Rightarrow> 'a Vector option option" where
  "vector_add None x = Some None"
| "vector_add (Some v0) x = do {
     let v = vector_grow v0 (vec_size v0 + 1);
     es \<leftarrow> arr_set (elements v) (vec_size v) (Some x);
     Some (Some (v\<lparr>elements := es, vec_size := vec_size v + 1\<rparr>)) }"

text \<open>The shifting loop of \<open>vector_insert\<close>, from the last element down to \<open>index\<close>.\<close>

function shift_up :: "'a option list \<Rightarrow> int \<Rightarrow> int \<Rightarrow> 'a option list option" where
  "shift_up es i index =
     (if i \<ge> index
      then do { x \<leftarrow> arr_get es i; es' \<leftarrow> arr_set es (i + 1) x; shift_up es' (i - 1) index }
      else Some es)"
  by pat_completeness auto
termination
  by (relation "measure (\<lambda>(es, i, index). nat (i - index + 1))") auto

declare shift_up.simps [simp del]

fun vector_insert :: "'a Vector option \<Rightarrow> 'a \<Rightarrow> int \<Rightarrow> 'a Vector option option" where
  "vector_insert None x index = Some None"
| "vector_insert (Some v0) x index =
     (if index < 0 \<or> index > vec_size v0 then Some (Some v0)
      else do {
        let v = vector_grow v0 (vec_size v0 + 1);
        es1 \<leftarrow> shift_up (elements v) (vec_size v - 1) index;
        es2 \<leftarrow> arr_set es1 index (Some x);
        Some (Some (v\<lparr>elements := es2, vec_size := vec_size v + 1\<rparr>)) })"

text \<open>\<open>memmove\<close> of the elements behind \<open>index\<close> one slot down.\<close>

fun vector_remove :: "'a Vector option \<Rightarrow> int \<Rightarrow> 'a Vector option option" where
  "vector_remove None index = Some None"
| "vector_remove (Some v) index =
     (if index \<ge> vec_size v \<or> index < 0 then Some (Some v)
      else do {
        block \<leftarrow> arr_read (elements v) (index + 1) (nat (vec_size v - index - 1));
        es \<leftarrow> arr_write (elements v) index block;
        Some (Some (v\<lparr>elements := es, vec_size := vec_size v - 1\<rparr>)) })"

fun vector_get :: "'a Vector option \<Rightarrow> int \<Rightarrow> 'a option option" where
  "vector_get None index = Some None"
| "vector_get (Some v) index =
     (if index \<ge> vec_size v \<or> index < 0 then Some None
      else do { slot \<leftarrow> arr_get (elements v) index; x \<leftarrow> slot; Some (Some x) })"

fun vector_size :: "'a Vector option \<Rightarrow> int" where
  "vector_size None = 0"
| "vector_size (Some v) = vec_size v"

text \<open>A write through the pointer a \<open>vector_get\<close> returned: the element itself changes.\<close>

fun vector_put :: "'a Vector option \<Rightarrow> int \<Rightarrow> 'a \<Rightarrow> 'a Vector option option" where
  "vector_put None index x = None"
| "vector_put (Some v) index x = do {
     es \<leftarrow> arr_set (elements v) index (Some x);
     Some (Some (v\<lparr>elements := es\<rparr>)) }"

section \<open>Invariant and abstraction\<close>

text \<open>The element array starts with the valid elements, then come the unused slots.\<close>

definition vec_rep :: "'a Vector \<Rightarrow> 'a list \<Rightarrow> bool" where
  "vec_rep v xs \<longleftrightarrow>
     vec_size v = int (length xs) \<and> 1 \<le> capacity v \<and> vec_size v \<le> capacity v \<and>
     int (length (elements v)) = capacity v \<and>
     (\<exists>rest. elements v = map Some xs @ rest)"

definition vec_inv :: "'a Vector option \<Rightarrow> bool" where
  "vec_inv p \<longleftrightarrow> (\<exists>v xs. p = Some v \<and> vec_rep v xs)"

definition vec_list :: "'a Vector option \<Rightarrow> 'a list" where
  "vec_list p = (case p of None \<Rightarrow> []
     | Some v \<Rightarrow> map the (take (nat (vec_size v)) (elements v)))"

lemma vec_rep_list: "vec_rep v xs \<Longrightarrow> vec_list (Some v) = xs"
  by (auto simp: vec_rep_def vec_list_def comp_def)

lemma vec_invI: "vec_rep v xs \<Longrightarrow> vec_inv (Some v)"
  by (auto simp: vec_inv_def)

lemma vec_invE:
  assumes "vec_inv p"
  obtains v where "p = Some v" "vec_rep v (vec_list p)"
  using assms by (auto simp: vec_inv_def vec_rep_list)

lemma grow_capacity_bounds:
  "0 < t \<Longrightarrow> m \<le> grow_capacity m t \<and> t \<le> grow_capacity m t \<and>
     (t < m \<longrightarrow> grow_capacity m t < 2 * m)"
proof (induction m t rule: grow_capacity.induct)
  case (1 m t)
  show ?case
  proof (cases "t < m")
    case True
    then show ?thesis
      using 1 by (cases "t * 2 < m") (auto simp: grow_capacity.simps[of m t] grow_capacity.simps[of m "t * 2"])
  next
    case False
    then show ?thesis by (simp add: grow_capacity.simps[of m t])
  qed
qed

lemma vector_grow_rep:
  assumes "vec_rep v xs"
  shows "vec_rep (vector_grow v n) xs" "n \<le> capacity (vector_grow v n)"
    "vec_size (vector_grow v n) = vec_size v"
  using assms grow_capacity_bounds[of "capacity v" n]
  by (auto simp: vector_grow_def vec_rep_def Let_def)

lemma vector_create_rep: "\<exists>v. vector_create n = Some v \<and> vec_rep v []"
  by (auto simp: vector_create_def vec_rep_def Let_def)

lemma set_first_unused:
  "length rest \<noteq> 0 \<Longrightarrow> (map Some xs @ rest)[length xs := Some x] = map Some (xs @ [x]) @ tl rest"
  by (cases rest) (simp_all add: list_update_append)

lemma vector_add_rep:
  assumes "vec_rep v xs"
  shows "\<exists>v'. vector_add (Some v) x = Some (Some v') \<and> vec_rep v' (xs @ [x])"
proof -
  let ?v = "vector_grow v (vec_size v + 1)"
  note g = vector_grow_rep[OF assms, of "vec_size v + 1"]
  from g(1) obtain rest where es: "elements ?v = map Some xs @ rest" by (auto simp: vec_rep_def)
  have cap: "int (length (elements ?v)) = capacity ?v" "vec_size ?v = int (length xs)"
    using g(1) by (auto simp: vec_rep_def)
  have c1: "1 \<le> capacity ?v" "vec_size ?v + 1 \<le> capacity ?v"
    using g by (auto simp: vec_rep_def)
  then have ne: "length rest \<noteq> 0" using cap unfolding es by (cases rest) auto
  let ?v' = "?v\<lparr>elements := map Some (xs @ [x]) @ tl rest, vec_size := vec_size ?v + 1\<rparr>"
  have "arr_set (elements ?v) (vec_size ?v) (Some x) = Some (map Some (xs @ [x]) @ tl rest)"
    using ne es cap(2) set_first_unused[OF ne, of xs x] unfolding arr_set_def es by simp
  then have "vector_add (Some v) x = Some (Some ?v')" by (simp add: Let_def)
  moreover have "vec_rep ?v' (xs @ [x])"
    using cap(2) c1 es cap(1) unfolding vec_rep_def es by (auto simp: Suc_le_eq)
  ultimately show ?thesis by blast
qed

lemma shift_up_list:
  "shift_up (as @ bs @ y # rest) (int (length as + length bs) - 1) (int (length as)) =
     Some (as @ (if bs = [] then y else hd bs) # bs @ rest)"
proof (induction bs arbitrary: y rest rule: rev_induct)
  case Nil
  then show ?case by (simp add: shift_up.simps)
next
  case (snoc b bs)
  let ?i = "int (length as + length bs)"
  have g: "arr_get (as @ bs @ b # y # rest) ?i = Some b"
    using arr_get_append[of "as @ bs" b "y # rest"] by simp
  have w: "arr_set (as @ bs @ b # y # rest) (?i + 1) b = Some (as @ bs @ b # b # rest)"
    by (simp add: arr_set_def list_update_append nat_add_distrib)
  show ?case
    using snoc.IH[of b "b # rest"] g w
    by (subst shift_up.simps) (auto simp: hd_append)
qed

lemma vector_insert_rep:
  assumes "vec_rep v xs" "k \<le> length xs"
  shows "\<exists>v'. vector_insert (Some v) x (int k) = Some (Some v') \<and>
    vec_rep v' (take k xs @ x # drop k xs)"
proof -
  let ?v = "vector_grow v (vec_size v + 1)"
  note g = vector_grow_rep[OF assms(1), of "vec_size v + 1"]
  have cap: "int (length (elements ?v)) = capacity ?v" "vec_size ?v = int (length xs)"
    using g(1) by (auto simp: vec_rep_def)
  from g(1) obtain rest where es: "elements ?v = map Some xs @ rest" by (auto simp: vec_rep_def)
  with cap g have "rest \<noteq> []" by auto
  then obtain y rest' where rest: "rest = y # rest'" by (cases rest) auto
  let ?as = "map Some (take k xs)" and ?bs = "map Some (drop k xs)"
  have split: "elements ?v = ?as @ ?bs @ y # rest'"
    by (simp add: es rest flip: map_append)
  have lens: "length ?as = k" "int (length ?as + length ?bs) = int (length xs)"
    using assms(2) by auto
  have sh: "shift_up (elements ?v) (vec_size ?v - 1) (int k) =
      Some (?as @ (if ?bs = [] then y else hd ?bs) # ?bs @ rest')"
    using shift_up_list[of ?as ?bs y rest'] lens cap by (simp add: split)
  have st: "arr_set (?as @ z # ?bs @ rest') (int k) (Some x) =
      Some (map Some (take k xs @ x # drop k xs) @ rest')" for z
    using lens(1) by (simp add: arr_set_def list_update_append)
  let ?v' = "?v\<lparr>elements := map Some (take k xs @ x # drop k xs) @ rest',
    vec_size := vec_size ?v + 1\<rparr>"
  have "vector_insert (Some v) x (int k) = Some (Some ?v')"
    using sh st assms by (simp add: Let_def vec_rep_def)
  moreover have "vec_rep ?v' (take k xs @ x # drop k xs)"
    using g cap es rest assms(2) unfolding vec_rep_def by auto
  ultimately show ?thesis by blast
qed

lemma vector_remove_rep:
  assumes "vec_rep v xs" "k < length xs"
  shows "\<exists>v'. vector_remove (Some v) (int k) = Some (Some v') \<and>
    vec_rep v' (take k xs @ drop (Suc k) xs)"
proof -
  from assms obtain rest where es: "elements v = map Some xs @ rest"
    and sz: "vec_size v = int (length xs)" by (auto simp: vec_rep_def)
  let ?as = "map Some (take k xs)" and ?bs = "map Some (drop (Suc k) xs)"
  have split: "elements v = ?as @ Some (xs ! k) # ?bs @ rest"
    using assms(2) by (simp add: es id_take_nth_drop[symmetric] flip: map_append list.map(2) append_assoc)
  have la: "length ?as = k" using assms(2) by simp
  have rd: "arr_read (elements v) (int k + 1) (nat (vec_size v - int k - 1)) = Some ?bs"
    using arr_read_append[of "?as @ [Some (xs ! k)]" ?bs rest] assms(2) la
    by (simp add: split sz add.commute nat_diff_distrib')
  define last_part where "last_part = drop (length ?bs) (Some (xs ! k) # ?bs)"
  have wr: "arr_write (elements v) (int k) ?bs = Some (?as @ ?bs @ last_part @ rest)"
  proof -
    have "drop (length ?bs) ((Some (xs ! k) # ?bs) @ rest) = last_part @ rest"
      by (simp only: drop_append last_part_def) simp
    then show ?thesis using assms(2) la by (simp add: split arr_write_def)
  qed
  let ?v' = "v\<lparr>elements := ?as @ ?bs @ last_part @ rest, vec_size := vec_size v - 1\<rparr>"
  have "vector_remove (Some v) (int k) = Some (Some ?v')"
    using rd wr assms(2) sz by simp
  moreover have "vec_rep ?v' (take k xs @ drop (Suc k) xs)"
    using assms unfolding vec_rep_def last_part_def by (auto simp: es of_nat_diff)
  ultimately show ?thesis by blast
qed

lemma vector_get_rep:
  "vec_rep v xs \<Longrightarrow> vector_get (Some v) i =
     Some (if 0 \<le> i \<and> i < int (length xs) then Some (xs ! nat i) else None)"
  by (auto simp: vec_rep_def arr_get_def nth_append)

lemma vector_put_rep:
  assumes "vec_rep v xs" "k < length xs"
  shows "\<exists>v'. vector_put (Some v) (int k) x = Some (Some v') \<and> vec_rep v' (xs[k := x])"
  using assms
  by (auto simp: vec_rep_def arr_set_def list_update_append map_update)

section \<open>Interface\<close>

locale sequence =
  fixes inv :: "'s \<Rightarrow> bool"
    and seq :: "'s \<Rightarrow> 'a list"
    and create :: "int \<Rightarrow> 's"
    and add :: "'s \<Rightarrow> 'a \<Rightarrow> 's option"
    and get :: "'s \<Rightarrow> int \<Rightarrow> 'a option option"
    and put :: "'s \<Rightarrow> int \<Rightarrow> 'a \<Rightarrow> 's option"
    and count :: "'s \<Rightarrow> int"
  assumes create_law: "inv (create n) \<and> seq (create n) = []"
    and add_law: "inv s \<Longrightarrow> \<exists>s'. add s x = Some s' \<and> inv s' \<and> seq s' = seq s @ [x]"
    and get_law: "inv s \<Longrightarrow> get s i =
      Some (if 0 \<le> i \<and> i < int (length (seq s)) then Some (seq s ! nat i) else None)"
    and put_law: "inv s \<Longrightarrow> 0 \<le> i \<Longrightarrow> i < int (length (seq s)) \<Longrightarrow>
      \<exists>s'. put s i x = Some s' \<and> inv s' \<and> seq s' = (seq s)[nat i := x]"
    and count_law: "inv s \<Longrightarrow> count s = int (length (seq s))"

text \<open>
  The loop \<open>for (i = 0; i < n; i++) add(dst, f(get(src, i)))\<close> that the sources write for
  every deep copy of a vector, over the operations it calls.
\<close>

fun copy_loop :: "('s \<Rightarrow> int \<Rightarrow> 'a option option) \<Rightarrow> ('t \<Rightarrow> 'b \<Rightarrow> 't option) \<Rightarrow> ('a \<Rightarrow> 'b)
    \<Rightarrow> nat \<Rightarrow> nat \<Rightarrow> 's \<Rightarrow> 't \<Rightarrow> 't option" where
  "copy_loop get add f i 0 src dst = Some dst"
| "copy_loop get add f i (Suc n) src dst = do {
     p \<leftarrow> get src (int i);
     x \<leftarrow> p;
     dst' \<leftarrow> add dst (f x);
     copy_loop get add f (Suc i) n src dst' }"

context sequence begin

lemma fill_law:
  assumes "inv s"
  shows "\<exists>s'. foldl (\<lambda>r x. Option.bind r (\<lambda>t. add t x)) (Some s) xs = Some s' \<and> inv s' \<and>
    seq s' = seq s @ xs"
  using assms
proof (induction xs arbitrary: s)
  case (Cons x xs)
  obtain s1 where s1: "add s x = Some s1" "inv s1" "seq s1 = seq s @ [x]"
    using add_law[OF Cons.prems] by blast
  from Cons.IH[OF s1(2)] s1 show ?case by auto
qed simp

lemma copy_loop_law:
  assumes "inv src" "inv dst" "i + n \<le> length (seq src)"
  shows "\<exists>dst'. copy_loop get add f i n src dst = Some dst' \<and> inv dst' \<and>
    seq dst' = seq dst @ map f (take n (drop i (seq src)))"
  using assms
proof (induction n arbitrary: i dst)
  case (Suc n)
  obtain d where d: "add dst (f (seq src ! i)) = Some d" "inv d"
    "seq d = seq dst @ [f (seq src ! i)]"
    using add_law[OF Suc.prems(2)] by blast
  have "take (Suc n) (drop i (seq src)) = seq src ! i # take n (drop (Suc i) (seq src))"
    using Suc.prems(3) by (simp flip: Cons_nth_drop_Suc)
  with Suc.IH[OF Suc.prems(1) d(2), of "Suc i"] d Suc.prems show ?case
    by (auto simp: get_law)
qed simp

text \<open>A deep copy of a whole vector has the images of its elements, in order.\<close>

lemma clone_law:
  assumes "inv src"
  shows "\<exists>dst'. copy_loop get add f 0 (nat (count src)) src (create n) = Some dst' \<and>
    inv dst' \<and> seq dst' = map f (seq src)"
  using copy_loop_law[OF assms conjunct1[OF create_law[of n]], of 0 "length (seq src)" f]
  by (auto simp: count_law[OF assms] create_law)

end

interpretation vec: sequence vec_inv vec_list vector_create vector_add vector_get vector_put vector_size
proof unfold_locales
  fix n :: int and s :: "'a Vector option" and x :: 'a and i :: int
  show "vec_inv (vector_create n :: 'a Vector option) \<and> vec_list (vector_create n :: 'a Vector option) = []"
    using vector_create_rep[of n] by (metis vec_invI vec_rep_list)
  assume "vec_inv s"
  then obtain v where v: "s = Some v" "vec_rep v (vec_list s)" by (rule vec_invE)
  show "\<exists>s'. vector_add s x = Some s' \<and> vec_inv s' \<and> vec_list s' = vec_list s @ [x]"
    using vector_add_rep[OF v(2), of x] v(1) by (metis vec_invI vec_rep_list)
  show "vector_get s i =
      Some (if 0 \<le> i \<and> i < int (length (vec_list s)) then Some (vec_list s ! nat i) else None)"
    using vector_get_rep[OF v(2), of i] v(1) by simp
  show "vector_size s = int (length (vec_list s))"
    using v by (auto simp: vec_rep_def)
  assume "0 \<le> i" "i < int (length (vec_list s))"
  then show "\<exists>s'. vector_put s i x = Some s' \<and> vec_inv s' \<and> vec_list s' = (vec_list s)[nat i := x]"
    using vector_put_rep[OF v(2), of "nat i" x] v(1)
    by (metis nat_less_iff int_nat_eq vec_invI vec_rep_list)
qed

lemmas vector_laws [container_laws] = vec.get_law vec.count_law

section \<open>Properties\<close>

text \<open>
  Under the invariant, \<open>vector_add\<close>, \<open>vector_insert\<close> (at any index from 0 to the
  size) and \<open>vector_remove\<close> (at any valid index) return, keep the invariant, and append,
  insert or delete exactly that element of the list of valid elements.
\<close>

theorem vector_ops_correct:
  assumes "vec_inv p"
  shows "(\<exists>q. vector_add p x = Some q \<and> vec_inv q \<and> vec_list q = vec_list p @ [x]) \<and>
    (k \<le> length (vec_list p) \<longrightarrow>
      (\<exists>q. vector_insert p x (int k) = Some q \<and> vec_inv q \<and>
        vec_list q = take k (vec_list p) @ x # drop k (vec_list p))) \<and>
    (k < length (vec_list p) \<longrightarrow>
      (\<exists>q. vector_remove p (int k) = Some q \<and> vec_inv q \<and>
        vec_list q = take k (vec_list p) @ drop (Suc k) (vec_list p)))"
proof -
  from assms obtain v where v: "p = Some v" "vec_rep v (vec_list p)" by (rule vec_invE)
  have abs: "\<exists>q. f = Some q \<and> vec_inv q \<and> vec_list q = ys"
    if "\<exists>w. f = Some (Some w) \<and> vec_rep w ys" for f and ys :: "'a list"
    using that vec_invI vec_rep_list by blast
  show ?thesis
    unfolding v(1) using vector_add_rep[OF v(2), of x] vector_insert_rep[OF v(2), of k x]
      vector_remove_rep[OF v(2), of k]
    by (intro conjI impI; intro abs) (auto simp: v(1))
qed

theorem vector_ops_correct_witness:
  "\<exists>q. vector_insert (vector_create 0) (7 :: nat) 0 = Some q \<and> vec_inv q \<and> vec_list q = [7]"
proof -
  have "vec_inv (vector_create 0 :: nat Vector option)"
    "vec_list (vector_create 0 :: nat Vector option) = []"
    using vec.create_law[of 0] by auto
  with vector_ops_correct[OF this(1), where k = 0 and x = 7] show ?thesis by simp
qed

text \<open>
  Growth stays below twice the requested size, so a vector whose size is below
  \<open>2^30\<close> never overflows the C \<open>int\<close> that holds its capacity.
\<close>

theorem vector_grow_bounds:
  assumes "vec_rep v xs" and "capacity v < n" and "n \<le> 2 ^ 30"
  shows "n \<le> capacity (vector_grow v n) \<and> capacity (vector_grow v n) < 2 ^ 31 \<and>
    vec_list (Some (vector_grow v n)) = xs"
proof -
  have "1 \<le> capacity v" using assms(1) by (simp add: vec_rep_def)
  then have "n \<le> capacity (vector_grow v n) \<and> capacity (vector_grow v n) < 2 * n"
    using grow_capacity_bounds[of "capacity v" n] assms(2) by (auto simp: vector_grow_def Let_def)
  moreover have "vec_list (Some (vector_grow v n)) = xs"
    by (rule vec_rep_list) (rule vector_grow_rep[OF assms(1)])
  ultimately show ?thesis using assms(3) by simp
qed

theorem vector_grow_bounds_witness:
  "(5::int) \<le> capacity (vector_grow (the (vector_create 2 :: nat Vector option)) 5) \<and>
   capacity (vector_grow (the (vector_create 2 :: nat Vector option)) 5) < 2 ^ 31 \<and>
   vec_list (Some (vector_grow (the (vector_create 2 :: nat Vector option)) 5)) = []"
  by (rule vector_grow_bounds) (simp_all add: vector_create_def vec_rep_def)

end
