(* ===== verification/Stl_LinkedList.thy ===== *)
theory Stl_LinkedList
  imports Relay_Prelude
begin

text \<open>
  The doubly linked list of \<^verbatim>\<open>src/infra/stl.c\<close> (\<open>LinkedList\<close>), at the level of its
  pointers: every list owns a store \<open>nodes\<close> of nodes by address (a freed address maps to
  \<open>None\<close>, so that a dereference of it has no result), \<open>next_addr\<close> is the next address
  \<open>malloc\<close> hands out. A list pointer is \<open>'a LinkedList option\<close>. The representation
  relation \<open>lrep l as\<close> names the addresses of the nodes in order; \<open>lseq\<close> is the sequence
  of their data.
\<close>

section \<open>State and operations\<close>

record 'a LinkedNode =
  node_data :: 'a
  node_prev :: "addr option"
  node_next :: "addr option"

record 'a LinkedList =
  nodes :: "addr \<rightharpoonup> 'a LinkedNode"
  next_addr :: addr
  list_head :: "addr option"
  list_tail :: "addr option"
  list_size :: int

definition linked_list_create :: "'a LinkedList option" where
  "linked_list_create =
     Some \<lparr>nodes = Map.empty, next_addr = 0, list_head = None, list_tail = None, list_size = 0\<rparr>"

text \<open>The assignments \<open>a->prev = p\<close> and \<open>a->next = n\<close>.\<close>

definition set_prev :: "addr \<Rightarrow> addr option \<Rightarrow> 'a LinkedList \<Rightarrow> 'a LinkedList option" where
  "set_prev a p l = do {
     nd \<leftarrow> nodes l a;
     Some (l\<lparr>nodes := (nodes l)(a \<mapsto> nd\<lparr>node_prev := p\<rparr>)\<rparr>) }"

definition set_next :: "addr \<Rightarrow> addr option \<Rightarrow> 'a LinkedList \<Rightarrow> 'a LinkedList option" where
  "set_next a n l = do {
     nd \<leftarrow> nodes l a;
     Some (l\<lparr>nodes := (nodes l)(a \<mapsto> nd\<lparr>node_next := n\<rparr>)\<rparr>) }"

definition linked_node_create :: "'a \<Rightarrow> 'a LinkedList \<Rightarrow> addr \<times> 'a LinkedList" where
  "linked_node_create x l =
     (next_addr l,
      l\<lparr>nodes := (nodes l)(next_addr l \<mapsto> \<lparr>node_data = x, node_prev = None, node_next = None\<rparr>),
        next_addr := next_addr l + 1\<rparr>)"

fun linked_list_addFirst :: "'a LinkedList option \<Rightarrow> 'a \<Rightarrow> 'a LinkedList option option" where
  "linked_list_addFirst None x = Some None"
| "linked_list_addFirst (Some l0) x =
     (case linked_node_create x l0 of (a, l1) \<Rightarrow> do {
        l2 \<leftarrow> set_next a (list_head l1) l1;
        l3 \<leftarrow> (case list_head l2 of
                 Some h \<Rightarrow> set_prev h (Some a) l2
               | None \<Rightarrow> Some (l2\<lparr>list_tail := Some a\<rparr>));
        Some (Some (l3\<lparr>list_head := Some a, list_size := list_size l3 + 1\<rparr>)) })"

fun linked_list_addLast :: "'a LinkedList option \<Rightarrow> 'a \<Rightarrow> 'a LinkedList option option" where
  "linked_list_addLast None x = Some None"
| "linked_list_addLast (Some l0) x =
     (case linked_node_create x l0 of (a, l1) \<Rightarrow> do {
        l2 \<leftarrow> set_prev a (list_tail l1) l1;
        l3 \<leftarrow> (case list_tail l2 of
                 Some t \<Rightarrow> set_next t (Some a) l2
               | None \<Rightarrow> Some (l2\<lparr>list_head := Some a\<rparr>));
        Some (Some (l3\<lparr>list_tail := Some a, list_size := list_size l3 + 1\<rparr>)) })"

text \<open>
  Unlinking one node and freeing it: the body of the loop of \<open>linked_list_remove\<close>, and,
  written out again in the source, the end of \<open>hash_map_remove\<close>.
\<close>

definition unlink_node :: "addr \<Rightarrow> 'a LinkedList \<Rightarrow> 'a LinkedList option" where
  "unlink_node a l0 = do {
     nd \<leftarrow> nodes l0 a;
     l1 \<leftarrow> (case node_prev nd of
              Some p \<Rightarrow> set_next p (node_next nd) l0
            | None \<Rightarrow> Some (l0\<lparr>list_head := node_next nd\<rparr>));
     l2 \<leftarrow> (case node_next nd of
              Some n \<Rightarrow> set_prev n (node_prev nd) l1
            | None \<Rightarrow> Some (l1\<lparr>list_tail := node_prev nd\<rparr>));
     Some (l2\<lparr>nodes := (nodes l2)(a := None), list_size := list_size l2 - 1\<rparr>) }"

partial_function (option) remove_loop ::
    "('a \<Rightarrow> 'a \<Rightarrow> int) \<Rightarrow> 'a \<Rightarrow> addr option \<Rightarrow> 'a LinkedList \<Rightarrow> 'a LinkedList option" where
  "remove_loop cmp x node l =
     (case node of
        None \<Rightarrow> Some l
      | Some a \<Rightarrow> do {
          nd \<leftarrow> nodes l a;
          l' \<leftarrow> (if cmp (node_data nd) x = 0 then unlink_node a l else Some l);
          remove_loop cmp x (node_next nd) l' })"

definition linked_list_remove ::
    "'a LinkedList option \<Rightarrow> 'a \<Rightarrow> ('a \<Rightarrow> 'a \<Rightarrow> int) option \<Rightarrow> 'a LinkedList option option" where
  "linked_list_remove list x comparator =
     (case (list, comparator) of
        (Some l, Some cmp) \<Rightarrow> map_option Some (remove_loop cmp x (list_head l) l)
      | _ \<Rightarrow> Some list)"

fun linked_list_is_empty :: "'a LinkedList option \<Rightarrow> bool" where
  "linked_list_is_empty None = True"
| "linked_list_is_empty (Some l) = (list_size l = 0)"

text \<open>
  The read-only traversal \<open>for (node = head; node; node = node->next) consumer(node->data)\<close>,
  with the consumer's effect on a state \<open>s\<close>.
\<close>

partial_function (option) node_loop ::
    "('a \<Rightarrow> 's \<Rightarrow> 's option) \<Rightarrow> 'a LinkedList \<Rightarrow> addr option \<Rightarrow> 's \<Rightarrow> 's option" where
  "node_loop consumer l node s =
     (case node of
        None \<Rightarrow> Some s
      | Some a \<Rightarrow> do {
          nd \<leftarrow> nodes l a;
          s' \<leftarrow> consumer (node_data nd) s;
          node_loop consumer l (node_next nd) s' })"

definition linked_list_foreach ::
    "'a LinkedList option \<Rightarrow> ('a \<Rightarrow> 's \<Rightarrow> 's option) option \<Rightarrow> 's \<Rightarrow> 's option" where
  "linked_list_foreach list consumer s =
     (case (list, consumer) of
        (Some l, Some f) \<Rightarrow> node_loop f l (list_head l) s
      | _ \<Rightarrow> Some s)"

partial_function (option) clear_loop :: "addr option \<Rightarrow> 'a LinkedList \<Rightarrow> 'a LinkedList option" where
  "clear_loop node l =
     (case node of
        None \<Rightarrow> Some l
      | Some a \<Rightarrow> do {
          nd \<leftarrow> nodes l a;
          clear_loop (node_next nd) (l\<lparr>nodes := (nodes l)(a := None)\<rparr>) })"

fun linked_list_clear :: "'a LinkedList option \<Rightarrow> 'a LinkedList option option" where
  "linked_list_clear None = Some None"
| "linked_list_clear (Some l0) = do {
     l \<leftarrow> clear_loop (list_head l0) l0;
     Some (Some (l\<lparr>list_head := None, list_tail := None, list_size := 0\<rparr>)) }"

text \<open>\<open>linked_list_free\<close> frees the header as well; the result is the memory of nodes that is left.\<close>

fun linked_list_free :: "'a LinkedList option \<Rightarrow> (addr \<rightharpoonup> 'a LinkedNode) option" where
  "linked_list_free None = Some Map.empty"
| "linked_list_free (Some l0) = do {
     p \<leftarrow> linked_list_clear (Some l0);
     l \<leftarrow> p;
     Some (nodes l) }"

section \<open>Representation\<close>

definition pv_of :: "(addr \<rightharpoonup> 'a LinkedNode) \<Rightarrow> addr \<Rightarrow> addr option" where
  "pv_of st a = Option.bind (st a) node_prev"

definition nx_of :: "(addr \<rightharpoonup> 'a LinkedNode) \<Rightarrow> addr \<Rightarrow> addr option" where
  "nx_of st a = Option.bind (st a) node_next"

definition ndata :: "'a LinkedList \<Rightarrow> addr \<Rightarrow> 'a" where
  "ndata l a = node_data (the (nodes l a))"

definition lrep :: "'a LinkedList \<Rightarrow> addr list \<Rightarrow> bool" where
  "lrep l as \<longleftrightarrow>
     distinct as \<and> (\<forall>a \<in> set as. a < next_addr l) \<and> dom (nodes l) = set as \<and>
     dchain (pv_of (nodes l)) (nx_of (nodes l)) None as None \<and>
     list_head l = first_or as None \<and> list_tail l = last_or None as \<and>
     list_size l = int (length as)"

text \<open>The list read along its \<open>next\<close> pointers; \<open>next_addr\<close> bounds its length.\<close>

fun walk :: "(addr \<rightharpoonup> 'a LinkedNode) \<Rightarrow> nat \<Rightarrow> addr option \<Rightarrow> addr list" where
  "walk st (Suc n) (Some a) =
     (case st a of None \<Rightarrow> [] | Some nd \<Rightarrow> a # walk st n (node_next nd))"
| "walk st _ _ = []"

definition laddrs :: "'a LinkedList \<Rightarrow> addr list" where
  "laddrs l = walk (nodes l) (next_addr l) (list_head l)"

definition lseq :: "'a LinkedList \<Rightarrow> 'a list" where
  "lseq l = map (ndata l) (laddrs l)"

definition linv :: "'a LinkedList \<Rightarrow> bool" where
  "linv l \<longleftrightarrow> lrep l (laddrs l)"

lemma pv_nx_upd [simp, chain_simps]:
  "pv_of (st(a \<mapsto> nd)) = (pv_of st)(a := node_prev nd)"
  "nx_of (st(a \<mapsto> nd)) = (nx_of st)(a := node_next nd)"
  "pv_of (st(a := None)) = (pv_of st)(a := None)"
  "nx_of (st(a := None)) = (nx_of st)(a := None)"
  by (auto simp: pv_of_def nx_of_def)

lemma lrep_node: "lrep l as \<Longrightarrow> a \<in> set as \<Longrightarrow> \<exists>nd. nodes l a = Some nd"
  by (auto simp: lrep_def)

lemma walk_chain:
  "dchain (pv_of st) (nx_of st) p as None \<Longrightarrow> set as \<subseteq> dom st \<Longrightarrow> length as \<le> n \<Longrightarrow>
     walk st n (first_or as None) = as"
proof (induction as arbitrary: p n)
  case (Cons a as)
  then obtain m nd where "n = Suc m" "st a = Some nd" by (cases n) auto
  with Cons show ?case by (auto simp: nx_of_def)
qed (cases n; simp)

lemma lrep_laddrs:
  assumes "lrep l as"
  shows "laddrs l = as"
proof -
  have "length as = card (set as)" using assms by (simp add: lrep_def distinct_card)
  also have "\<dots> \<le> card {..<next_addr l}"
    using assms by (intro card_mono) (auto simp: lrep_def)
  finally show ?thesis
    using assms walk_chain[of "nodes l" None as "next_addr l"] by (simp add: lrep_def laddrs_def)
qed

lemma lrep_linv: "lrep l as \<Longrightarrow> linv l"
  by (simp add: linv_def lrep_laddrs)

lemma lrep_lseq: "lrep l as \<Longrightarrow> lseq l = map (ndata l) as"
  by (simp add: lseq_def lrep_laddrs)

lemma create_rep: "\<exists>l. linked_list_create = Some l \<and> lrep l []"
  by (auto simp: linked_list_create_def lrep_def)

lemma map_ndata_cong:
  "(\<And>a. a \<in> set as \<Longrightarrow> map_option node_data (nodes l' a) = map_option node_data (nodes l a)) \<Longrightarrow>
     map (ndata l') as = map (ndata l) as"
proof (rule map_cong[OF refl])
  fix a
  assume "\<And>a. a \<in> set as \<Longrightarrow>
      map_option node_data (nodes l' a) = map_option node_data (nodes l a)" "a \<in> set as"
  then have "map_option node_data (nodes l' a) = map_option node_data (nodes l a)" by blast
  then show "ndata l' a = ndata l a" by (cases "nodes l a"; cases "nodes l' a") (auto simp: ndata_def)
qed

lemma addLast_rep:
  assumes "lrep l as"
  shows "\<exists>l' a. linked_list_addLast (Some l) x = Some (Some l') \<and> lrep l' (as @ [a]) \<and>
    map (ndata l') (as @ [a]) = map (ndata l) as @ [x]"
proof (cases as rule: rev_cases)
  case Nil
  with assms show ?thesis
    by (auto simp: linked_node_create_def set_prev_def lrep_def ndata_def)
next
  case (snoc bs t)
  let ?a = "next_addr l"
  from assms snoc obtain nd where nd: "nodes l t = Some nd" by (auto simp: lrep_def)
  have ne: "t \<noteq> ?a" "?a \<notin> set bs" "t \<notin> set bs" "list_tail l = Some t"
    using assms snoc by (auto simp: lrep_def)
  let ?l' = "l\<lparr>nodes := (nodes l)(?a \<mapsto> \<lparr>node_data = x, node_prev = Some t, node_next = None\<rparr>,
      t \<mapsto> nd\<lparr>node_next := Some ?a\<rparr>),
    next_addr := ?a + 1, list_tail := Some ?a, list_size := list_size l + 1\<rparr>"
  have eq: "linked_list_addLast (Some l) x = Some (Some ?l')"
    using ne nd by (simp add: linked_node_create_def set_prev_def set_next_def)
  have "node_prev nd = last_or None bs"
    using assms nd snoc by (auto simp: lrep_def dchain_append pv_of_def)
  then have "lrep ?l' (as @ [?a])"
    using assms ne snoc by (auto simp: lrep_def dchain_append less_Suc_eq)
  moreover have "map (ndata ?l') as = map (ndata l) as"
    using ne nd snoc by (intro map_ndata_cong) auto
  moreover have "ndata ?l' ?a = x" using ne by (simp add: ndata_def)
  ultimately show ?thesis using eq by auto
qed

lemma addFirst_rep:
  assumes "lrep l as"
  shows "\<exists>l' a. linked_list_addFirst (Some l) x = Some (Some l') \<and> lrep l' (a # as) \<and>
    map (ndata l') (a # as) = x # map (ndata l) as"
proof (cases as)
  case Nil
  with assms show ?thesis
    by (auto simp: linked_node_create_def set_next_def lrep_def ndata_def)
next
  case (Cons h bs)
  let ?a = "next_addr l"
  from assms Cons obtain nd where nd: "nodes l h = Some nd" by (auto simp: lrep_def)
  have ne: "h \<noteq> ?a" "?a \<notin> set bs" "h \<notin> set bs" "list_head l = Some h"
    using assms Cons by (auto simp: lrep_def)
  let ?l' = "l\<lparr>nodes := (nodes l)(?a \<mapsto> \<lparr>node_data = x, node_prev = None, node_next = Some h\<rparr>,
      h \<mapsto> nd\<lparr>node_prev := Some ?a\<rparr>),
    next_addr := ?a + 1, list_head := Some ?a, list_size := list_size l + 1\<rparr>"
  have eq: "linked_list_addFirst (Some l) x = Some (Some ?l')"
    using ne nd by (simp add: linked_node_create_def set_prev_def set_next_def)
  have "node_next nd = first_or bs None"
    using assms nd Cons by (auto simp: lrep_def nx_of_def)
  then have "lrep ?l' (?a # as)"
    using assms ne Cons by (auto simp: lrep_def less_Suc_eq)
  moreover have "map (ndata ?l') as = map (ndata l) as"
    using ne nd Cons by (intro map_ndata_cong) auto
  moreover have "ndata ?l' ?a = x" using ne by (simp add: ndata_def)
  ultimately show ?thesis using eq by auto
qed

lemma lrep_split:
  assumes "lrep l (as @ a # bs)"
  obtains nd where "nodes l a = Some nd" "node_prev nd = last_or None as"
    "node_next nd = first_or bs None" "a \<notin> set as" "a \<notin> set bs"
proof -
  obtain nd where "nodes l a = Some nd" using lrep_node[OF assms, of a] by auto
  then show ?thesis using assms
    by (intro that[of nd]) (auto simp: lrep_def dchain_append pv_of_def nx_of_def)
qed

text \<open>The four cases: the node has a predecessor or not, and a successor or not.\<close>

lemma unlink_rep:
  assumes rep: "lrep l (as @ a # bs)"
  shows "\<exists>l'. unlink_node a l = Some l' \<and> lrep l' (as @ bs) \<and>
    map (ndata l') (as @ bs) = map (ndata l) (as @ bs)"
proof -
  obtain nd where nd: "nodes l a = Some nd" "node_prev nd = last_or None as"
    "node_next nd = first_or bs None" "a \<notin> set as" "a \<notin> set bs"
    using rep by (rule lrep_split)
  show ?thesis
  proof (cases as rule: rev_cases)
    case as: Nil
    show ?thesis
    proof (cases bs)
      case Nil
      then show ?thesis
        using rep nd as by (auto simp: unlink_node_def lrep_def dom_def split: if_splits)
    next
      case (Cons c cs)
      obtain nc where nc: "nodes l c = Some nc" using lrep_node[OF rep, of c] Cons by auto
      let ?l' = "l\<lparr>nodes := (nodes l)(c \<mapsto> nc\<lparr>node_prev := None\<rparr>, a := None),
        list_head := Some c, list_size := list_size l - 1\<rparr>"
      have "unlink_node a l = Some ?l'"
        using nd nc as Cons by (simp add: unlink_node_def set_prev_def)
      moreover have "node_next nc = first_or cs None"
        using rep nc as Cons by (auto simp: lrep_def nx_of_def)
      then have "lrep ?l' (as @ bs)"
        using rep nd as Cons by (auto simp: lrep_def)
      moreover have "map (ndata ?l') (as @ bs) = map (ndata l) (as @ bs)"
        using nc nd by (intro map_ndata_cong) auto
      ultimately show ?thesis by blast
    qed
  next
    case as: (snoc ps p)
    obtain np where np: "nodes l p = Some np" using lrep_node[OF rep, of p] as by auto
    have pp: "node_prev np = last_or None ps" "p \<noteq> a"
      using rep np as nd by (auto simp: lrep_def dchain_append pv_of_def)
    show ?thesis
    proof (cases bs)
      case Nil
      let ?l' = "l\<lparr>nodes := (nodes l)(p \<mapsto> np\<lparr>node_next := None\<rparr>, a := None),
        list_tail := Some p, list_size := list_size l - 1\<rparr>"
      have "unlink_node a l = Some ?l'"
        using nd np as Nil by (simp add: unlink_node_def set_next_def)
      moreover have "lrep ?l' (as @ bs)"
        using rep nd as Nil pp by (auto simp: lrep_def dchain_append)
      moreover have "map (ndata ?l') (as @ bs) = map (ndata l) (as @ bs)"
        using np nd by (intro map_ndata_cong) auto
      ultimately show ?thesis by blast
    next
      case (Cons c cs)
      obtain nc where nc: "nodes l c = Some nc" using lrep_node[OF rep, of c] Cons by auto
      have cc: "node_next nc = first_or cs None" "c \<noteq> p" "c \<noteq> a"
        using rep nc as Cons nd by (auto simp: lrep_def dchain_append nx_of_def)
      let ?l' = "l\<lparr>nodes := (nodes l)(p \<mapsto> np\<lparr>node_next := Some c\<rparr>,
        c \<mapsto> nc\<lparr>node_prev := Some p\<rparr>, a := None), list_size := list_size l - 1\<rparr>"
      have "unlink_node a l = Some ?l'"
        using nd np nc as Cons cc by (simp add: unlink_node_def set_next_def set_prev_def)
      moreover have "lrep ?l' (as @ bs)"
        using rep nd as Cons pp cc by (auto simp: lrep_def dchain_append)
      moreover have "map (ndata ?l') (as @ bs) = map (ndata l) (as @ bs)"
        using np nc nd by (intro map_ndata_cong) auto
      ultimately show ?thesis by blast
    qed
  qed
qed

section \<open>Loops\<close>

fun fold_opt :: "('a \<Rightarrow> 's \<Rightarrow> 's option) \<Rightarrow> 'a list \<Rightarrow> 's \<Rightarrow> 's option" where
  "fold_opt f [] s = Some s"
| "fold_opt f (x # xs) s = do { s' \<leftarrow> f x s; fold_opt f xs s' }"

lemma fold_opt_append:
  "fold_opt f (xs @ ys) s = do { s' \<leftarrow> fold_opt f xs s; fold_opt f ys s' }"
  by (induction xs arbitrary: s) (auto split: bind_splits)

lemma node_loop_chain:
  "dchain (pv_of (nodes l)) (nx_of (nodes l)) p as None \<Longrightarrow> set as \<subseteq> dom (nodes l) \<Longrightarrow>
     node_loop f l (first_or as None) s = fold_opt f (map (ndata l) as) s"
proof (induction as arbitrary: p s)
  case Nil
  then show ?case by (simp add: node_loop.simps)
next
  case (Cons a as)
  then obtain nd where "nodes l a = Some nd" by auto
  then have nd: "nodes l a = Some nd" "ndata l a = node_data nd" "node_next nd = first_or as None"
    using Cons.prems by (auto simp: nx_of_def ndata_def)
  have "node_loop f l (first_or as None) s' = fold_opt f (map (ndata l) as) s'" for s'
    using Cons by auto
  with nd show ?case
    by (subst node_loop.simps) (cases "f (node_data nd) s"; simp)
qed

lemma node_loop_rep: "lrep l as \<Longrightarrow> node_loop f l (list_head l) s = fold_opt f (map (ndata l) as) s"
  by (auto simp: lrep_def intro: node_loop_chain)

lemma remove_loop_rep:
  "lrep l (as @ bs) \<Longrightarrow> \<exists>l' cs. remove_loop cmp x (first_or bs None) l = Some l' \<and>
     lrep l' (as @ cs) \<and>
     map (ndata l') (as @ cs) = map (ndata l) as @ filter (\<lambda>y. cmp y x \<noteq> 0) (map (ndata l) bs)"
proof (induction bs arbitrary: as l)
  case Nil
  then show ?case by (intro exI[of _ l] exI[of _ "[]"]) (simp add: remove_loop.simps)
next
  case (Cons b bs)
  obtain nd where nd: "nodes l b = Some nd" "node_next nd = first_or bs None"
    using Cons.prems by (rule lrep_split)
  show ?case
  proof (cases "cmp (node_data nd) x = 0")
    case True
    obtain l1 where l1: "unlink_node b l = Some l1" "lrep l1 (as @ bs)"
      "map (ndata l1) (as @ bs) = map (ndata l) (as @ bs)"
      using unlink_rep[OF Cons.prems] by blast
    then have same: "map (ndata l1) as = map (ndata l) as" "map (ndata l1) bs = map (ndata l) bs"
      by auto
    obtain l' cs where l': "remove_loop cmp x (first_or bs None) l1 = Some l'"
      "lrep l' (as @ cs)" "map (ndata l') (as @ cs) =
         map (ndata l1) as @ filter (\<lambda>y. cmp y x \<noteq> 0) (map (ndata l1) bs)"
      using Cons.IH[OF l1(2)] by blast
    have "remove_loop cmp x (first_or (b # bs) None) l = Some l'"
      using True nd l1 l' by (subst remove_loop.simps) simp
    moreover have "cmp (ndata l b) x = 0" using True nd by (simp add: ndata_def)
    ultimately show ?thesis
      using l'(2,3) unfolding same by (intro exI[of _ l'] exI[of _ cs]) simp
  next
    case False
    have rep: "lrep l ((as @ [b]) @ bs)" using Cons.prems by simp
    obtain l' cs where l': "remove_loop cmp x (first_or bs None) l = Some l'"
      "lrep l' ((as @ [b]) @ cs)" "map (ndata l') ((as @ [b]) @ cs) =
         map (ndata l) (as @ [b]) @ filter (\<lambda>y. cmp y x \<noteq> 0) (map (ndata l) bs)"
      using Cons.IH[OF rep] by blast
    then have "remove_loop cmp x (first_or (b # bs) None) l = Some l'"
      using False nd by (subst remove_loop.simps) simp
    moreover have "cmp (ndata l b) x \<noteq> 0" using False nd by (simp add: ndata_def)
    ultimately show ?thesis
      using l'(2,3) by (intro exI[of _ l'] exI[of _ "b # cs"]) simp
  qed
qed

lemma clear_loop_rep:
  "dchain (pv_of (nodes l)) (nx_of (nodes l)) p as None \<Longrightarrow> distinct as \<Longrightarrow>
     dom (nodes l) = set as \<Longrightarrow>
     clear_loop (first_or as None) l = Some (l\<lparr>nodes := Map.empty\<rparr>)"
proof (induction as arbitrary: l p)
  case Nil
  then show ?case by (simp add: clear_loop.simps)
next
  case (Cons a as)
  then have "a \<in> dom (nodes l)" by simp
  then obtain nd where nd: "nodes l a = Some nd" by blast
  let ?l = "l\<lparr>nodes := (nodes l)(a := None)\<rparr>"
  have "clear_loop (first_or as None) ?l = Some (?l\<lparr>nodes := Map.empty\<rparr>)"
  proof (rule Cons.IH[of _ "Some a"])
    show "dchain (pv_of (nodes ?l)) (nx_of (nodes ?l)) (Some a) as None"
      using Cons.prems(1,2) by simp
    show "distinct as" using Cons.prems(2) by simp
    have "dom (nodes ?l) = dom (nodes l) - {a}" by simp
    then show "dom (nodes ?l) = set as" using Cons.prems(2,3) by simp
  qed
  with nd Cons.prems show ?case
    by (subst clear_loop.simps) (auto simp: nx_of_def)
qed

section \<open>Properties\<close>

text \<open>
  C29. On a well-formed list (forward and backward pointers agree, \<open>head\<close>, \<open>tail\<close> and
  \<open>size\<close> are right, and exactly the listed nodes are allocated) \<open>linked_list_addFirst\<close>
  and \<open>linked_list_addLast\<close> return, keep the list well-formed and add their element at
  that end; \<open>linked_list_remove\<close> returns and drops exactly the elements the comparator
  equates with its argument, at the head, at the tail and in a row included;
  \<open>linked_list_clear\<close> and \<open>linked_list_free\<close> free every node.
\<close>

theorem linked_list_ops_correct:
  assumes "linv l"
  shows "(\<exists>l'. linked_list_addFirst (Some l) x = Some (Some l') \<and> linv l' \<and> lseq l' = x # lseq l) \<and>
    (\<exists>l'. linked_list_addLast (Some l) x = Some (Some l') \<and> linv l' \<and> lseq l' = lseq l @ [x]) \<and>
    (\<exists>l'. linked_list_remove (Some l) x (Some cmp) = Some (Some l') \<and> linv l' \<and>
       lseq l' = filter (\<lambda>y. cmp y x \<noteq> 0) (lseq l)) \<and>
    (\<exists>l'. linked_list_clear (Some l) = Some (Some l') \<and> linv l' \<and> lseq l' = [] \<and>
       nodes l' = Map.empty) \<and>
    linked_list_free (Some l) = Some Map.empty"
proof -
  from assms have rep: "lrep l (laddrs l)" by (simp add: linv_def)
  have abs: "linv l' \<and> lseq l' = xs" if "lrep l' as \<and> map (ndata l') as = xs" for l' :: "'a LinkedList" and as xs
    using that by (auto simp: lrep_linv lrep_lseq)
  have "\<exists>l'. linked_list_addFirst (Some l) x = Some (Some l') \<and> linv l' \<and> lseq l' = x # lseq l"
    using addFirst_rep[OF rep, of x] abs by (metis lseq_def)
  moreover have "\<exists>l'. linked_list_addLast (Some l) x = Some (Some l') \<and> linv l' \<and> lseq l' = lseq l @ [x]"
    using addLast_rep[OF rep, of x] abs by (metis lseq_def)
  moreover have "\<exists>l'. linked_list_remove (Some l) x (Some cmp) = Some (Some l') \<and> linv l' \<and>
       lseq l' = filter (\<lambda>y. cmp y x \<noteq> 0) (lseq l)"
  proof -
    have h: "list_head l = first_or (laddrs l) None" using rep by (simp add: lrep_def)
    from remove_loop_rep[of l "[]" "laddrs l" cmp x] rep obtain l' cs where
      "remove_loop cmp x (list_head l) l = Some l'" "lrep l' cs \<and> map (ndata l') cs =
         filter (\<lambda>y. cmp y x \<noteq> 0) (lseq l)" by (auto simp: h lseq_def)
    with abs show ?thesis unfolding linked_list_remove_def by fastforce
  qed
  moreover have "\<exists>l'. linked_list_clear (Some l) = Some (Some l') \<and> linv l' \<and> lseq l' = [] \<and>
       nodes l' = Map.empty"
  proof -
    have "clear_loop (list_head l) l = Some (l\<lparr>nodes := Map.empty\<rparr>)"
      using rep clear_loop_rep[of l None "laddrs l"] by (simp add: lrep_def)
    moreover have "lrep (l\<lparr>nodes := Map.empty, list_head := None, list_tail := None, list_size := 0\<rparr>) []"
      by (simp add: lrep_def)
    ultimately show ?thesis using abs[of _ "[]" "[]"] by auto
  qed
  moreover from this have "linked_list_free (Some l) = Some Map.empty" by (auto simp del: linked_list_clear.simps)
  ultimately show ?thesis by blast
qed

theorem linked_list_ops_correct_witness:
  "\<exists>l'. linked_list_addLast linked_list_create (7 :: nat) = Some (Some l') \<and> linv l' \<and> lseq l' = [7]"
proof -
  obtain l where l: "linked_list_create = Some (l :: nat LinkedList)" "lrep l []"
    using create_rep by blast
  then have "linv l" "lseq l = []" by (auto simp: lrep_linv lrep_lseq)
  with linked_list_ops_correct[of l 7] l show ?thesis by simp
qed

end
