(* ===== verification/Stl_HashMap.thy ===== *)
theory Stl_HashMap
  imports Stl_Vector Stl_LinkedList "HOL-Library.Multiset"
begin

text \<open>
  The hash map of \<^verbatim>\<open>src/infra/stl.c\<close>: a \<open>Vector\<close> of buckets, each a \<open>LinkedList\<close> of
  entries, with the hash and comparison functions of \<^verbatim>\<open>include/infra/stl.h\<close>. A map
  pointer is an option. The abstraction is a partial function from keys to values
  (\<open>hm_map\<close>); the interface is the locale \<open>map_impl\<close>. Keys are modelled by the value the
  comparator compares (the characters of a string, an unsigned number), so the memory of
  key copies and the key destructor of \<open>hash_map_remove\<close> do not appear.
\<close>

section \<open>Hash and comparison functions\<close>

text \<open>The C \<open>int\<close> a 32-bit value denotes.\<close>

definition c_int :: "32 word \<Rightarrow> int" where
  "c_int w = sint w"

definition hash_func_uint16 :: "uint64_t \<Rightarrow> int" where
  "hash_func_uint16 key = c_int (ucast key)"

definition hash_func_uint64 :: "uint64_t \<Rightarrow> int" where
  "hash_func_uint64 key =
     (let x0 = key;
          x1 = (x0 XOR drop_bit 30 x0) * 0xbf58476d1ce4e5b9;
          x2 = (x1 XOR drop_bit 27 x1) * 0x94d049bb133111eb;
          x3 = x2 XOR drop_bit 31 x2
      in c_int (ucast x3))"

definition compare_uint :: "uint64_t \<Rightarrow> uint64_t \<Rightarrow> int" where
  "compare_uint a b = (if a > b then 1 else if a = b then 0 else -1)"

text \<open>The accumulator of \<open>hash_func_str\<close>, an \<open>int\<close> that wraps around.\<close>

definition hash_func_str :: "cstr \<Rightarrow> int" where
  "hash_func_str str =
     c_int (foldl (\<lambda>hash c. (push_bit 5 hash + hash) + ucast c) (5381 :: 32 word) str)"

text \<open>
  \<open>strcmp\<close>: 0 for equal strings, otherwise the sign of the comparison of the first bytes
  that differ, a proper prefix being smaller (the standard fixes only the sign).
\<close>

fun strcmp :: "cstr \<Rightarrow> cstr \<Rightarrow> int" where
  "strcmp [] [] = 0"
| "strcmp (a # as) [] = 1"
| "strcmp [] (b # bs) = -1"
| "strcmp (a # as) (b # bs) = (if a = b then strcmp as bs else if a < b then -1 else 1)"

fun compare_cstr :: "cstr option \<Rightarrow> cstr option \<Rightarrow> int" where
  "compare_cstr None None = 0"
| "compare_cstr None (Some b) = -1"
| "compare_cstr (Some a) None = 1"
| "compare_cstr (Some a) (Some b) = strcmp a b"

section \<open>State and operations\<close>

record ('k, 'v) HashMapEntry =
  entry_key :: 'k
  entry_data :: 'v

text \<open>
  \<open>load_factor\<close> is the fraction 3/4 that the constant \<open>0.75f\<close> denotes; the products with
  it are exact in single precision for every table below \<open>2^24\<close> buckets.
\<close>

record ('k, 'v) HashMap =
  buckets :: "('k, 'v) HashMapEntry LinkedList Vector option"
  load_factor :: "int \<times> int"
  hash_function :: "'k \<Rightarrow> int"
  comparator :: "'k \<Rightarrow> 'k \<Rightarrow> int"
  hm_size :: int

definition HASH_MAP_INIT_BUCKETS :: int where
  "HASH_MAP_INIT_BUCKETS = 16"

definition INT32_MIN :: int where
  "INT32_MIN = - (2 ^ 31)"

definition hash_map_bucket_index :: "('k, 'v) HashMap \<Rightarrow> 'k \<Rightarrow> int \<Rightarrow> int option" where
  "hash_map_bucket_index m key bucket_count =
     (let hash0 = hash_function m key;
          hash = (if hash0 = INT32_MIN then 0 else if hash0 < 0 then - hash0 else hash0)
      in if bucket_count = 0 then None else Some (hash mod bucket_count))"

definition hash_map_bucket_at ::
    "('k, 'v) HashMap \<Rightarrow> int \<Rightarrow> ('k, 'v) HashMapEntry LinkedList option option" where
  "hash_map_bucket_at m index = vector_get (buckets m) index"

partial_function (option) find_loop :: "('k \<Rightarrow> 'k \<Rightarrow> int) \<Rightarrow> ('k, 'v) HashMapEntry LinkedList
    \<Rightarrow> 'k \<Rightarrow> addr option \<Rightarrow> addr option option" where
  "find_loop cmp l key node =
     (case node of
        None \<Rightarrow> Some None
      | Some a \<Rightarrow> do {
          nd \<leftarrow> nodes l a;
          if cmp (entry_key (node_data nd)) key = 0 then Some (Some a)
          else find_loop cmp l key (node_next nd) })"

definition hash_map_find_node :: "('k, 'v) HashMap
    \<Rightarrow> ('k, 'v) HashMapEntry LinkedList option \<Rightarrow> 'k \<Rightarrow> addr option option" where
  "hash_map_find_node m bucket key =
     (case bucket of None \<Rightarrow> Some None | Some l \<Rightarrow> find_loop (comparator m) l key (list_head l))"

text \<open>The loop that fills a fresh bucket vector with empty lists.\<close>

fun add_empty_buckets :: "nat \<Rightarrow> ('k, 'v) HashMapEntry LinkedList Vector option
    \<Rightarrow> ('k, 'v) HashMapEntry LinkedList Vector option option" where
  "add_empty_buckets 0 v = Some v"
| "add_empty_buckets (Suc n) v = do {
     bucket \<leftarrow> linked_list_create;
     v' \<leftarrow> vector_add v bucket;
     add_empty_buckets n v' }"

text \<open>\<open>linked_list_addLast(vector_get(new_buckets, index), entry)\<close>.\<close>

definition bucket_append :: "('k, 'v) HashMapEntry \<Rightarrow> int
    \<Rightarrow> ('k, 'v) HashMapEntry LinkedList Vector option
    \<Rightarrow> ('k, 'v) HashMapEntry LinkedList Vector option option" where
  "bucket_append entry index v = do {
     bucket \<leftarrow> vector_get v index;
     bucket' \<leftarrow> linked_list_addLast bucket entry;
     case bucket' of None \<Rightarrow> Some v | Some l \<Rightarrow> vector_put v index l }"

definition rehash_entry :: "('k, 'v) HashMap \<Rightarrow> int \<Rightarrow> ('k, 'v) HashMapEntry
    \<Rightarrow> ('k, 'v) HashMapEntry LinkedList Vector option
    \<Rightarrow> ('k, 'v) HashMapEntry LinkedList Vector option option" where
  "rehash_entry m new_bucket_count entry new_buckets = do {
     new_index \<leftarrow> hash_map_bucket_index m (entry_key entry) new_bucket_count;
     bucket_append entry new_index new_buckets }"

text \<open>The outer loop of \<open>hash_map_resize\<close>, over the old buckets from \<open>i\<close> on.\<close>

fun rehash_buckets :: "('k, 'v) HashMap \<Rightarrow> int \<Rightarrow> nat \<Rightarrow> nat
    \<Rightarrow> ('k, 'v) HashMapEntry LinkedList Vector option
    \<Rightarrow> ('k, 'v) HashMapEntry LinkedList Vector option option" where
  "rehash_buckets m n i 0 new_buckets = Some new_buckets"
| "rehash_buckets m n i (Suc left) new_buckets = do {
     bucket \<leftarrow> vector_get (buckets m) (int i);
     l \<leftarrow> bucket;
     new_buckets' \<leftarrow> node_loop (rehash_entry m n) l (list_head l) new_buckets;
     rehash_buckets m n (Suc i) left new_buckets' }"

definition hash_map_resize :: "('k, 'v) HashMap \<Rightarrow> int \<Rightarrow> (int \<times> ('k, 'v) HashMap) option" where
  "hash_map_resize m new_bucket_count =
     (if new_bucket_count \<le> 0 then Some (0, m)
      else do {
        new_buckets \<leftarrow> add_empty_buckets (nat new_bucket_count) (vector_create new_bucket_count);
        new_buckets' \<leftarrow> rehash_buckets m new_bucket_count 0 (nat (vector_size (buckets m))) new_buckets;
        Some (1, m\<lparr>buckets := new_buckets'\<rparr>) })"

definition hash_map_create :: "('k \<Rightarrow> int) option \<Rightarrow> ('k \<Rightarrow> 'k \<Rightarrow> int) option
    \<Rightarrow> ('k, 'v) HashMap option option" where
  "hash_map_create hf cmp =
     (case (hf, cmp) of
        (Some h, Some c) \<Rightarrow> do {
          bs \<leftarrow> add_empty_buckets (nat HASH_MAP_INIT_BUCKETS) (vector_create HASH_MAP_INIT_BUCKETS);
          Some (Some \<lparr>buckets = bs, load_factor = (3, 4), hash_function = h, comparator = c,
                      hm_size = 0\<rparr>) }
      | _ \<Rightarrow> Some None)"

text \<open>The assignment \<open>entry->data = data\<close> through the node found.\<close>

definition set_entry_data :: "addr \<Rightarrow> 'v \<Rightarrow> ('k, 'v) HashMapEntry LinkedList
    \<Rightarrow> ('k, 'v) HashMapEntry LinkedList option" where
  "set_entry_data a v l = do {
     nd \<leftarrow> nodes l a;
     Some (l\<lparr>nodes := (nodes l)(a \<mapsto> nd\<lparr>node_data := (node_data nd)\<lparr>entry_data := v\<rparr>\<rparr>)\<rparr>) }"

fun hash_map_put :: "('k, 'v) HashMap option \<Rightarrow> 'k \<Rightarrow> 'v
    \<Rightarrow> (int \<times> ('k, 'v) HashMap option) option" where
  "hash_map_put None key v = Some (1, None)"
| "hash_map_put (Some m) key v = do {
     let bucket_count = vector_size (buckets m);
     bucket_index \<leftarrow> hash_map_bucket_index m key bucket_count;
     bucket \<leftarrow> hash_map_bucket_at m bucket_index;
     node \<leftarrow> hash_map_find_node m bucket key;
     case node of
       Some a \<Rightarrow> do {
         l \<leftarrow> bucket;
         l' \<leftarrow> set_entry_data a v l;
         bs \<leftarrow> vector_put (buckets m) bucket_index l';
         Some (1, Some (m\<lparr>buckets := bs\<rparr>)) }
     | None \<Rightarrow> do {
         bs \<leftarrow> bucket_append \<lparr>entry_key = key, entry_data = v\<rparr> bucket_index (buckets m);
         let m' = m\<lparr>buckets := bs, hm_size := hm_size m + 1\<rparr>;
         if hm_size m' * snd (load_factor m') > bucket_count * fst (load_factor m')
         then do { (r, m'') \<leftarrow> hash_map_resize m' (bucket_count * 2); Some (0, Some m'') }
         else Some (0, Some m') } }"

fun hash_map_get :: "('k, 'v) HashMap option \<Rightarrow> 'k \<Rightarrow> (int \<times> 'v option) option" where
  "hash_map_get None key = Some (1, None)"
| "hash_map_get (Some m) key = do {
     let bucket_count = vector_size (buckets m);
     bucket_index \<leftarrow> hash_map_bucket_index m key bucket_count;
     bucket \<leftarrow> hash_map_bucket_at m bucket_index;
     node \<leftarrow> hash_map_find_node m bucket key;
     case node of
       None \<Rightarrow> Some (1, None)
     | Some a \<Rightarrow> do {
         l \<leftarrow> bucket;
         nd \<leftarrow> nodes l a;
         Some (0, Some (entry_data (node_data nd))) } }"

fun hash_map_remove :: "('k, 'v) HashMap option \<Rightarrow> 'k \<Rightarrow> ('k, 'v) HashMap option option" where
  "hash_map_remove None key = Some None"
| "hash_map_remove (Some m) key = do {
     let bucket_count = vector_size (buckets m);
     bucket_index \<leftarrow> hash_map_bucket_index m key bucket_count;
     bucket \<leftarrow> hash_map_bucket_at m bucket_index;
     node \<leftarrow> hash_map_find_node m bucket key;
     case node of
       None \<Rightarrow> Some (Some m)
     | Some a \<Rightarrow> do {
         l \<leftarrow> bucket;
         l' \<leftarrow> unlink_node a l;
         bs \<leftarrow> vector_put (buckets m) bucket_index l';
         Some (Some (m\<lparr>buckets := bs, hm_size := hm_size m - 1\<rparr>)) } }"

text \<open>
  \<open>hash_map_free\<close>: the loop over the buckets frees the entry of every node and then the
  bucket's list. The result is the sequence of entries freed.
\<close>

fun free_buckets :: "('k, 'v) HashMap \<Rightarrow> nat \<Rightarrow> nat \<Rightarrow> ('k, 'v) HashMapEntry list
    \<Rightarrow> ('k, 'v) HashMapEntry list option" where
  "free_buckets m i 0 freed = Some freed"
| "free_buckets m i (Suc left) freed = do {
     bucket \<leftarrow> vector_get (buckets m) (int i);
     l \<leftarrow> bucket;
     freed' \<leftarrow> node_loop (\<lambda>entry fr. Some (fr @ [entry])) l (list_head l) freed;
     l' \<leftarrow> linked_list_clear (Some l);
     free_buckets m (Suc i) left freed' }"

fun hash_map_free :: "('k, 'v) HashMap option \<Rightarrow> ('k, 'v) HashMapEntry list option" where
  "hash_map_free None = Some []"
| "hash_map_free (Some m) = free_buckets m 0 (nat (vector_size (buckets m))) []"

section \<open>Abstraction and invariant\<close>

definition hidx :: "('k \<Rightarrow> int) \<Rightarrow> 'k \<Rightarrow> nat \<Rightarrow> nat" where
  "hidx h k n =
     nat ((if h k = INT32_MIN then 0 else if h k < 0 then - h k else h k) mod int n)"

definition entries_of :: "('k, 'v) HashMapEntry LinkedList list \<Rightarrow> ('k, 'v) HashMapEntry list" where
  "entries_of bs = concat (map lseq bs)"

definition epair :: "('k, 'v) HashMapEntry \<Rightarrow> 'k \<times> 'v" where
  "epair e = (entry_key e, entry_data e)"

definition hm_alist :: "('k, 'v) HashMap \<Rightarrow> ('k \<times> 'v) list" where
  "hm_alist m = map epair (entries_of (vec_list (buckets m)))"

fun hm_map :: "('k, 'v) HashMap option \<Rightarrow> 'k \<Rightarrow> 'v option" where
  "hm_map None = Map.empty"
| "hm_map (Some m) = map_of (hm_alist m)"

text \<open>Every bucket is a well-formed list that holds only keys hashed to it.\<close>

definition buckets_ok :: "('k \<Rightarrow> int) \<Rightarrow> ('k, 'v) HashMapEntry LinkedList list \<Rightarrow> bool" where
  "buckets_ok h bs \<longleftrightarrow>
     (\<forall>i < length bs. linv (bs ! i) \<and>
        (\<forall>e \<in> set (lseq (bs ! i)). hidx h (entry_key e) (length bs) = i))"

definition hm_rep :: "('k, 'v) HashMap \<Rightarrow> bool" where
  "hm_rep m \<longleftrightarrow>
     vec_inv (buckets m) \<and> vec_list (buckets m) \<noteq> [] \<and>
     buckets_ok (hash_function m) (vec_list (buckets m)) \<and>
     distinct (map fst (hm_alist m)) \<and> hm_size m = int (length (hm_alist m)) \<and>
     (\<forall>a b. comparator m a b = 0 \<longleftrightarrow> a = b)"

definition hm_inv :: "('k, 'v) HashMap option \<Rightarrow> bool" where
  "hm_inv p \<longleftrightarrow> (case p of None \<Rightarrow> False | Some m \<Rightarrow> hm_rep m)"

lemma hidx_less: "0 < n \<Longrightarrow> hidx h k n < n"
  by (auto simp: hidx_def Let_def nat_less_iff)

lemma bucket_index_hidx:
  "0 < n \<Longrightarrow> hash_map_bucket_index m k (int n) = Some (int (hidx (hash_function m) k n))"
  by (simp add: hash_map_bucket_index_def hidx_def Let_def)

text \<open>Association lists with distinct keys.\<close>

lemma map_of_mid_update:
  "distinct (map fst (xs @ (k, v) # ys)) \<Longrightarrow>
     map_of (xs @ (k, v') # ys) = (map_of (xs @ (k, v) # ys))(k \<mapsto> v')"
  by (induction xs) (auto simp: fun_upd_twist)

lemma map_of_mid_insert:
  "k \<notin> fst ` set (xs @ ys) \<Longrightarrow>
     map_of (xs @ (k, v) # ys) = (map_of (xs @ ys))(k \<mapsto> v)"
  by (induction xs) (auto simp: fun_upd_twist)

lemma map_of_mid_delete:
  "distinct (map fst (xs @ (k, v) # ys)) \<Longrightarrow>
     map_of (xs @ ys) = (map_of (xs @ (k, v) # ys))(k := None)"
proof (induction xs)
  case Nil
  then have "map_of ys k = None" by (simp add: map_of_eq_None_iff)
  then show ?case by auto
qed (auto simp: fun_upd_twist)

lemma entries_update:
  assumes "i < length bs"
  obtains A C where "\<And>l. entries_of (bs[i := l]) = A @ lseq l @ C"
    "entries_of bs = A @ lseq (bs ! i) @ C"
proof (rule that[of "concat (map lseq (take i bs))" "concat (map lseq (drop (Suc i) bs))"])
  show "entries_of (bs[i := l]) =
      concat (map lseq (take i bs)) @ lseq l @ concat (map lseq (drop (Suc i) bs))" for l
    using assms by (simp add: entries_of_def upd_conv_take_nth_drop)
  have "entries_of bs = concat (map lseq (take i bs @ bs ! i # drop (Suc i) bs))"
    using id_take_nth_drop[OF assms] by (metis entries_of_def)
  then show "entries_of bs =
      concat (map lseq (take i bs)) @ lseq (bs ! i) @ concat (map lseq (drop (Suc i) bs))"
    by simp
qed

section \<open>One bucket\<close>

lemma find_loop_chain:
  "dchain (pv_of (nodes l)) (nx_of (nodes l)) p as None \<Longrightarrow> set as \<subseteq> dom (nodes l) \<Longrightarrow>
     find_loop cmp l k (first_or as None) =
       Some (List.find (\<lambda>a. cmp (entry_key (ndata l a)) k = 0) as)"
proof (induction as arbitrary: p)
  case Nil
  then show ?case by (simp add: find_loop.simps)
next
  case (Cons a as)
  then obtain nd where "nodes l a = Some nd" by auto
  then have nd: "nodes l a = Some nd" "ndata l a = node_data nd" "node_next nd = first_or as None"
    using Cons.prems by (auto simp: nx_of_def ndata_def)
  have "find_loop cmp l k (first_or as None) =
      Some (List.find (\<lambda>a. cmp (entry_key (ndata l a)) k = 0) as)"
    using Cons by auto
  with nd show ?case by (subst find_loop.simps) simp
qed

text \<open>Either the key is absent, or a node holding it splits the list.\<close>

lemma find_node_cases:
  assumes "linv l" "\<forall>a b. comparator m a b = 0 \<longleftrightarrow> a = b"
  obtains (absent) "hash_map_find_node m (Some l) k = Some None" "k \<notin> entry_key ` set (lseq l)"
  | (found) a X Y where "hash_map_find_node m (Some l) k = Some (Some a)"
      "lrep l (X @ a # Y)" "entry_key (ndata l a) = k"
proof -
  have rep: "lrep l (laddrs l)" using assms by (simp add: linv_def)
  then have f: "hash_map_find_node m (Some l) k =
      Some (List.find (\<lambda>a. entry_key (ndata l a) = k) (laddrs l))"
    using find_loop_chain[of l None "laddrs l" "comparator m" k] assms(2)
    by (simp add: hash_map_find_node_def lrep_def)
  show thesis
  proof (cases "List.find (\<lambda>a. entry_key (ndata l a) = k) (laddrs l)")
    case None
    then show thesis using f by (intro absent) (auto simp: find_None_iff lseq_def)
  next
    case (Some a)
    then have "a \<in> set (laddrs l)" "entry_key (ndata l a) = k"
      by (auto simp: find_Some_iff in_set_conv_nth)
    then show thesis using found f Some rep by (metis split_list)
  qed
qed

lemma set_entry_data_rep:
  assumes rep: "lrep l (X @ a # Y)"
  shows "\<exists>l'. set_entry_data a v l = Some l' \<and> linv l' \<and>
    lseq l = map (ndata l) X @ ndata l a # map (ndata l) Y \<and>
    lseq l' = map (ndata l) X @ (ndata l a)\<lparr>entry_data := v\<rparr> # map (ndata l) Y"
proof -
  obtain nd where nd: "nodes l a = Some nd" "a \<notin> set X" "a \<notin> set Y"
    using rep by (rule lrep_split)
  let ?l' = "l\<lparr>nodes := (nodes l)(a \<mapsto> nd\<lparr>node_data := (node_data nd)\<lparr>entry_data := v\<rparr>\<rparr>)\<rparr>"
  have eq: "set_entry_data a v l = Some ?l'" using nd by (simp add: set_entry_data_def)
  have "(pv_of (nodes l))(a := node_prev nd) = pv_of (nodes l)"
    "(nx_of (nodes l))(a := node_next nd) = nx_of (nodes l)"
    using nd by (auto simp: pv_of_def nx_of_def)
  moreover have "a \<in> dom (nodes l)" using nd by auto
  ultimately have rep': "lrep ?l' (X @ a # Y)" using rep by (simp add: lrep_def insert_absorb)
  have "map (ndata ?l') X = map (ndata l) X" "map (ndata ?l') Y = map (ndata l) Y"
    using nd by (auto simp: ndata_def)
  moreover have "ndata ?l' a = (ndata l a)\<lparr>entry_data := v\<rparr>" using nd by (simp add: ndata_def)
  ultimately show ?thesis
    using eq rep' rep lrep_lseq[OF rep] lrep_lseq[OF rep'] by (auto simp: lrep_linv)
qed

lemma unlink_bucket_rep:
  assumes rep: "lrep l (X @ a # Y)"
  shows "\<exists>l'. unlink_node a l = Some l' \<and> linv l' \<and>
    lseq l = map (ndata l) X @ ndata l a # map (ndata l) Y \<and>
    lseq l' = map (ndata l) X @ map (ndata l) Y"
proof -
  obtain l' where l': "unlink_node a l = Some l'" "lrep l' (X @ Y)"
    "map (ndata l') (X @ Y) = map (ndata l) (X @ Y)" using unlink_rep[OF rep] by blast
  then have "lseq l' = map (ndata l) X @ map (ndata l) Y" using lrep_lseq[OF l'(2)] by simp
  then show ?thesis using l' lrep_linv[OF l'(2)] lrep_lseq[OF rep] by simp
qed

lemma append_bucket_rep:
  assumes "linv l"
  shows "\<exists>l'. linked_list_addLast (Some l) e = Some (Some l') \<and> linv l' \<and> lseq l' = lseq l @ [e]"
proof -
  obtain l' a where l': "linked_list_addLast (Some l) e = Some (Some l')"
    "lrep l' (laddrs l @ [a])" "map (ndata l') (laddrs l @ [a]) = map (ndata l) (laddrs l) @ [e]"
    using addLast_rep[of l "laddrs l" e] assms by (auto simp only: linv_def)
  then show ?thesis using lrep_linv[OF l'(2)] lrep_lseq[OF l'(2)] by (simp add: lseq_def)
qed

lemma buckets_ok_update:
  assumes "buckets_ok h bs" "i < length bs" "linv l"
    and "\<forall>e \<in> set (lseq l). hidx h (entry_key e) (length bs) = i"
  shows "buckets_ok h (bs[i := l])"
  using assms by (auto simp: buckets_ok_def nth_list_update)

lemma bucket_append_rep:
  assumes v: "vec_inv v" and i: "i < length (vec_list v)" and l: "linv (vec_list v ! i)"
  shows "\<exists>v' l'. bucket_append e (int i) v = Some v' \<and> vec_inv v' \<and>
    vec_list v' = (vec_list v)[i := l'] \<and> linv l' \<and> lseq l' = lseq (vec_list v ! i) @ [e]"
proof -
  obtain l' where l': "linked_list_addLast (Some (vec_list v ! i)) e = Some (Some l')" "linv l'"
    "lseq l' = lseq (vec_list v ! i) @ [e]" using append_bucket_rep[OF l] by blast
  obtain v' where "vector_put v (int i) l' = Some v'" "vec_inv v'"
    "vec_list v' = (vec_list v)[i := l']"
    using vec.put_law[OF v, of "int i" l'] i by auto
  with l' show ?thesis using i by (auto simp: bucket_append_def vec.get_law[OF v])
qed

section \<open>Rehashing\<close>

lemma add_empty_buckets_rep:
  fixes v :: "('k, 'v) HashMapEntry LinkedList Vector option"
  shows "vec_inv v \<Longrightarrow> \<exists>v'. add_empty_buckets n v = Some v' \<and> vec_inv v' \<and>
     vec_list v' = vec_list v @ replicate n (the linked_list_create)"
proof (induction n arbitrary: v)
  case (Suc n)
  obtain l :: "('k, 'v) HashMapEntry LinkedList" where l: "linked_list_create = Some l"
    using create_rep by blast
  obtain v1 where "vector_add v l = Some v1" "vec_inv v1" "vec_list v1 = vec_list v @ [l]"
    using vec.add_law[OF Suc.prems] by blast
  with Suc.IH[of v1] show ?case by (auto simp: l)
qed simp

lemma empty_bucket: "linv (the linked_list_create)" "lseq (the linked_list_create) = []"
proof -
  have rep: "lrep (the linked_list_create) []" by (simp add: linked_list_create_def lrep_def)
  show "linv (the linked_list_create)" "lseq (the linked_list_create) = []"
    using lrep_linv[OF rep] lrep_lseq[OF rep] by simp_all
qed

lemma fresh_buckets:
  "\<exists>v. add_empty_buckets n (vector_create k) = Some v \<and> vec_inv v \<and>
     vec_list v = replicate n (the linked_list_create)"
  using add_empty_buckets_rep vec.create_law by (metis append_Nil)

definition spread :: "('k \<Rightarrow> int) \<Rightarrow> nat \<Rightarrow> ('k, 'v) HashMapEntry list
    \<Rightarrow> ('k, 'v) HashMapEntry LinkedList list \<Rightarrow> ('k, 'v) HashMapEntry LinkedList list \<Rightarrow> bool" where
  "spread h n es bs bs' \<longleftrightarrow>
     length bs' = n \<and>
     (\<forall>i < n. linv (bs' ! i) \<and>
        lseq (bs' ! i) = lseq (bs ! i) @ filter (\<lambda>e. hidx h (entry_key e) n = i) es)"

lemma rehash_fold:
  assumes "vec_inv v" "length (vec_list v) = n" "0 < n" "\<forall>i < n. linv (vec_list v ! i)"
  shows "\<exists>v'. fold_opt (rehash_entry m (int n)) es v = Some v' \<and> vec_inv v' \<and>
    spread (hash_function m) n es (vec_list v) (vec_list v')"
  using assms
proof (induction es arbitrary: v)
  case Nil
  then show ?case by (auto simp: spread_def)
next
  case (Cons e es)
  let ?i = "hidx (hash_function m) (entry_key e) n"
  have i: "?i < n" using Cons.prems(3) by (rule hidx_less)
  obtain v1 l1 where v1: "bucket_append e (int ?i) v = Some v1" "vec_inv v1"
    "vec_list v1 = (vec_list v)[?i := l1]" "linv l1" "lseq l1 = lseq (vec_list v ! ?i) @ [e]"
    using bucket_append_rep[OF Cons.prems(1), of ?i e] Cons.prems i by auto
  have lin: "\<forall>j < n. linv (vec_list v1 ! j)"
    using v1 Cons.prems i by (auto simp: nth_list_update)
  obtain v' where v': "fold_opt (rehash_entry m (int n)) es v1 = Some v'" "vec_inv v'"
    "spread (hash_function m) n es (vec_list v1) (vec_list v')"
    using Cons.IH[OF v1(2) _ Cons.prems(3) lin] v1(3) Cons.prems(2) by auto
  have "spread (hash_function m) n (e # es) (vec_list v) (vec_list v')"
    using v'(3) v1(3,5) Cons.prems(2) i by (auto simp: spread_def nth_list_update)
  moreover have "rehash_entry m (int n) e v = Some v1"
    using v1(1) Cons.prems(3) by (simp add: rehash_entry_def bucket_index_hidx)
  ultimately show ?case using v' by auto
qed

lemma spread_append:
  "spread h n es bs bs1 \<Longrightarrow> spread h n fs bs1 bs2 \<Longrightarrow> spread h n (es @ fs) bs bs2"
  by (simp add: spread_def)

lemma rehash_buckets_rep:
  assumes m: "vec_inv (buckets m)" "\<forall>b \<in> set (vec_list (buckets m)). linv b"
    and "i + k \<le> length (vec_list (buckets m))"
    and "vec_inv v" "length (vec_list v) = n" "0 < n" "\<forall>i < n. linv (vec_list v ! i)"
  shows "\<exists>v'. rehash_buckets m (int n) i k v = Some v' \<and> vec_inv v' \<and>
    spread (hash_function m) n (entries_of (take k (drop i (vec_list (buckets m)))))
      (vec_list v) (vec_list v')"
  using assms(3-)
proof (induction k arbitrary: i v)
  case 0
  then show ?case by (auto simp: spread_def entries_of_def)
next
  case (Suc k)
  let ?bs = "vec_list (buckets m)"
  have i: "i < length ?bs" using Suc.prems(1) by simp
  have rep: "lrep (?bs ! i) (laddrs (?bs ! i))" using m(2) i by (auto simp: linv_def)
  obtain v1 where v1: "fold_opt (rehash_entry m (int n)) (lseq (?bs ! i)) v = Some v1" "vec_inv v1"
    "spread (hash_function m) n (lseq (?bs ! i)) (vec_list v) (vec_list v1)"
    using rehash_fold Suc.prems(2-) by blast
  have loop: "node_loop (rehash_entry m (int n)) (?bs ! i) (list_head (?bs ! i)) v = Some v1"
    using v1(1) by (simp add: lseq_def node_loop_rep[OF rep])
  obtain v' where v': "rehash_buckets m (int n) (Suc i) k v1 = Some v'" "vec_inv v'"
    "spread (hash_function m) n (entries_of (take k (drop (Suc i) ?bs))) (vec_list v1) (vec_list v')"
    using Suc.IH[of "Suc i" v1] Suc.prems v1 by (auto simp: spread_def)
  have "entries_of (take (Suc k) (drop i ?bs)) =
      lseq (?bs ! i) @ entries_of (take k (drop (Suc i) ?bs))"
    using i by (simp add: entries_of_def flip: Cons_nth_drop_Suc)
  moreover have "rehash_buckets m (int n) i (Suc k) v = Some v'"
    using loop v'(1) i by (simp add: vec.get_law[OF m(1)])
  ultimately show ?case using v' spread_append[OF v1(3) v'(3)] by auto
qed

lemma mset_spread:
  assumes "\<forall>e \<in> set es. f e < n"
  shows "mset (concat (map (\<lambda>i. filter (\<lambda>e. f e = i) es) [0..<n])) = mset es"
proof -
  have "mset (concat (map (\<lambda>i. filter (\<lambda>e. f e = i) es) [0..<n])) =
      (\<Sum>i \<in> {0..<n}. filter_mset (\<lambda>e. f e = i) (mset es))"
    by (simp add: mset_concat comp_def interv_sum_list_conv_sum_set_nat)
  also have "\<dots> = mset es"
    using assms
  proof (induction es)
    case (Cons e es)
    have "(\<Sum>i \<in> {0..<n}. filter_mset (\<lambda>e. f e = i) (mset (e # es))) =
        (\<Sum>i \<in> {0..<n}. (if f e = i then {#e#} else {#}) + filter_mset (\<lambda>e. f e = i) (mset es))"
      by (intro sum.cong) auto
    also have "\<dots> = {#e#} + mset es"
      using Cons by (simp add: sum.distrib)
    finally show ?case by simp
  qed simp
  finally show ?thesis .
qed

lemma spread_entries:
  assumes sp: "spread h n es bs bs'" and n: "0 < n" and "\<forall>i < n. lseq (bs ! i) = []"
  shows "mset (entries_of bs') = mset es" "buckets_ok h bs'"
proof -
  have "map lseq bs' = map (\<lambda>i. filter (\<lambda>e. hidx h (entry_key e) n = i) es) [0..<n]"
    using assms by (intro nth_equalityI) (auto simp: spread_def)
  then show "mset (entries_of bs') = mset es"
    using mset_spread[of es "\<lambda>e. hidx h (entry_key e) n" n]
    by (simp add: entries_of_def hidx_less[OF n])
  show "buckets_ok h bs'" using assms by (auto simp: buckets_ok_def spread_def)
qed

lemma alist_perm:
  assumes "mset (entries_of bs') = mset (entries_of bs)"
    and "distinct (map fst (map epair (entries_of bs)))"
  shows "distinct (map fst (map epair (entries_of bs')))"
    and "map_of (map epair (entries_of bs')) = map_of (map epair (entries_of bs))"
    and "length (entries_of bs') = length (entries_of bs)"
proof -
  have "mset (map fst (map epair (entries_of bs'))) = mset (map fst (map epair (entries_of bs)))"
    using assms(1) by (simp flip: multiset.map_comp)
  then show d: "distinct (map fst (map epair (entries_of bs')))"
    using assms(2) mset_eq_imp_distinct_iff by blast
  have "set (entries_of bs') = set (entries_of bs)" using assms(1) mset_eq_setD by blast
  then show "map_of (map epair (entries_of bs')) = map_of (map epair (entries_of bs))"
    using map_of_inject_set[OF d assms(2)] by simp
  show "length (entries_of bs') = length (entries_of bs)"
    using assms(1) mset_eq_length by blast
qed

lemma resize_rep:
  fixes m :: "('a, 'b) HashMap"
  assumes m: "hm_rep m" and "0 < n"
  shows "\<exists>m'. hash_map_resize m (int n) = Some (1, m') \<and> hm_rep m' \<and>
    hm_map (Some m') = hm_map (Some m)"
proof -
  let ?bs = "vec_list (buckets m)" and ?l0 = "the linked_list_create"
  have inv: "vec_inv (buckets m)" and ok: "buckets_ok (hash_function m) ?bs"
    using m by (auto simp: hm_rep_def)
  have lin: "\<forall>b \<in> set ?bs. linv b" using ok by (auto simp: buckets_ok_def in_set_conv_nth)
  obtain v :: "('a, 'b) HashMapEntry LinkedList Vector option" where
    v: "add_empty_buckets n (vector_create (int n)) = Some v" "vec_inv v"
    "vec_list v = replicate n ?l0"
    using fresh_buckets by blast
  obtain v' where v': "rehash_buckets m (int n) 0 (length ?bs) v = Some v'" "vec_inv v'"
    "spread (hash_function m) n (entries_of ?bs) (vec_list v) (vec_list v')"
    using rehash_buckets_rep[OF inv lin, of 0 "length ?bs" v n] v \<open>0 < n\<close>
    by (auto simp: empty_bucket)
  let ?m' = "m\<lparr>buckets := v'\<rparr>"
  have eq: "hash_map_resize m (int n) = Some (1, ?m')"
    using \<open>0 < n\<close> v(1) v'(1) by (simp add: hash_map_resize_def vec.count_law[OF inv])
  have sp: "mset (entries_of (vec_list v')) = mset (entries_of ?bs)"
    "buckets_ok (hash_function m) (vec_list v')"
    using spread_entries[OF v'(3) \<open>0 < n\<close>] v(3) by (auto simp: empty_bucket)
  have "vec_list v' \<noteq> []" using v'(3) \<open>0 < n\<close> by (auto simp: spread_def)
  moreover note a = alist_perm[OF sp(1)]
  ultimately have "hm_rep ?m'" "hm_map (Some ?m') = hm_map (Some m)"
    using m v'(2) sp a by (simp_all add: hm_rep_def hm_alist_def)
  with eq show ?thesis by blast
qed

section \<open>The operations on the abstraction\<close>

lemma buckets_count:
  "hm_rep m \<Longrightarrow> vector_size (buckets m) = int (length (vec_list (buckets m)))"
  by (simp add: hm_rep_def vec.count_law)

text \<open>The bucket of a key, located as every operation does it.\<close>

lemma located_bucket:
  fixes m :: "('k, 'v) HashMap" and k :: 'k
  assumes "hm_rep m"
  defines "bs \<equiv> vec_list (buckets m)"
  defines "i \<equiv> hidx (hash_function m) k (length bs)"
  shows "hash_map_bucket_index m k (vector_size (buckets m)) = Some (int i)"
    "hash_map_bucket_at m (int i) = Some (Some (bs ! i))" "i < length bs" "linv (bs ! i)"
proof -
  have inv: "vec_inv (buckets m)" and ne: "0 < length bs" and ok: "buckets_ok (hash_function m) bs"
    using assms by (auto simp: hm_rep_def)
  show i: "i < length bs" unfolding i_def by (rule hidx_less[OF ne])
  have c: "vector_size (buckets m) = int (length bs)" by (simp add: vec.count_law[OF inv] bs_def)
  show "hash_map_bucket_index m k (vector_size (buckets m)) = Some (int i)"
    using ne by (simp add: c bucket_index_hidx i_def)
  show "hash_map_bucket_at m (int i) = Some (Some (bs ! i))"
    using i by (simp add: hash_map_bucket_at_def vec.get_law[OF inv] bs_def)
  show "linv (bs ! i)" using ok i by (simp add: buckets_ok_def)
qed

text \<open>Writing a changed bucket back.\<close>

lemma replace_bucket:
  assumes m: "hm_rep m" and i: "i < length (vec_list (buckets m))" and l: "linv l"
    and keys: "\<forall>e \<in> set (lseq l). hidx (hash_function m) (entry_key e) (length (vec_list (buckets m))) = i"
  obtains v where "vector_put (buckets m) (int i) l = Some v" "vec_inv v"
    "vec_list v = (vec_list (buckets m))[i := l]" "buckets_ok (hash_function m) (vec_list v)"
    "vec_list v \<noteq> []"
proof -
  have inv: "vec_inv (buckets m)" and ok: "buckets_ok (hash_function m) (vec_list (buckets m))"
    using m by (auto simp: hm_rep_def)
  obtain v where "vector_put (buckets m) (int i) l = Some v" "vec_inv v"
    "vec_list v = (vec_list (buckets m))[i := l]"
    using vec.put_law[OF inv, of "int i" l] i by auto
  moreover have "vec_list (buckets m) \<noteq> []" using i by auto
  ultimately show thesis using that buckets_ok_update[OF ok i l keys] by auto
qed

lemma absent_in_map:
  fixes m :: "('k, 'v) HashMap" and k :: 'k
  assumes m: "hm_rep m"
  defines "bs \<equiv> vec_list (buckets m)"
  defines "i \<equiv> hidx (hash_function m) k (length bs)"
  assumes "k \<notin> entry_key ` set (lseq (bs ! i))"
  shows "k \<notin> fst ` set (hm_alist m)"
proof
  assume "k \<in> fst ` set (hm_alist m)"
  then obtain b e where e: "b \<in> set bs" "e \<in> set (lseq b)" "entry_key e = k"
    by (auto simp: hm_alist_def entries_of_def epair_def bs_def)
  then obtain j where j: "j < length bs" "b = bs ! j" by (auto simp: in_set_conv_nth)
  have "buckets_ok (hash_function m) bs" using m by (simp add: hm_rep_def bs_def)
  then have "j = i" using e j by (auto simp: buckets_ok_def i_def)
  then show False using e j assms(4) by auto
qed

lemma get_rep:
  assumes m: "hm_rep m"
  shows "hash_map_get (Some m) k =
    Some (case hm_map (Some m) k of None \<Rightarrow> (1, None) | Some v \<Rightarrow> (0, Some v))"
proof -
  let ?bs = "vec_list (buckets m)"
  let ?i = "hidx (hash_function m) k (length ?bs)"
  note loc = located_bucket[OF m, of k] buckets_count[OF m]
  have cmp: "\<forall>a b. comparator m a b = 0 \<longleftrightarrow> a = b" using m by (simp add: hm_rep_def)
  show ?thesis
  proof (cases rule: find_node_cases[OF loc(4) cmp, where k = k, case_names absent found])
    case absent
    then have "hm_map (Some m) k = None"
      using absent_in_map[OF m] by (auto simp: map_of_eq_None_iff)
    with absent(1) loc show ?thesis by (simp add: Let_def)
  next
    case (found a X Y)
    obtain nd where nd: "nodes (?bs ! ?i) a = Some nd" "ndata (?bs ! ?i) a = node_data nd"
      using lrep_node[OF found(2), of a] by (auto simp: ndata_def)
    have "ndata (?bs ! ?i) a \<in> set (lseq (?bs ! ?i))" using lrep_lseq[OF found(2)] by simp
    then have "ndata (?bs ! ?i) a \<in> set (entries_of ?bs)" using loc(3) by (auto simp: entries_of_def)
    then have "(k, entry_data (ndata (?bs ! ?i) a)) \<in> set (hm_alist m)"
      using found(3) by (force simp: hm_alist_def epair_def)
    then have "hm_map (Some m) k = Some (entry_data (ndata (?bs ! ?i) a))"
      using m by (simp add: hm_rep_def)
    with found(1) loc nd show ?thesis by (simp add: Let_def)
  qed
qed

text \<open>The entries of a map around the bucket that changes.\<close>

lemma alist_around:
  fixes m :: "('a, 'b) HashMap"
  assumes m: "hm_rep m" and i: "i < length (vec_list (buckets m))"
  obtains A C where "hm_alist m = A @ map epair (lseq (vec_list (buckets m) ! i)) @ C"
    "\<And>l. map epair (entries_of ((vec_list (buckets m))[i := l])) = A @ map epair (lseq l) @ C"
proof (rule entries_update[OF i])
  fix A C :: "('a, 'b) HashMapEntry list"
  assume A: "\<And>l. entries_of ((vec_list (buckets m))[i := l]) = A @ lseq l @ C"
    and C: "entries_of (vec_list (buckets m)) = A @ lseq (vec_list (buckets m) ! i) @ C"
  show thesis
  proof (rule that[of "map epair A" "map epair C"])
    show "hm_alist m = map epair A @ map epair (lseq (vec_list (buckets m) ! i)) @ map epair C"
      unfolding hm_alist_def C by simp
    show "map epair (entries_of ((vec_list (buckets m))[i := l])) =
        map epair A @ map epair (lseq l) @ map epair C" for l
      unfolding A by simp
  qed
qed

lemma put_found:
  fixes m :: "('k, 'v) HashMap" and k :: 'k
  assumes m: "hm_rep m"
  defines "i \<equiv> hidx (hash_function m) k (length (vec_list (buckets m)))"
  assumes node: "hash_map_find_node m (Some (vec_list (buckets m) ! i)) k = Some (Some a)"
    and rep: "lrep (vec_list (buckets m) ! i) (X @ a # Y)"
    and key: "entry_key (ndata (vec_list (buckets m) ! i) a) = k"
  shows "\<exists>m'. hash_map_put (Some m) k v = Some (1, Some m') \<and>
    hm_map (Some m) k \<noteq> None \<and> hm_rep m' \<and> hm_map (Some m') = (hm_map (Some m))(k \<mapsto> v)"
proof -
  let ?l = "vec_list (buckets m) ! i"
  note loc = located_bucket[OF m, of k, folded i_def] buckets_count[OF m]
  obtain l' where l': "set_entry_data a v ?l = Some l'" "linv l'"
    "lseq ?l = map (ndata ?l) X @ ndata ?l a # map (ndata ?l) Y"
    "lseq l' = map (ndata ?l) X @ (ndata ?l a)\<lparr>entry_data := v\<rparr> # map (ndata ?l) Y"
    using set_entry_data_rep[OF rep] by blast
  have "buckets_ok (hash_function m) (vec_list (buckets m))" using m by (simp add: hm_rep_def)
  then have "\<forall>e \<in> set (lseq ?l). hidx (hash_function m) (entry_key e) (length (vec_list (buckets m))) = i"
    using loc(3) by (simp add: buckets_ok_def)
  then have keys: "\<forall>e \<in> set (lseq l'). hidx (hash_function m) (entry_key e) (length (vec_list (buckets m))) = i"
    unfolding l'(3,4) by auto
  obtain w where w: "vector_put (buckets m) (int i) l' = Some w" "vec_inv w"
    "vec_list w = (vec_list (buckets m))[i := l']" "buckets_ok (hash_function m) (vec_list w)"
    "vec_list w \<noteq> []"
    using replace_bucket[OF m loc(3) l'(2) keys] by blast
  obtain A C where ac: "hm_alist m = A @ map epair (lseq ?l) @ C"
    "\<And>l. map epair (entries_of ((vec_list (buckets m))[i := l])) = A @ map epair (lseq l) @ C"
    using alist_around[OF m loc(3)] by blast
  define A' C' where "A' = A @ map (epair \<circ> ndata ?l) X" and "C' = map (epair \<circ> ndata ?l) Y @ C"
  let ?m' = "m\<lparr>buckets := w\<rparr>"
  have old: "hm_alist m = A' @ (k, entry_data (ndata ?l a)) # C'"
    using ac(1) l'(3) key by (simp add: A'_def C'_def epair_def)
  have new: "hm_alist ?m' = A' @ (k, v) # C'"
    using ac(2)[of l'] l'(4) key w(3) by (simp add: hm_alist_def A'_def C'_def epair_def)
  have dist: "distinct (map fst (hm_alist m))" using m by (simp add: hm_rep_def)
  have "hash_map_put (Some m) k v = Some (1, Some ?m')"
    using loc node l'(1) w(1) by (simp add: Let_def)
  moreover have "hm_map (Some m) k \<noteq> None" by (simp add: old map_add_def split: option.splits)
  moreover have "hm_rep ?m'"
    using m w dist unfolding hm_rep_def by (simp add: new old)
  moreover have "hm_map (Some ?m') = (hm_map (Some m))(k \<mapsto> v)"
    using map_of_mid_update[of A' k "entry_data (ndata ?l a)" C' v] dist by (simp add: new old)
  ultimately show ?thesis by blast
qed

lemma put_absent:
  fixes m :: "('k, 'v) HashMap" and k :: 'k
  assumes m: "hm_rep m"
  defines "i \<equiv> hidx (hash_function m) k (length (vec_list (buckets m)))"
  assumes node: "hash_map_find_node m (Some (vec_list (buckets m) ! i)) k = Some None"
    and key: "k \<notin> entry_key ` set (lseq (vec_list (buckets m) ! i))"
  shows "\<exists>m'. hash_map_put (Some m) k v = Some (0, Some m') \<and>
    hm_map (Some m) k = None \<and> hm_rep m' \<and> hm_map (Some m') = (hm_map (Some m))(k \<mapsto> v)"
proof -
  let ?l = "vec_list (buckets m) ! i" and ?e = "\<lparr>entry_key = k, entry_data = v\<rparr>"
  note loc = located_bucket[OF m, of k, folded i_def] buckets_count[OF m]
  have inv: "vec_inv (buckets m)" and ok: "buckets_ok (hash_function m) (vec_list (buckets m))"
    using m by (auto simp: hm_rep_def)
  obtain w l' where w: "bucket_append ?e (int i) (buckets m) = Some w" "vec_inv w"
    "vec_list w = (vec_list (buckets m))[i := l']" "linv l'" "lseq l' = lseq ?l @ [?e]"
    using bucket_append_rep[OF inv loc(3,4)] by blast
  have okw: "buckets_ok (hash_function m) (vec_list w)"
    unfolding w(3) using ok loc(3) w(4,5)
    by (intro buckets_ok_update) (auto simp: buckets_ok_def i_def)
  obtain A C where ac: "hm_alist m = A @ map epair (lseq ?l) @ C"
    "\<And>l. map epair (entries_of ((vec_list (buckets m))[i := l])) = A @ map epair (lseq l) @ C"
    using alist_around[OF m loc(3)] by blast
  define A' where "A' = A @ map epair (lseq ?l)"
  let ?m' = "m\<lparr>buckets := w, hm_size := hm_size m + 1\<rparr>"
  have old: "hm_alist m = A' @ C" using ac(1) by (simp add: A'_def)
  have new: "hm_alist ?m' = A' @ (k, v) # C"
    using ac(2)[of l'] w(3,5) by (simp add: hm_alist_def A'_def epair_def)
  have nk: "k \<notin> fst ` set (hm_alist m)"
    using absent_in_map[OF m] key by (simp add: i_def)
  have d: "distinct (map fst (hm_alist ?m'))"
    using m nk unfolding hm_rep_def new old by auto
  have n: "hm_size ?m' = int (length (hm_alist ?m'))"
    using m unfolding hm_rep_def new old by simp
  have ne0: "vec_list (buckets m) \<noteq> []" using loc(3) by auto
  then have ne: "vec_list w \<noteq> []" using w(3) by simp
  have rep: "hm_rep ?m'"
    unfolding hm_rep_def using m d n w(2) okw ne by (simp add: hm_rep_def)
  moreover have map: "hm_map (Some ?m') = (hm_map (Some m))(k \<mapsto> v)"
    using map_of_mid_insert[of k A' C v] nk by (simp add: new old)
  moreover have "hm_map (Some m) k = None" using nk by (simp add: map_of_eq_None_iff)
  moreover obtain m'' where "hash_map_resize ?m' (int (length (vec_list (buckets m)) * 2)) = Some (1, m'')"
    "hm_rep m''" "hm_map (Some m'') = hm_map (Some ?m')"
    using resize_rep[OF rep, of "length (vec_list (buckets m)) * 2"] ne0 by auto
  moreover have "hash_map_put (Some m) k v =
      (if hm_size ?m' * snd (load_factor m) > vector_size (buckets m) * fst (load_factor m)
       then do { (r, m'') \<leftarrow> hash_map_resize ?m' (vector_size (buckets m) * 2); Some (0, Some m'') }
       else Some (0, Some ?m'))"
    using loc node w(1) by (simp add: Let_def)
  ultimately show ?thesis
    using loc(5) by (cases "hm_size ?m' * snd (load_factor m) > vector_size (buckets m) * fst (load_factor m)") auto
qed

lemma put_rep:
  assumes m: "hm_rep m"
  shows "\<exists>m'. hash_map_put (Some m) k v =
      Some (if hm_map (Some m) k = None then 0 else 1, Some m') \<and>
    hm_rep m' \<and> hm_map (Some m') = (hm_map (Some m))(k \<mapsto> v)"
proof -
  have cmp: "\<forall>a b. comparator m a b = 0 \<longleftrightarrow> a = b" using m by (simp add: hm_rep_def)
  show ?thesis
  proof (cases rule: find_node_cases[OF located_bucket(4)[OF m, of k] cmp, where k = k, case_names absent found])
    case absent
    from put_absent[OF m absent] show ?thesis by auto
  next
    case (found a X Y)
    from put_found[OF m found] show ?thesis by auto
  qed
qed

lemma remove_rep:
  assumes m: "hm_rep m"
  shows "\<exists>m'. hash_map_remove (Some m) k = Some (Some m') \<and> hm_rep m' \<and>
    hm_map (Some m') = (hm_map (Some m))(k := None)"
proof -
  define i where "i = hidx (hash_function m) k (length (vec_list (buckets m)))"
  let ?l = "vec_list (buckets m) ! i"
  note loc = located_bucket[OF m, of k, folded i_def] buckets_count[OF m]
  have cmp: "\<forall>a b. comparator m a b = 0 \<longleftrightarrow> a = b" using m by (simp add: hm_rep_def)
  show ?thesis
  proof (cases rule: find_node_cases[OF loc(4) cmp, where k = k, case_names absent found])
    case absent
    then have "hm_map (Some m) k = None"
      using absent_in_map[OF m] by (auto simp: map_of_eq_None_iff i_def)
    with absent(1) loc m show ?thesis by (auto simp: Let_def)
  next
    case (found a X Y)
    obtain l' where l': "unlink_node a ?l = Some l'" "linv l'"
      "lseq ?l = map (ndata ?l) X @ ndata ?l a # map (ndata ?l) Y"
      "lseq l' = map (ndata ?l) X @ map (ndata ?l) Y"
      using unlink_bucket_rep[OF found(2)] by blast
    have "buckets_ok (hash_function m) (vec_list (buckets m))" using m by (simp add: hm_rep_def)
    then have "\<forall>e \<in> set (lseq ?l). hidx (hash_function m) (entry_key e) (length (vec_list (buckets m))) = i"
      using loc(3) by (simp add: buckets_ok_def)
    then have keys: "\<forall>e \<in> set (lseq l'). hidx (hash_function m) (entry_key e) (length (vec_list (buckets m))) = i"
      unfolding l'(3,4) by auto
    obtain w where w: "vector_put (buckets m) (int i) l' = Some w" "vec_inv w"
      "vec_list w = (vec_list (buckets m))[i := l']" "buckets_ok (hash_function m) (vec_list w)"
      "vec_list w \<noteq> []"
      using replace_bucket[OF m loc(3) l'(2) keys] by blast
    obtain A C where ac: "hm_alist m = A @ map epair (lseq ?l) @ C"
      "\<And>l. map epair (entries_of ((vec_list (buckets m))[i := l])) = A @ map epair (lseq l) @ C"
      using alist_around[OF m loc(3)] by blast
    define A' C' where "A' = A @ map (epair \<circ> ndata ?l) X" and "C' = map (epair \<circ> ndata ?l) Y @ C"
    let ?m' = "m\<lparr>buckets := w, hm_size := hm_size m - 1\<rparr>"
    have old: "hm_alist m = A' @ (k, entry_data (ndata ?l a)) # C'"
      using ac(1) l'(3) found(3) by (simp add: A'_def C'_def epair_def)
    have new: "hm_alist ?m' = A' @ C'"
      using ac(2)[of l'] l'(4) w(3) by (simp add: hm_alist_def A'_def C'_def epair_def)
    have dist: "distinct (map fst (hm_alist m))" using m by (simp add: hm_rep_def)
    have "hash_map_remove (Some m) k = Some (Some ?m')"
      using loc found(1) l'(1) w(1) by (simp add: Let_def)
    moreover have d: "distinct (map fst (hm_alist ?m'))"
      using dist unfolding new old by auto
    moreover have n: "hm_size ?m' = int (length (hm_alist ?m'))"
      using m unfolding hm_rep_def new old by simp
    moreover have "hm_rep ?m'"
      unfolding hm_rep_def using m d n w by (simp add: hm_rep_def)
    moreover have "hm_map (Some ?m') = (hm_map (Some m))(k := None)"
      using map_of_mid_delete[of A' k "entry_data (ndata ?l a)" C'] dist by (simp add: new old)
    ultimately show ?thesis by blast
  qed
qed

lemma create_hm_rep:
  fixes h :: "'k \<Rightarrow> int"
  assumes "\<forall>a b. c a b = 0 \<longleftrightarrow> a = b"
  shows "\<exists>m :: ('k, 'v) HashMap. hash_map_create (Some h) (Some c) = Some (Some m) \<and> hm_rep m \<and>
    hm_map (Some m) = Map.empty"
proof -
  let ?n = "nat HASH_MAP_INIT_BUCKETS"
  obtain v :: "('k, 'v) HashMapEntry LinkedList Vector option" where
    v: "add_empty_buckets ?n (vector_create HASH_MAP_INIT_BUCKETS) = Some v" "vec_inv v"
    "vec_list v = replicate ?n (the linked_list_create)"
    using fresh_buckets by blast
  have "entries_of (replicate n (the linked_list_create)) = ([] :: ('k, 'v) HashMapEntry list)" for n
    by (induction n) (auto simp: entries_of_def empty_bucket)
  then have e: "entries_of (vec_list v) = []" using v(3) by simp
  have ne: "vec_list v \<noteq> []" using v(3) by (simp add: HASH_MAP_INIT_BUCKETS_def)
  have ok: "buckets_ok h (vec_list v)" using v(3) by (simp add: buckets_ok_def empty_bucket)
  let ?m = "\<lparr>buckets = v, load_factor = (3, 4), hash_function = h, comparator = c, hm_size = 0\<rparr>"
  have "hash_map_create (Some h) (Some c) = Some (Some ?m)"
    using v(1) by (simp add: hash_map_create_def)
  moreover have "hm_rep ?m" "hm_map (Some ?m) = Map.empty"
    using e ne ok v(2) assms by (simp_all add: hm_rep_def hm_alist_def)
  ultimately show ?thesis by blast
qed

section \<open>Interface\<close>

text \<open>
  The contract of the map operations, over the partial function they implement. A client
  proves its lemmas from these laws alone.
\<close>

locale map_impl =
  fixes inv :: "'m \<Rightarrow> bool"
    and lookup :: "'m \<Rightarrow> 'k \<Rightarrow> 'v option"
    and put :: "'m \<Rightarrow> 'k \<Rightarrow> 'v \<Rightarrow> (int \<times> 'm) option"
    and get :: "'m \<Rightarrow> 'k \<Rightarrow> (int \<times> 'v option) option"
    and remove :: "'m \<Rightarrow> 'k \<Rightarrow> 'm option"
  assumes put_law: "inv m \<Longrightarrow> \<exists>m'. put m k v = Some (if lookup m k = None then 0 else 1, m') \<and>
      inv m' \<and> lookup m' = (lookup m)(k \<mapsto> v)"
    and get_law: "inv m \<Longrightarrow> get m k =
      Some (case lookup m k of None \<Rightarrow> (1, None) | Some v \<Rightarrow> (0, Some v))"
    and remove_law: "inv m \<Longrightarrow> \<exists>m'. remove m k = Some m' \<and> inv m' \<and>
      lookup m' = (lookup m)(k := None)"
begin

lemma get_after_put:
  assumes "inv m"
  shows "\<exists>r m'. put m k v = Some (r, m') \<and> get m' k = Some (0, Some v) \<and>
    (\<forall>k'. k' \<noteq> k \<longrightarrow> get m' k' = get m k')"
proof -
  obtain m' where "put m k v = Some (if lookup m k = None then 0 else 1, m')" "inv m'"
    "lookup m' = (lookup m)(k \<mapsto> v)" using put_law[OF assms] by blast
  with assms show ?thesis by (auto simp: get_law)
qed

lemma get_after_remove:
  assumes "inv m"
  shows "\<exists>m'. remove m k = Some m' \<and> get m' k = Some (1, None) \<and>
    (\<forall>k'. k' \<noteq> k \<longrightarrow> get m' k' = get m k')"
proof -
  obtain m' where "remove m k = Some m'" "inv m'" "lookup m' = (lookup m)(k := None)"
    using remove_law[OF assms] by blast
  with assms show ?thesis by (auto simp: get_law)
qed

end

interpretation hmap: map_impl hm_inv hm_map hash_map_put hash_map_get hash_map_remove
proof unfold_locales
  fix p :: "('a, 'b) HashMap option" and k v
  assume "hm_inv p"
  then obtain m where p: "p = Some m" "hm_rep m" by (auto simp: hm_inv_def split: option.splits)
  show "\<exists>q. hash_map_put p k v = Some (if hm_map p k = None then 0 else 1, q) \<and> hm_inv q \<and>
      hm_map q = (hm_map p)(k \<mapsto> v)"
    using put_rep[OF p(2), of k v] unfolding p(1) hm_inv_def by fastforce
  show "hash_map_get p k = Some (case hm_map p k of None \<Rightarrow> (1, None) | Some v \<Rightarrow> (0, Some v))"
    using get_rep[OF p(2), of k] unfolding p(1) .
  show "\<exists>q. hash_map_remove p k = Some q \<and> hm_inv q \<and> hm_map q = (hm_map p)(k := None)"
    using remove_rep[OF p(2), of k] unfolding p(1) hm_inv_def by fastforce
qed

lemmas hash_map_laws [container_laws] = hmap.get_law


text \<open>The comparators of the program tell keys apart.\<close>

lemma strcmp_zero: "strcmp a b = 0 \<longleftrightarrow> a = b"
  by (induction a b rule: strcmp.induct) auto

lemma compare_uint_zero: "compare_uint a b = 0 \<longleftrightarrow> a = b"
  by (auto simp: compare_uint_def)

lemma compare_cstr_zero: "compare_cstr a b = 0 \<longleftrightarrow> a = b"
  by (induction a b rule: compare_cstr.induct) (auto simp: strcmp_zero)

lemma clear_bucket:
  assumes "linv l"
  shows "\<exists>l'. linked_list_clear (Some l) = Some l'"
proof -
  have "lrep l (laddrs l)" using assms by (simp add: linv_def)
  then have "clear_loop (list_head l) l = Some (l\<lparr>nodes := Map.empty\<rparr>)"
    using clear_loop_rep[of l None "laddrs l"] by (simp add: lrep_def)
  then show ?thesis by simp
qed

lemma fold_opt_collect: "fold_opt (\<lambda>x acc. Some (acc @ [x])) xs acc = Some (acc @ xs)"
  by (induction xs arbitrary: acc) auto

lemma free_buckets_rep:
  assumes m: "vec_inv (buckets m)" "\<forall>b \<in> set (vec_list (buckets m)). linv b"
    and "i + k \<le> length (vec_list (buckets m))"
  shows "free_buckets m i k acc =
    Some (acc @ entries_of (take k (drop i (vec_list (buckets m)))))"
  using assms(3)
proof (induction k arbitrary: i acc)
  case 0
  then show ?case by (simp add: entries_of_def)
next
  case (Suc k)
  let ?bs = "vec_list (buckets m)"
  have i: "i < length ?bs" using Suc.prems by simp
  then have l: "linv (?bs ! i)" using m(2) by simp
  then have rep: "lrep (?bs ! i) (laddrs (?bs ! i))" by (simp add: linv_def)
  obtain l' where "linked_list_clear (Some (?bs ! i)) = Some l'" using clear_bucket[OF l] by blast
  then show ?case
    using i Suc by (simp add: vec.get_law[OF m(1)] node_loop_rep[OF rep] fold_opt_collect
        entries_of_def lseq_def flip: Cons_nth_drop_Suc del: linked_list_clear.simps)
qed

section \<open>Properties\<close>

text \<open>Calls of the map's client, and what they return.\<close>

datatype ('k, 'v) map_call = Put 'k 'v | Get 'k | Remove 'k

fun map_call_run :: "('k, 'v) map_call list \<Rightarrow> ('k, 'v) HashMap option
    \<Rightarrow> ((int \<times> 'v option) list \<times> ('k, 'v) HashMap option) option" where
  "map_call_run [] p = Some ([], p)"
| "map_call_run (Put k v # cs) p = do {
     (r, p') \<leftarrow> hash_map_put p k v;
     (rs, q) \<leftarrow> map_call_run cs p';
     Some ((r, None) # rs, q) }"
| "map_call_run (Get k # cs) p = do {
     r \<leftarrow> hash_map_get p k;
     (rs, q) \<leftarrow> map_call_run cs p;
     Some (r # rs, q) }"
| "map_call_run (Remove k # cs) p = do {
     p' \<leftarrow> hash_map_remove p k;
     map_call_run cs p' }"

text \<open>The specification: the same calls on a partial function.\<close>

fun spec_run :: "('k, 'v) map_call list \<Rightarrow> ('k \<Rightarrow> 'v option)
    \<Rightarrow> (int \<times> 'v option) list \<times> ('k \<Rightarrow> 'v option)" where
  "spec_run [] f = ([], f)"
| "spec_run (Put k v # cs) f =
     (let (rs, g) = spec_run cs (f(k \<mapsto> v))
      in ((if f k = None then 0 else 1, None) # rs, g))"
| "spec_run (Get k # cs) f =
     (let (rs, g) = spec_run cs f
      in ((case f k of None \<Rightarrow> (1, None) | Some v \<Rightarrow> (0, Some v)) # rs, g))"
| "spec_run (Remove k # cs) f = spec_run cs (f(k := None))"

lemma map_call_run_spec:
  "hm_inv p \<Longrightarrow> \<exists>q. map_call_run cs p = Some (fst (spec_run cs (hm_map p)), q) \<and> hm_inv q \<and>
     hm_map q = snd (spec_run cs (hm_map p))"
proof (induction cs arbitrary: p)
  case Nil
  then show ?case by simp
next
  case (Cons c cs)
  show ?case
  proof (cases c)
    case (Put k v)
    obtain p' where p': "hash_map_put p k v = Some (if hm_map p k = None then 0 else 1, p')" "hm_inv p'"
      "hm_map p' = (hm_map p)(k \<mapsto> v)" using hmap.put_law[OF Cons.prems] by blast
    from Cons.IH[OF p'(2)] show ?thesis
      unfolding Put p'(3) map_call_run.simps spec_run.simps p'(1)
      by (auto simp: Let_def split_beta simp del: fun_upd_apply)
  next
    case (Get k)
    from Cons.IH[OF Cons.prems] show ?thesis
      unfolding Get map_call_run.simps spec_run.simps hmap.get_law[OF Cons.prems]
      by (auto simp: Let_def split: prod.splits)
  next
    case (Remove k)
    obtain p' where p': "hash_map_remove p k = Some p'" "hm_inv p'"
      "hm_map p' = (hm_map p)(k := None)" using hmap.remove_law[OF Cons.prems] by blast
    from Cons.IH[OF p'(2)] show ?thesis
      unfolding Remove p'(3) map_call_run.simps spec_run.simps p'(1)
      by (simp del: fun_upd_apply)
  qed
qed

text \<open>
  C22. From \<open>hash_map_create\<close>, every sequence of \<open>hash_map_put\<close>, \<open>hash_map_get\<close> and
  \<open>hash_map_remove\<close> calls returns what the same calls return on a partial function:
  updates and lookups agree across collisions in a bucket and across any number of
  rehashes, whatever the hash function is (also for negative hashes and \<open>INT32_MIN\<close>), and
  \<open>size\<close> is the number of keys. The hypothesis on the comparator holds for those the
  program uses (\<open>compare_uint_zero\<close>, \<open>compare_cstr_zero\<close>).
\<close>

theorem hash_map_refines:
  assumes "\<forall>a b. c a b = 0 \<longleftrightarrow> a = b"
  shows "\<exists>m m'. hash_map_create (Some h) (Some c) = Some (Some m) \<and>
    map_call_run cs (Some m) = Some (fst (spec_run cs Map.empty), Some m') \<and>
    hm_map (Some m') = snd (spec_run cs Map.empty) \<and>
    hm_size m' = int (card (dom (snd (spec_run cs Map.empty))))"
proof -
  obtain m :: "('a, 'b) HashMap" where m: "hash_map_create (Some h) (Some c) = Some (Some m)"
    "hm_rep m" "hm_map (Some m) = Map.empty"
    using create_hm_rep[OF assms] by blast
  obtain q where q: "map_call_run cs (Some m) = Some (fst (spec_run cs (hm_map (Some m))), q)"
    "hm_inv q" "hm_map q = snd (spec_run cs (hm_map (Some m)))"
    using map_call_run_spec[of "Some m" cs] m(2) by (auto simp: hm_inv_def)
  then obtain m' where m': "q = Some m'" "hm_rep m'" by (auto simp: hm_inv_def split: option.splits)
  then have d: "distinct (map fst (hm_alist m'))" and sz: "hm_size m' = int (length (hm_alist m'))"
    by (auto simp: hm_rep_def)
  have "card (dom (map_of (hm_alist m'))) = length (hm_alist m')"
    using d distinct_card[OF d] by (simp add: dom_map_of_conv_image_fst)
  then have "hm_size m' = int (card (dom (snd (spec_run cs (hm_map (Some m))))))"
    using sz q(3) m'(1) by simp
  then show ?thesis using m q m' by (intro exI[of _ m] exI[of _ m']) simp
qed

theorem hash_map_refines_witness:
  "\<exists>m m'. hash_map_create (Some hash_func_uint64) (Some compare_uint) = Some (Some m) \<and>
    map_call_run [Put 5 True, Put 21 False, Remove 5, Get 5, Get 21] (Some m) =
      Some ([(0, None), (0, None), (1, None), (0, Some False)], Some m')"
  using hash_map_refines[where c = compare_uint and h = hash_func_uint64
      and cs = "[Put 5 True, Put 21 False, Remove 5, Get 5, Get 21]"]
  by (auto simp: compare_uint_zero)

lemma hash_map_free_entries:
  assumes "hm_rep m"
  shows "\<exists>es. hash_map_free (Some m) = Some es \<and> map epair es = hm_alist m"
proof -
  have inv: "vec_inv (buckets m)" and ok: "buckets_ok (hash_function m) (vec_list (buckets m))"
    using assms by (auto simp: hm_rep_def)
  have "\<forall>b \<in> set (vec_list (buckets m)). linv b" using ok by (auto simp: buckets_ok_def in_set_conv_nth)
  then have "hash_map_free (Some m) = Some (entries_of (vec_list (buckets m)))"
    using free_buckets_rep[OF inv, of 0 "length (vec_list (buckets m))"] by (simp add: vec.count_law[OF inv])
  then show ?thesis by (simp add: hm_alist_def)
qed

lemma hash_map_free_empty: "hm_inv p \<Longrightarrow> hm_map p = Map.empty \<Longrightarrow> hash_map_free p = Some []"
  using hash_map_free_entries by (cases p) (fastforce simp: hm_inv_def)+

text \<open>
  \<open>hash_map_free\<close> returns on every well-formed map and frees each entry exactly once.
\<close>

theorem hash_map_free_once:
  assumes "hm_rep m"
  shows "\<exists>es. hash_map_free (Some m) = Some es \<and> distinct (map entry_key es) \<and>
    map_of (map (\<lambda>e. (entry_key e, entry_data e)) es) = hm_map (Some m) \<and>
    int (length es) = hm_size m"
proof -
  obtain es where es: "hash_map_free (Some m) = Some es" "map epair es = hm_alist m"
    using hash_map_free_entries[OF assms] by blast
  have pair: "(\<lambda>e. (entry_key e, entry_data e)) = (epair :: ('a, 'b) HashMapEntry \<Rightarrow> _)"
    by (auto simp: epair_def)
  have key: "entry_key = (\<lambda>e :: ('a, 'b) HashMapEntry. fst (epair e))" by (auto simp: epair_def)
  have "map entry_key es = map fst (hm_alist m)" unfolding es(2)[symmetric] key by simp
  moreover have "length es = length (hm_alist m)" unfolding es(2)[symmetric] by simp
  ultimately show ?thesis using assms es by (intro exI[of _ es]) (simp add: pair hm_rep_def)
qed

theorem hash_map_free_once_witness:
  "\<exists>es. hash_map_free (the (hash_map_create (Some hash_func_uint16) (Some compare_uint))
      :: (uint64_t, nat) HashMap option) = Some es \<and> es = []"
proof -
  obtain m :: "(uint64_t, nat) HashMap" where
    m: "hash_map_create (Some hash_func_uint16) (Some compare_uint) = Some (Some m)"
    "hm_rep m" "hm_map (Some m) = Map.empty"
    using create_hm_rep[of compare_uint hash_func_uint16] compare_uint_zero by blast
  from hash_map_free_once[OF m(2)] m(3) show ?thesis
    unfolding m(1) by auto
qed

end
