(* ===== verification/Stl_LazyHeap.thy ===== *)
theory Stl_LazyHeap
  imports Stl_HashMap
begin

text \<open>
  The heap with lazy deletion of \<^verbatim>\<open>src/infra/stl.c\<close> (\<open>LazyHeap\<close>): an array of pointers
  to elements, in heap order from index 1 on, whose elements can be marked as deleted through
  the hash map \<open>survivor_table\<close> and leave the array once they reach the root. \<open>cells\<close> is
  the memory of the elements, a freed one maps to \<open>None\<close>. The comparator reads the data
  (sessions) through pointers, so it is an argument of the operations that call it and may
  have no result. The order kept is not the usual one: a live element is at most every live
  element below it, whatever deleted elements lie between (\<open>ordered\<close>). The interface is the
  locale \<open>timeout_queue\<close>.
\<close>

section \<open>State and operations\<close>

record 'a HeapElement =
  he_data :: 'a
  is_deleted :: bool

record 'a LazyHeap =
  cells :: "addr \<rightharpoonup> 'a HeapElement"
  next_cell :: addr
  slots :: "addr option list"
  survivor_table :: "(uint64_t, addr) HashMap option"
  heap_size :: int
  heap_capacity :: int

type_synonym 'a heap_cmp = "'a \<Rightarrow> 'a \<Rightarrow> int option"

definition heap_element_compare ::
    "'a heap_cmp \<Rightarrow> 'a LazyHeap \<Rightarrow> addr \<Rightarrow> addr \<Rightarrow> int option" where
  "heap_element_compare cmp q a b = do {
     ea \<leftarrow> cells q a;
     eb \<leftarrow> cells q b;
     if is_deleted ea \<and> is_deleted eb then Some 0
     else if is_deleted ea then Some (-1)
     else if is_deleted eb then Some 1
     else cmp (he_data ea) (he_data eb) }"

text \<open>\<open>queue->elements[i]\<close>, and the exchange of two elements.\<close>

definition slot :: "'a LazyHeap \<Rightarrow> int \<Rightarrow> addr option" where
  "slot q i = do { s \<leftarrow> arr_get (slots q) i; s }"

definition swap_slots :: "int \<Rightarrow> int \<Rightarrow> 'a LazyHeap \<Rightarrow> 'a LazyHeap option" where
  "swap_slots i j q = do {
     a \<leftarrow> slot q i;
     b \<leftarrow> slot q j;
     es1 \<leftarrow> arr_set (slots q) i (Some b);
     es2 \<leftarrow> arr_set es1 j (Some a);
     Some (q\<lparr>slots := es2\<rparr>) }"

text \<open>\<open>child\<close> moves to the candidate index \<open>t\<close> when the element there is larger.\<close>

definition pick_child :: "'a heap_cmp \<Rightarrow> 'a LazyHeap \<Rightarrow> int \<Rightarrow> int \<Rightarrow> int option" where
  "pick_child cmp q t child =
     (if child \<le> heap_size q
      then do {
        a \<leftarrow> slot q t;
        b \<leftarrow> slot q child;
        r \<leftarrow> heap_element_compare cmp q a b;
        Some (if r > 0 then child else t) }
      else Some t)"

partial_function (option) down_loop :: "'a heap_cmp \<Rightarrow> 'a LazyHeap \<Rightarrow> int \<Rightarrow> 'a LazyHeap option" where
  "down_loop cmp q u = do {
     t1 \<leftarrow> pick_child cmp q u (u * 2);
     t \<leftarrow> pick_child cmp q t1 (u * 2 + 1);
     if t = u then Some q
     else do { q' \<leftarrow> swap_slots t u q; down_loop cmp q' t } }"

definition down :: "'a heap_cmp \<Rightarrow> 'a LazyHeap \<Rightarrow> int \<Rightarrow> 'a LazyHeap option" where
  "down cmp q u = (if u \<le> 0 \<or> u > heap_size q then Some q else down_loop cmp q u)"

partial_function (option) up_loop :: "'a heap_cmp \<Rightarrow> 'a LazyHeap \<Rightarrow> int \<Rightarrow> 'a LazyHeap option" where
  "up_loop cmp q u =
     (let t = u div 2
      in if t = 0 then Some q
         else do {
           a \<leftarrow> slot q u;
           b \<leftarrow> slot q t;
           r \<leftarrow> heap_element_compare cmp q a b;
           if r < 0 then do { q' \<leftarrow> swap_slots t u q; up_loop cmp q' t }
           else Some q })"

definition up :: "'a heap_cmp \<Rightarrow> 'a LazyHeap \<Rightarrow> int \<Rightarrow> 'a LazyHeap option" where
  "up cmp q u = (if u \<le> 0 \<or> u > heap_size q then Some q else up_loop cmp q u)"

definition priority_queue_grow :: "'a LazyHeap \<Rightarrow> int \<Rightarrow> 'a LazyHeap" where
  "priority_queue_grow q min_capacity =
     (if min_capacity \<le> heap_capacity q then q
      else let temp = (if heap_capacity q \<le> 0 then 1 else heap_capacity q);
               temp_capacity = grow_capacity min_capacity temp
           in q\<lparr>slots := slots q @ replicate (nat (temp_capacity + 1) - length (slots q)) None,
                heap_capacity := temp_capacity\<rparr>)"

definition lazy_heap_create :: "'a LazyHeap option option" where
  "lazy_heap_create = do {
     table \<leftarrow> hash_map_create (Some hash_func_uint64) (Some compare_uint);
     Some (Some \<lparr>cells = Map.empty, next_cell = 0, slots = replicate 17 None,
                 survivor_table = table, heap_size = 0, heap_capacity = 16\<rparr>) }"

fun lazy_heap_add :: "'a heap_cmp \<Rightarrow> 'a LazyHeap option \<Rightarrow> uint64_t \<Rightarrow> 'a
    \<Rightarrow> 'a LazyHeap option option" where
  "lazy_heap_add cmp None key x = Some None"
| "lazy_heap_add cmp (Some q0) key x = do {
     let q1 = priority_queue_grow q0 (heap_size q0 + 1);
     let n = heap_size q1 + 1;
     let a = next_cell q1;
     es \<leftarrow> arr_set (slots q1) n (Some a);
     (r, table) \<leftarrow> hash_map_put (survivor_table q1) key a;
     q2 \<leftarrow> up cmp (q1\<lparr>heap_size := n, next_cell := a + 1,
                     cells := (cells q1)(a \<mapsto> \<lparr>he_data = x, is_deleted = False\<rparr>),
                     slots := es, survivor_table := table\<rparr>) n;
     Some (Some q2) }"

text \<open>
  \<open>free(elements[1]); elements[1] = elements[size]; size--; down(1)\<close>, common to
  \<open>do_delete\<close> and \<open>lazy_heap_pop\<close>.
\<close>

definition drop_root :: "'a heap_cmp \<Rightarrow> 'a LazyHeap \<Rightarrow> 'a LazyHeap option" where
  "drop_root cmp q = do {
     a \<leftarrow> slot q 1;
     b \<leftarrow> slot q (heap_size q);
     es \<leftarrow> arr_set (slots q) 1 (Some b);
     down cmp (q\<lparr>cells := (cells q)(a := None), slots := es, heap_size := heap_size q - 1\<rparr>) 1 }"

partial_function (option) do_delete :: "'a heap_cmp \<Rightarrow> 'a LazyHeap \<Rightarrow> 'a LazyHeap option" where
  "do_delete cmp q =
     (if heap_size q > 0
      then do {
        a \<leftarrow> slot q 1;
        e \<leftarrow> cells q a;
        if is_deleted e then do { q' \<leftarrow> drop_root cmp q; do_delete cmp q' } else Some q }
      else Some q)"

fun lazy_heap_pop :: "'a heap_cmp \<Rightarrow> 'a LazyHeap option \<Rightarrow> ('a option \<times> 'a LazyHeap option) option" where
  "lazy_heap_pop cmp None = Some (None, None)"
| "lazy_heap_pop cmp (Some q) =
     (if heap_size q = 0 then Some (None, Some q)
      else do {
        q1 \<leftarrow> do_delete cmp q;
        if heap_size q1 = 0 then Some (None, Some q1)
        else do {
          a \<leftarrow> slot q1 1;
          e \<leftarrow> cells q1 a;
          q2 \<leftarrow> drop_root cmp q1;
          Some (Some (he_data e), Some q2) } })"

fun lazy_heap_peek :: "'a heap_cmp \<Rightarrow> 'a LazyHeap option \<Rightarrow> ('a option \<times> 'a LazyHeap option) option" where
  "lazy_heap_peek cmp None = Some (None, None)"
| "lazy_heap_peek cmp (Some q) =
     (if heap_size q = 0 then Some (None, Some q)
      else do {
        q1 \<leftarrow> do_delete cmp q;
        if heap_size q1 = 0 then Some (None, Some q1)
        else do {
          a \<leftarrow> slot q1 1;
          e \<leftarrow> cells q1 a;
          Some (Some (he_data e), Some q1) } })"

fun lazy_heap_remove :: "'a LazyHeap option \<Rightarrow> uint64_t \<Rightarrow> 'a LazyHeap option option" where
  "lazy_heap_remove None key = Some None"
| "lazy_heap_remove (Some q) key = do {
     (r, res) \<leftarrow> hash_map_get (survivor_table q) key;
     if r = 0
     then do {
       a \<leftarrow> res;
       e \<leftarrow> cells q a;
       table \<leftarrow> hash_map_remove (survivor_table q) key;
       Some (Some (q\<lparr>cells := (cells q)(a \<mapsto> e\<lparr>is_deleted := True\<rparr>), survivor_table := table\<rparr>)) }
     else Some (Some q) }"

text \<open>\<open>lazy_heap_free\<close> frees the table, the array and the header.\<close>

fun lazy_heap_free :: "'a LazyHeap option \<Rightarrow> (uint64_t, addr) HashMapEntry list option" where
  "lazy_heap_free None = Some []"
| "lazy_heap_free (Some q) = hash_map_free (survivor_table q)"

section \<open>Order\<close>

text \<open>
  Positions of the array as a tree, and the order on it. A position holds \<open>Some k\<close> for a
  live element of rank \<open>k\<close> and \<open>None\<close> for a deleted one.
\<close>

inductive anc :: "nat \<Rightarrow> nat \<Rightarrow> bool" where
  parent: "1 \<le> d div 2 \<Longrightarrow> anc (d div 2) d"
| above: "anc a (d div 2) \<Longrightarrow> anc a d"

lemma anc_less: "anc a d \<Longrightarrow> 1 \<le> a \<and> a < d"
  by (induction rule: anc.induct) auto

lemma anc_cases: "anc a d \<Longrightarrow> d div 2 = a \<or> anc a (d div 2)"
  by (auto elim: anc.cases)

lemma anc_trans: "anc b d \<Longrightarrow> anc a b \<Longrightarrow> anc a d"
  by (induction rule: anc.induct) (auto intro: anc.above)

lemma anc_children: "1 \<le> u \<Longrightarrow> anc u (2 * u)" "1 \<le> u \<Longrightarrow> anc u (2 * u + 1)"
  using anc.parent[of "2 * u"] anc.parent[of "2 * u + 1"] by auto

lemma anc_below:
  "anc a d \<Longrightarrow> d = 2 * a \<or> d = 2 * a + 1 \<or> anc (2 * a) d \<or> anc (2 * a + 1) d"
proof (induction rule: anc.induct)
  case (parent d)
  have "d = 2 * (d div 2) \<or> d = 2 * (d div 2) + 1" by presburger
  then show ?case by blast
next
  case (above a d)
  have "a \<le> 0 \<or> d div 2 \<noteq> 0" using above.hyps anc_less by fastforce
  with above show ?case
    using anc.parent[of d] anc_less[OF above.hyps] by (auto intro: anc.above)
qed

lemma anc_root: "2 \<le> d \<Longrightarrow> anc 1 d"
proof (induction d rule: less_induct)
  case (less d)
  show ?case
  proof (cases "d div 2 = 1")
    case True
    then show ?thesis using anc.parent[of d] by simp
  next
    case False
    then have "2 \<le> d div 2" using less.prems by auto
    then show ?thesis using less.IH[of "d div 2"] less.prems by (auto intro: anc.above)
  qed
qed

definition rank_le :: "int option \<Rightarrow> int option \<Rightarrow> bool" where
  "rank_le x y \<longleftrightarrow> (case (x, y) of (Some p, Some q) \<Rightarrow> p \<le> q | _ \<Rightarrow> True)"

text \<open>What a positive result of \<open>heap_element_compare\<close> means.\<close>

definition rank_gt :: "int option \<Rightarrow> int option \<Rightarrow> bool" where
  "rank_gt x y \<longleftrightarrow> (case (x, y) of (Some p, Some q) \<Rightarrow> p > q | (Some p, None) \<Rightarrow> True | _ \<Rightarrow> False)"

lemma rank_le_simps [simp]:
  "rank_le None y" "rank_le x None" "rank_le (Some p) (Some q) \<longleftrightarrow> p \<le> q" "rank_le x x"
  by (auto simp: rank_le_def split: option.splits)

lemma rank_gt_simps [simp]:
  "\<not> rank_gt None y" "\<not> rank_gt x x" "rank_gt (Some p) None" "rank_gt (Some p) (Some q) \<longleftrightarrow> p > q"
  by (auto simp: rank_gt_def split: option.splits)

lemma rank_gt_le: "rank_gt x y \<Longrightarrow> rank_le y x"
  by (cases x; cases y) auto

definition ordered_but :: "nat option \<Rightarrow> (nat \<Rightarrow> int option) \<Rightarrow> nat \<Rightarrow> bool" where
  "ordered_but u h n \<longleftrightarrow> (\<forall>a d. anc a d \<and> d \<le> n \<and> u \<noteq> Some a \<longrightarrow> rank_le (h a) (h d))"

abbreviation ordered :: "(nat \<Rightarrow> int option) \<Rightarrow> nat \<Rightarrow> bool" where
  "ordered h n \<equiv> ordered_but None h n"

lemma ordered_root:
  "ordered h n \<Longrightarrow> h 1 = Some p \<Longrightarrow> 1 \<le> d \<Longrightarrow> d \<le> n \<Longrightarrow> h d = Some q \<Longrightarrow> p \<le> q"
  using anc_root[of d] by (cases "d = 1") (fastforce simp: ordered_but_def)+

definition smaller_child :: "(nat \<Rightarrow> int option) \<Rightarrow> nat \<Rightarrow> nat \<Rightarrow> nat" where
  "smaller_child h n u =
     (let t = (if 2 * u \<le> n \<and> rank_gt (h u) (h (2 * u)) then 2 * u else u)
      in if 2 * u + 1 \<le> n \<and> rank_gt (h t) (h (2 * u + 1)) then 2 * u + 1 else t)"

text \<open>The child chosen is at most the other one, and blocks no live element below it.\<close>

lemma smaller_child_cases:
  assumes "1 \<le> u"
  shows "smaller_child h n u \<in> {u, 2 * u, 2 * u + 1}"
    and "smaller_child h n u \<noteq> u \<Longrightarrow> smaller_child h n u \<le> n \<and> rank_gt (h u) (h (smaller_child h n u))"
    and "smaller_child h n u = u \<Longrightarrow> h u = Some p \<Longrightarrow> c \<in> {2 * u, 2 * u + 1} \<Longrightarrow> c \<le> n \<Longrightarrow>
      \<exists>q. h c = Some q \<and> p \<le> q"
    and "smaller_child h n u \<noteq> u \<Longrightarrow> h (smaller_child h n u) = Some p \<Longrightarrow> c \<in> {2 * u, 2 * u + 1} \<Longrightarrow>
      c \<le> n \<Longrightarrow> \<exists>q. h c = Some q \<and> p \<le> q"
  using assms
  by (cases "h u"; cases "h (2 * u)"; cases "h (2 * u + 1)";
      force simp: smaller_child_def Let_def split: if_splits)+

lemma below_cases:
  assumes "anc u d"
  obtains c where "c \<in> {2 * u, 2 * u + 1}" "d = c \<or> anc c d" "c \<le> d"
  using anc_below[OF assms] anc_less by (metis insertI1 insertI2 less_imp_le order_refl)

lemma rank_le_below:
  assumes "rank_le (h c) y" "\<exists>q. h c = Some q \<and> p \<le> q"
  shows "rank_le (Some p) y"
  using assms by (cases y) auto

lemma down_stop:
  assumes "ordered_but (Some u) h n" "1 \<le> u" "smaller_child h n u = u"
  shows "ordered h n"
proof -
  have "rank_le (h u) (h d)" if "anc u d" "d \<le> n" for d
  proof (cases "h u")
    case (Some p)
    obtain c where c: "c \<in> {2 * u, 2 * u + 1}" "d = c \<or> anc c d" "c \<le> d"
      using \<open>anc u d\<close> by (rule below_cases)
    have q: "\<exists>q. h c = Some q \<and> p \<le> q"
      using smaller_child_cases(3)[OF assms(2,3) Some c(1)] c(3) that(2) by simp
    have "rank_le (h c) (h d)"
      using c that(2) assms(1,2) by (auto simp: ordered_but_def)
    with q Some show ?thesis by (metis rank_le_below)
  qed simp
  with assms(1) show ?thesis by (auto simp: ordered_but_def)
qed

lemma down_swap:
  assumes ord: "ordered_but (Some u) h n" and u: "1 \<le> u" and t: "t = smaller_child h n u" "t \<noteq> u"
  shows "ordered_but (Some t) (h(u := h t, t := h u)) n"
proof -
  let ?h = "h(u := h t, t := h u)"
  have t2: "t \<in> {2 * u, 2 * u + 1}" "t \<le> n" "rank_gt (h u) (h t)"
    using smaller_child_cases(1,2)[OF u, of h n] t by auto
  have ut: "anc u t" using t2(1) anc_children[OF u] by auto
  have old: "rank_le (h a) (h d)" if "anc a d" "d \<le> n" "a \<noteq> u" for a d
    using ord that by (auto simp: ordered_but_def)
  have "rank_le (?h a) (?h d)" if ad: "anc a d" "d \<le> n" "a \<noteq> t" for a d
  proof (cases "a = u")
    case True
    show ?thesis
    proof (cases "d = t")
      case True
      then show ?thesis using \<open>a = u\<close> t(2) rank_gt_le[OF t2(3)] by simp
    next
      case False
      have "rank_le (h t) (h d)"
      proof (cases "h t")
        case (Some p)
        obtain c where c: "c \<in> {2 * u, 2 * u + 1}" "d = c \<or> anc c d" "c \<le> d"
          using ad(1) True below_cases by blast
        have q: "\<exists>q. h c = Some q \<and> p \<le> q"
          using smaller_child_cases(4)[OF u, of h n p c] t Some c(1,3) ad(2) by auto
        have "c \<noteq> u" using c(1) u by auto
        then have "rank_le (h c) (h d)" using c(2) old ad(2) by auto
        with q Some show ?thesis by (metis rank_le_below)
      qed simp
      moreover have "d \<noteq> u" using ad(1) True anc_less by blast
      ultimately show ?thesis using True False t(2) by simp
    qed
  next
    case False
    have au: "anc a u" if "anc a t"
    proof -
      have "t div 2 = u" using t2(1) by auto
      then show ?thesis using anc_cases[OF that] False by auto
    qed
    have un: "u \<le> n" using anc_less[OF ut] t2(2) by simp
    show ?thesis
      using False ad old[OF ad(1,2) False] au old[OF _ t2(2) False] old[OF _ un False] anc_trans[OF ut]
      by auto
  qed
  then show ?thesis by (simp add: ordered_but_def)
qed

text \<open>The step of \<open>up\<close>: every pair is in order but those whose lower end is \<open>u\<close>.\<close>

definition ordered_above :: "nat \<Rightarrow> (nat \<Rightarrow> int option) \<Rightarrow> nat \<Rightarrow> bool" where
  "ordered_above u h n \<longleftrightarrow> (\<forall>a d. anc a d \<and> d \<le> n \<and> d \<noteq> u \<longrightarrow> rank_le (h a) (h d))"

lemma up_swap:
  assumes ord: "ordered_above u h n" and p: "1 \<le> u div 2" "u \<le> n"
    and gt: "rank_gt (h (u div 2)) (h u)" and x: "h u \<noteq> None"
  shows "ordered_above (u div 2) (h(u div 2 := h u, u := h (u div 2))) n"
proof -
  let ?p = "u div 2"
  let ?h = "h(?p := h u, u := h ?p)"
  have pu: "anc ?p u" using anc.parent p(1) .
  have old: "rank_le (h a) (h d)" if "anc a d" "d \<le> n" "d \<noteq> u" for a d
    using ord that by (auto simp: ordered_above_def)
  obtain y z where yz: "h ?p = Some y" "h u = Some z" "z < y"
    using gt x by (cases "h ?p"; cases "h u") auto
  have "rank_le (?h a) (?h d)" if ad: "anc a d" "d \<le> n" "d \<noteq> ?p" for a d
  proof (cases "d = u")
    case True
    have "a \<noteq> u" using ad True anc_less by blast
    moreover have "rank_le (h a) (h ?p)" if "a \<noteq> ?p"
      using anc_cases[of a u] ad True that old[of a ?p] anc_less[OF pu] p(2) by auto
    ultimately show ?thesis using True yz by auto
  next
    case False
    have "rank_le (h ?p) (h d)" if "a = ?p \<or> a = u"
      using that ad False pu anc_trans old by blast
    then show ?thesis using False ad old[OF ad(1,2) False] yz by (cases "h d") auto
  qed
  then show ?thesis by (simp add: ordered_above_def)
qed

lemma up_stop:
  assumes ord: "ordered_above u h n" and "u \<le> n"
    and stop: "u div 2 = 0 \<or> (\<exists>p. h (u div 2) = Some p) \<and> \<not> rank_gt (h (u div 2)) (h u) \<or>
      (\<forall>a. anc a u \<longrightarrow> rank_le (h a) (h u))"
  shows "ordered h n"
proof -
  have "rank_le (h a) (h u)" if au: "anc a u" for a
  proof (cases "\<forall>a. anc a u \<longrightarrow> rank_le (h a) (h u)")
    case False
    then have "(\<exists>p. h (u div 2) = Some p) \<and> \<not> rank_gt (h (u div 2)) (h u)"
      using stop anc_cases[OF au] anc_less by fastforce
    then obtain p where p: "h (u div 2) = Some p" "\<not> rank_gt (Some p) (h u)" by auto
    have "a = u div 2 \<or> rank_le (h a) (h (u div 2))"
    proof (cases "a = u div 2")
      case False
      then have "anc a (u div 2)" using anc_cases[OF au] by simp
      moreover have "u div 2 \<le> n" "u div 2 \<noteq> u" using \<open>u \<le> n\<close> anc_less[OF au] by auto
      ultimately show ?thesis using ord by (simp add: ordered_above_def)
    qed simp
    then show ?thesis using p by (cases "h u"; cases "h a") auto
  qed (use au in auto)
  with ord show ?thesis by (auto simp: ordered_but_def ordered_above_def)
qed

section \<open>The array and its memory\<close>

definition heap_rep :: "'a LazyHeap \<Rightarrow> (nat \<Rightarrow> addr) \<Rightarrow> nat \<Rightarrow> bool" where
  "heap_rep q e n \<longleftrightarrow>
     heap_size q = int n \<and> int n \<le> heap_capacity q \<and> 1 \<le> heap_capacity q \<and>
     length (slots q) = nat (heap_capacity q + 1) \<and>
     (\<forall>i \<in> {1..n}. slots q ! i = Some (e i)) \<and> inj_on e {1..n} \<and>
     e ` {1..n} \<subseteq> dom (cells q) \<and> (\<forall>a \<in> dom (cells q). a < next_cell q)"

text \<open>The rank of the element at an address, \<open>None\<close> for a deleted one.\<close>

definition hrank :: "('a \<Rightarrow> int) \<Rightarrow> (addr \<rightharpoonup> 'a HeapElement) \<Rightarrow> addr \<Rightarrow> int option" where
  "hrank rk cs a = (case cs a of None \<Rightarrow> None
     | Some c \<Rightarrow> if is_deleted c then None else Some (rk (he_data c)))"

text \<open>The comparator is defined on \<open>D\<close> and orders it by \<open>rk\<close>.\<close>

definition agrees :: "'a heap_cmp \<Rightarrow> ('a \<Rightarrow> int) \<Rightarrow> 'a set \<Rightarrow> bool" where
  "agrees cmp rk D \<longleftrightarrow> (\<forall>a \<in> D. \<forall>b \<in> D. \<exists>r. cmp a b = Some r \<and>
     (r > 0 \<longleftrightarrow> rk a > rk b) \<and> (r < 0 \<longleftrightarrow> rk a < rk b))"

definition live_data :: "(addr \<rightharpoonup> 'a HeapElement) \<Rightarrow> addr set \<Rightarrow> 'a set" where
  "live_data cs A = {x. \<exists>a \<in> A. cs a = Some \<lparr>he_data = x, is_deleted = False\<rparr>}"

lemma live_dataI: "cs a = Some c \<Longrightarrow> a \<in> A \<Longrightarrow> \<not> is_deleted c \<Longrightarrow> he_data c \<in> live_data cs A"
  by (cases c) (auto simp: live_data_def)

lemma agrees_mono: "agrees cmp rk D \<Longrightarrow> D' \<subseteq> D \<Longrightarrow> agrees cmp rk D'"
  by (auto simp: agrees_def)

lemma compare_rank:
  assumes "agrees cmp rk (live_data (cells q) A)" "a \<in> A" "b \<in> A" "A \<subseteq> dom (cells q)"
  shows "\<exists>r. heap_element_compare cmp q a b = Some r \<and>
    (r > 0 \<longleftrightarrow> rank_gt (hrank rk (cells q) a) (hrank rk (cells q) b)) \<and>
    (r < 0 \<longleftrightarrow> rank_gt (hrank rk (cells q) b) (hrank rk (cells q) a))"
proof -
  obtain ca cb where c: "cells q a = Some ca" "cells q b = Some cb" using assms(2-4) by blast
  show ?thesis
  proof (cases "is_deleted ca \<or> is_deleted cb")
    case True
    then show ?thesis using c by (auto simp: heap_element_compare_def hrank_def)
  next
    case False
    then have "he_data ca \<in> live_data (cells q) A" "he_data cb \<in> live_data (cells q) A"
      using c assms(2,3) by (auto intro: live_dataI)
    then obtain r where "cmp (he_data ca) (he_data cb) = Some r"
      "r > 0 \<longleftrightarrow> rk (he_data ca) > rk (he_data cb)" "r < 0 \<longleftrightarrow> rk (he_data ca) < rk (he_data cb)"
      using assms(1) unfolding agrees_def by blast
    then show ?thesis using c False by (auto simp: heap_element_compare_def hrank_def)
  qed
qed

lemma rep_slot: "heap_rep q e n \<Longrightarrow> 1 \<le> i \<Longrightarrow> i \<le> n \<Longrightarrow> slot q (int i) = Some (e i)"
  by (auto simp: heap_rep_def slot_def)

lemma swap_image:
  "i \<in> A \<Longrightarrow> j \<in> A \<Longrightarrow> (e(i := e j, j := e i)) ` A = e ` A"
  by (auto simp: image_iff)

lemma swap_inj:
  assumes "inj_on e A" "finite A" "i \<in> A" "j \<in> A"
  shows "inj_on (e(i := e j, j := e i)) A"
proof (rule eq_card_imp_inj_on[OF assms(2)])
  show "card (e(i := e j, j := e i) ` A) = card A"
    unfolding swap_image[OF assms(3,4)] by (rule card_image[OF assms(1)])
qed

lemma rep_swap:
  assumes rep: "heap_rep q e n" and i: "i \<in> {1..n}" and j: "j \<in> {1..n}"
  shows "\<exists>q'. swap_slots (int i) (int j) q = Some q' \<and> heap_rep q' (e(i := e j, j := e i)) n \<and>
    q' = q\<lparr>slots := slots q'\<rparr>"
proof -
  let ?e = "e(i := e j, j := e i)"
  let ?q = "q\<lparr>slots := (slots q)[i := Some (e j), j := Some (e i)]\<rparr>"
  have len: "i < length (slots q)" "j < length (slots q)" "n < length (slots q)"
    using assms by (auto simp: heap_rep_def)
  have "swap_slots (int i) (int j) q = Some ?q"
    using rep_slot[OF rep, of i] rep_slot[OF rep, of j] i j len
    by (simp add: swap_slots_def arr_set_def)
  moreover have "\<forall>k \<in> {1..n}. slots ?q ! k = Some (?e k)"
    using rep len by (auto simp: heap_rep_def nth_list_update)
  moreover have "inj_on ?e {1..n}" using rep i j by (intro swap_inj) (auto simp: heap_rep_def)
  moreover have "?e ` {1..n} = e ` {1..n}" using i j by (rule swap_image)
  ultimately show ?thesis
    using rep unfolding heap_rep_def by (intro exI[of _ ?q]) (simp del: fun_upd_apply)
qed

lemma pick_child_rank:
  assumes rep: "heap_rep q e n" and ag: "agrees cmp rk (live_data (cells q) (e ` {1..n}))"
    and "1 \<le> t" "t \<le> n" "1 \<le> c"
  shows "pick_child cmp q (int t) (int c) =
    Some (int (if c \<le> n \<and> rank_gt (hrank rk (cells q) (e t)) (hrank rk (cells q) (e c)) then c else t))"
proof (cases "c \<le> n")
  case True
  have "e ` {1..n} \<subseteq> dom (cells q)" using rep by (simp add: heap_rep_def)
  then obtain r where "heap_element_compare cmp q (e t) (e c) = Some r"
    "r > 0 \<longleftrightarrow> rank_gt (hrank rk (cells q) (e t)) (hrank rk (cells q) (e c))"
    using compare_rank[OF ag, of "e t" "e c"] assms(3-5) True by auto
  then show ?thesis
    using True rep assms(3-5) by (auto simp: pick_child_def rep_slot[OF rep] heap_rep_def)
next
  case False
  then show ?thesis using rep by (simp add: pick_child_def heap_rep_def)
qed

lemma down_loop_rep:
  assumes "heap_rep q e n" "agrees cmp rk (live_data (cells q) (e ` {1..n}))"
    and "1 \<le> u" "u \<le> n" "ordered_but (Some u) (hrank rk (cells q) \<circ> e) n"
  shows "\<exists>q' e'. down_loop cmp q (int u) = Some q' \<and> heap_rep q' e' n \<and> e' ` {1..n} = e ` {1..n} \<and>
    ordered (hrank rk (cells q) \<circ> e') n \<and> q' = q\<lparr>slots := slots q'\<rparr>"
  using assms
proof (induction "n - u" arbitrary: u q e rule: less_induct)
  case less
  let ?h = "hrank rk (cells q) \<circ> e"
  let ?t = "smaller_child ?h n u"
  note rep = less.prems(1) and u = less.prems(3,4) and ord = less.prems(5)
  note sc = smaller_child_cases[OF u(1), of ?h n]
  define t1 where "t1 = (if 2 * u \<le> n \<and> rank_gt (?h u) (?h (2 * u)) then 2 * u else u)"
  have "pick_child cmp q (int u) (int (2 * u)) = Some (int t1)"
    using pick_child_rank[OF rep less.prems(2) u, of "2 * u"] u by (simp add: t1_def)
  then have c1: "pick_child cmp q (int u) (int u * 2) = Some (int t1)" by (simp add: mult.commute)
  have "1 \<le> t1" "t1 \<le> n" using u by (auto simp: t1_def)
  then have "pick_child cmp q (int t1) (int (2 * u + 1)) = Some (int ?t)"
    using pick_child_rank[OF rep less.prems(2), of t1 "2 * u + 1"]
    by (auto simp: smaller_child_def Let_def t1_def)
  then have c2: "pick_child cmp q (int t1) (int u * 2 + 1) = Some (int ?t)"
    by (simp add: mult.commute add.commute)
  show ?case
  proof (cases "?t = u")
    case True
    then show ?thesis
      using c1 c2 down_stop[OF ord u(1) True] rep by (subst down_loop.simps) auto
  next
    case False
    have t: "?t \<le> n" "u < ?t" using sc(1) sc(2)[OF False] u(1) by auto
    obtain q1 where q1: "swap_slots (int ?t) (int u) q = Some q1"
      "heap_rep q1 (e(?t := e u, u := e ?t)) n" "q1 = q\<lparr>slots := slots q1\<rparr>"
      using rep_swap[OF rep, of ?t u] t u by auto
    let ?e = "e(?t := e u, u := e ?t)"
    have img: "?e ` {1..n} = e ` {1..n}" using t u by (intro swap_image) auto
    have cs: "cells q1 = cells q" by (subst q1(3)) simp
    have "?h(u := ?h ?t, ?t := ?h u) = hrank rk (cells q1) \<circ> ?e"
      using t by (auto simp: fun_eq_iff cs)
    then have ord1: "ordered_but (Some ?t) (hrank rk (cells q1) \<circ> ?e) n"
      using down_swap[OF ord u(1) refl False] by simp
    have ag1: "agrees cmp rk (live_data (cells q1) (?e ` {1..n}))"
      unfolding cs img by (rule less.prems(2))
    have m: "n - ?t < n - u" "1 \<le> ?t" using t u by auto
    obtain q' e' where q': "down_loop cmp q1 (int ?t) = Some q'" "heap_rep q' e' n"
      "e' ` {1..n} = ?e ` {1..n}" "ordered (hrank rk (cells q1) \<circ> e') n" "q' = q1\<lparr>slots := slots q'\<rparr>"
      using less.hyps[OF _ q1(2) ag1 _ t(1) ord1] m by blast
    have "q' = q\<lparr>slots := slots q'\<rparr>" by (subst q'(5), subst q1(3)) simp
    moreover have "down_loop cmp q (int u) = Some q'"
      using c1 c2 False q1(1) q'(1) by (subst down_loop.simps) simp
    ultimately show ?thesis using q'(2-4) unfolding img cs by blast
  qed
qed

text \<open>
  \<open>up\<close> ends in heap order when the new element is at least every live element above it, or
  when no element above it is deleted: a deleted parent stops the loop.
\<close>

lemma up_loop_rep:
  assumes "heap_rep q e n" "agrees cmp rk (live_data (cells q) (e ` {1..n}))"
    and "1 \<le> u" "u \<le> n" "ordered_above u (hrank rk (cells q) \<circ> e) n"
    and "hrank rk (cells q) (e u) \<noteq> None"
    and "(\<forall>a. anc a u \<longrightarrow> rank_le (hrank rk (cells q) (e a)) (hrank rk (cells q) (e u))) \<or>
      (\<forall>a. anc a u \<longrightarrow> hrank rk (cells q) (e a) \<noteq> None)"
  shows "\<exists>q' e'. up_loop cmp q (int u) = Some q' \<and> heap_rep q' e' n \<and> e' ` {1..n} = e ` {1..n} \<and>
    ordered (hrank rk (cells q) \<circ> e') n \<and> q' = q\<lparr>slots := slots q'\<rparr>"
  using assms
proof (induction u arbitrary: q e rule: less_induct)
  case (less u)
  let ?h = "hrank rk (cells q) \<circ> e" and ?p = "u div 2"
  note rep = less.prems(1) and u = less.prems(3,4) and ord = less.prems(5) and x = less.prems(6)
  show ?case
  proof (cases "?p = 0")
    case True
    then have "up_loop cmp q (int u) = Some q" by (subst up_loop.simps) simp
    then show ?thesis using up_stop[OF ord u(2)] True rep by auto
  next
    case p0: False
    then have p: "1 \<le> ?p" "?p \<le> n" "?p < u" using u by auto
    then have pu: "anc ?p u" by (intro anc.parent)
    have "e ` {1..n} \<subseteq> dom (cells q)" using rep by (simp add: heap_rep_def)
    then obtain r where r: "heap_element_compare cmp q (e u) (e ?p) = Some r"
      "r < 0 \<longleftrightarrow> rank_gt (?h ?p) (?h u)"
      using compare_rank[OF less.prems(2), of "e u" "e ?p"] p u by auto
    have code: "up_loop cmp q (int u) =
        (if r < 0 then do { q' \<leftarrow> swap_slots (int ?p) (int u) q; up_loop cmp q' (int ?p) } else Some q)"
    proof -
      have "int u div 2 = int ?p" "int ?p \<noteq> 0" using p0 by (simp_all add: zdiv_int)
      then show ?thesis
        using r(1) rep_slot[OF rep u] rep_slot[OF rep p(1,2)]
        by (subst up_loop.simps) (simp add: Let_def del: of_nat_eq_0_iff)
    qed
    show ?thesis
    proof (cases "r < 0")
      case False
      have "(\<exists>z. ?h ?p = Some z) \<or> (\<forall>a. anc a u \<longrightarrow> rank_le (?h a) (?h u))"
        using less.prems(7) pu by auto
      then have "ordered ?h n" using False r(2) by (intro up_stop[OF ord u(2)]) auto
      moreover have "up_loop cmp q (int u) = Some q" "q = q\<lparr>slots := slots q\<rparr>"
        using False code by simp_all
      ultimately show ?thesis using rep by blast
    next
      case True
      then have gt: "rank_gt (?h ?p) (?h u)" using r(2) by simp
      have alive: "\<forall>a. anc a u \<longrightarrow> ?h a \<noteq> None"
      proof -
        have "\<not> rank_le (?h ?p) (?h u)" using gt x by (cases "?h ?p"; cases "?h u") auto
        then show ?thesis using less.prems(7) pu by (auto simp del: not_None_eq)
      qed
      obtain q1 where q1: "swap_slots (int ?p) (int u) q = Some q1"
        "heap_rep q1 (e(?p := e u, u := e ?p)) n" "q1 = q\<lparr>slots := slots q1\<rparr>"
        using rep_swap[OF rep, of ?p u] p u by auto
      let ?e = "e(?p := e u, u := e ?p)"
      have img: "?e ` {1..n} = e ` {1..n}" using p u by (intro swap_image) auto
      have cs: "cells q1 = cells q" by (subst q1(3)) simp
      have h: "?h(?p := ?h u, u := ?h ?p) = hrank rk (cells q1) \<circ> ?e"
        by (auto simp: fun_eq_iff cs)
      have ord1: "ordered_above ?p (hrank rk (cells q1) \<circ> ?e) n"
        unfolding h[symmetric] by (rule up_swap[OF ord p(1) u(2) gt]) (use x in simp)
      have ag1: "agrees cmp rk (live_data (cells q1) (?e ` {1..n}))"
        unfolding cs img by (rule less.prems(2))
      have x1: "hrank rk (cells q1) (?e ?p) \<noteq> None" using x p by (simp add: cs)
      have al1: "\<forall>a. anc a ?p \<longrightarrow> hrank rk (cells q1) (?e a) \<noteq> None"
      proof (intro allI impI)
        fix a assume a: "anc a ?p"
        have "anc a u" by (rule anc.above[OF a])
        then have h: "?h a \<noteq> None" using alive by blast
        have "a < ?p" using anc_less[OF a] ..
        then have "a \<noteq> ?p" "a \<noteq> u" using p(3) by linarith+
        then have ea: "?e a = e a" unfolding fun_upd_apply by simp
        show "hrank rk (cells q1) (?e a) \<noteq> None" unfolding cs ea using h by simp
      qed
      obtain q' e' where q': "up_loop cmp q1 (int ?p) = Some q'" "heap_rep q' e' n"
        "e' ` {1..n} = ?e ` {1..n}" "ordered (hrank rk (cells q1) \<circ> e') n" "q' = q1\<lparr>slots := slots q'\<rparr>"
        using less.IH[OF p(3) q1(2) ag1 p(1,2) ord1 x1] al1 by blast
      have "q' = q\<lparr>slots := slots q'\<rparr>" by (subst q'(5), subst q1(3)) simp
      moreover have "up_loop cmp q (int u) = Some q'" using True q1(1) q'(1) code by simp
      ultimately show ?thesis using q'(2-4) unfolding img cs by blast
    qed
  qed
qed

lemma drop_root_rep:
  assumes rep: "heap_rep q e n" and "1 \<le> n"
    and ag: "agrees cmp rk (live_data (cells q) (e ` {1..n}))"
    and ord: "ordered (hrank rk (cells q) \<circ> e) n"
  shows "\<exists>q' e'. drop_root cmp q = Some q' \<and> heap_rep q' e' (n - 1) \<and>
    e' ` {1..n - 1} = e ` {1..n} - {e 1} \<and> ordered (hrank rk (cells q') \<circ> e') (n - 1) \<and>
    q' = q\<lparr>slots := slots q', cells := (cells q)(e 1 := None), heap_size := heap_size q - 1\<rparr>"
proof -
  let ?cs = "(cells q)(e 1 := None)" and ?e = "e(1 := e n)"
  let ?q = "q\<lparr>cells := ?cs, slots := (slots q)[1 := Some (e n)], heap_size := heap_size q - 1\<rparr>"
  have inj: "inj_on e {1..n}" and dom: "e ` {1..n} \<subseteq> dom (cells q)"
    and len: "1 < length (slots q)" "n < length (slots q)" and hs: "heap_size q = int n"
    using rep \<open>1 \<le> n\<close> by (auto simp: heap_rep_def)
  have code: "drop_root cmp q = down cmp ?q 1"
    using rep_slot[OF rep, of 1] rep_slot[OF rep, of n] \<open>1 \<le> n\<close> len
    by (simp add: drop_root_def arr_set_def hs)
  have ne: "e i \<noteq> e 1" if "i \<in> {2..n}" for i
    using inj_onD[OF inj, of i 1] that by auto
  have "?e ` {1..n - 1} = e ` {2..n}"
  proof (cases "n = 1")
    case False
    then have "{1..n - 1} = insert 1 {2..n - 1}" "{2..n} = insert n {2..n - 1}"
      using \<open>1 \<le> n\<close> by auto
    moreover have "?e ` {2..n - 1} = e ` {2..n - 1}" by (intro image_cong) auto
    ultimately show ?thesis by (metis fun_upd_same image_insert)
  qed simp
  moreover have "{1..n} = insert 1 {2..n}" using \<open>1 \<le> n\<close> by auto
  ultimately have img: "?e ` {1..n - 1} = e ` {1..n} - {e 1}" using ne by auto
  have "inj_on ?e {1..n - 1}"
  proof (rule eq_card_imp_inj_on)
    have "card (e ` {1..n} - {e 1}) = n - 1" using \<open>1 \<le> n\<close> card_image[OF inj] by simp
    then show "card (?e ` {1..n - 1}) = card {1..n - 1}" unfolding img by simp
  qed simp
  moreover have "?e ` {1..n - 1} \<subseteq> dom (cells ?q)" unfolding img using dom by auto
  moreover have "\<forall>i \<in> {1..n - 1}. slots ?q ! i = Some (?e i)"
    using rep len by (auto simp: heap_rep_def nth_list_update)
  ultimately have rep1: "heap_rep ?q ?e (n - 1)"
    using rep \<open>1 \<le> n\<close> unfolding heap_rep_def by (simp add: of_nat_diff del: fun_upd_apply)
  have h: "hrank rk ?cs (?e i) = hrank rk (cells q) (e i)" if "i \<in> {2..n}" for i
    using ne[OF that] that by (simp add: hrank_def)
  have ord1: "ordered_but (Some 1) (hrank rk ?cs \<circ> ?e) (n - 1)"
    unfolding ordered_but_def
  proof (intro allI impI)
    fix a d assume ad: "anc a d \<and> d \<le> n - 1 \<and> Some 1 \<noteq> Some a"
    then have "a \<in> {2..n}" "d \<in> {2..n}" using anc_less[of a d] by auto
    then show "rank_le ((hrank rk ?cs \<circ> ?e) a) ((hrank rk ?cs \<circ> ?e) d)"
      using ord ad h by (simp add: ordered_but_def del: fun_upd_apply)
  qed
  have "live_data ?cs A \<subseteq> live_data (cells q) A" for A by (auto simp: live_data_def split: if_splits)
  then have ag1: "agrees cmp rk (live_data (cells ?q) (?e ` {1..n - 1}))"
    unfolding img using ag by (rule_tac agrees_mono[OF ag]) (auto simp: live_data_def split: if_splits)
  show ?thesis
  proof (cases "n = 1")
    case True
    then have "drop_root cmp q = Some ?q" using code hs by (simp add: down_def)
    moreover have "ordered h 0" for h by (auto simp: ordered_but_def dest: anc_less)
    ultimately show ?thesis using rep1 img True
      by (intro exI[of _ ?q] exI[of _ ?e]) (simp del: fun_upd_apply)
  next
    case False
    then have n: "1 \<le> (1::nat)" "1 \<le> n - 1" using \<open>1 \<le> n\<close> by auto
    obtain q' e' where q': "down_loop cmp ?q (int 1) = Some q'" "heap_rep q' e' (n - 1)"
      "e' ` {1..n - 1} = ?e ` {1..n - 1}" "ordered (hrank rk (cells ?q) \<circ> e') (n - 1)"
      "q' = ?q\<lparr>slots := slots q'\<rparr>"
      using down_loop_rep[OF rep1 ag1 n] ord1 by auto
    have "cells q' = ?cs" by (subst q'(5)) simp
    moreover have "q' = q\<lparr>slots := slots q', cells := ?cs, heap_size := heap_size q - 1\<rparr>"
      by (subst q'(5)) simp
    moreover have "drop_root cmp q = Some q'" using code hs n(2) q'(1) by (simp add: down_def)
    ultimately show ?thesis using q' img by (intro exI[of _ q'] exI[of _ e']) simp
  qed
qed

text \<open>Removing deleted roots: only deleted elements are freed, and the root ends up live.\<close>

definition shrinks :: "'a LazyHeap \<Rightarrow> 'a LazyHeap \<Rightarrow> bool" where
  "shrinks q q' \<longleftrightarrow> survivor_table q' = survivor_table q \<and> next_cell q' = next_cell q \<and>
     (\<forall>a. cells q' a = cells q a \<or> cells q' a = None \<and> (\<exists>x. cells q a = Some \<lparr>he_data = x, is_deleted = True\<rparr>))"

lemma shrinks_refl [simp]: "shrinks q q"
  by (simp add: shrinks_def)

lemma shrinks_trans: "shrinks q1 q2 \<Longrightarrow> shrinks q2 q3 \<Longrightarrow> shrinks q1 q3"
  unfolding shrinks_def by (metis option.distinct(1))

lemma shrinks_live:
  "shrinks q q' \<Longrightarrow>
     cells q' a = Some \<lparr>he_data = x, is_deleted = False\<rparr> \<longleftrightarrow> cells q a = Some \<lparr>he_data = x, is_deleted = False\<rparr>"
  by (auto simp: shrinks_def dest!: spec[of _ a])

definition full_rep :: "('a \<Rightarrow> int) \<Rightarrow> 'a LazyHeap \<Rightarrow> (nat \<Rightarrow> addr) \<Rightarrow> nat \<Rightarrow> bool" where
  "full_rep rk q e n \<longleftrightarrow>
     heap_rep q e n \<and> ordered (hrank rk (cells q) \<circ> e) n \<and> dom (cells q) = e ` {1..n}"

lemma drop_root_full:
  assumes "full_rep rk q e n" "1 \<le> n" "agrees cmp rk (live_data (cells q) (dom (cells q)))"
  shows "\<exists>q' e'. drop_root cmp q = Some q' \<and> full_rep rk q' e' (n - 1) \<and>
    cells q' = (cells q)(e 1 := None) \<and> survivor_table q' = survivor_table q \<and>
    next_cell q' = next_cell q"
proof -
  obtain q' e' where q': "drop_root cmp q = Some q'" "heap_rep q' e' (n - 1)"
    "e' ` {1..n - 1} = e ` {1..n} - {e 1}" "ordered (hrank rk (cells q') \<circ> e') (n - 1)"
    and eq: "q' = q\<lparr>slots := slots q', cells := (cells q)(e 1 := None), heap_size := heap_size q - 1\<rparr>"
    using drop_root_rep[of q e n cmp rk] assms by (auto simp: full_rep_def)
  have f: "cells q' = (cells q)(e 1 := None)" "survivor_table q' = survivor_table q"
    "next_cell q' = next_cell q" by (subst eq; simp)+
  have "dom (cells q') = e' ` {1..n - 1}"
    using assms(1) q'(3) by (simp add: full_rep_def f(1))
  then have "full_rep rk q' e' (n - 1)" using q'(2,4) by (simp only: full_rep_def)
  with q'(1) f show ?thesis by blast
qed

lemma do_delete_rep:
  assumes "full_rep rk q e n" "agrees cmp rk (live_data (cells q) (dom (cells q)))"
  shows "\<exists>q' e' n'. do_delete cmp q = Some q' \<and> full_rep rk q' e' n' \<and> shrinks q q' \<and>
    (1 \<le> n' \<longrightarrow> (\<exists>x. cells q' (e' 1) = Some \<lparr>he_data = x, is_deleted = False\<rparr>))"
  using assms
proof (induction n arbitrary: q e)
  case 0
  then have "do_delete cmp q = Some q"
    by (subst do_delete.simps) (simp add: full_rep_def heap_rep_def)
  then show ?case using 0 by (intro exI[of _ q] exI[of _ e] exI[of _ 0]) simp
next
  case (Suc n)
  have rep: "heap_rep q e (Suc n)" and dom: "dom (cells q) = e ` {1..Suc n}"
    using Suc.prems(1) by (auto simp: full_rep_def)
  then have "e 1 \<in> dom (cells q)" by auto
  then obtain c where c: "cells q (e 1) = Some c" by blast
  have code: "do_delete cmp q =
      (if is_deleted c then do { q' \<leftarrow> drop_root cmp q; do_delete cmp q' } else Some q)"
    using rep_slot[OF rep, of 1] rep c by (subst do_delete.simps) (simp add: heap_rep_def)
  show ?case
  proof (cases "is_deleted c")
    case False
    then have "cells q (e 1) = Some \<lparr>he_data = he_data c, is_deleted = False\<rparr>" using c by (cases c) auto
    then show ?thesis using Suc.prems code False
      by (intro exI[of _ q] exI[of _ e] exI[of _ "Suc n"]) simp
  next
    case True
    obtain q1 e1 where q1: "drop_root cmp q = Some q1" "full_rep rk q1 e1 n"
      "cells q1 = (cells q)(e 1 := None)" "survivor_table q1 = survivor_table q"
      "next_cell q1 = next_cell q"
      using drop_root_full[OF Suc.prems(1) _ Suc.prems(2)] by auto
    have "live_data (cells q1) (dom (cells q1)) \<subseteq> live_data (cells q) (dom (cells q))"
      using q1(3) by (auto simp: live_data_def split: if_splits)
    then have ag: "agrees cmp rk (live_data (cells q1) (dom (cells q1)))"
      using Suc.prems(2) agrees_mono by blast
    obtain q' e' n' where q': "do_delete cmp q1 = Some q'" "full_rep rk q' e' n'" "shrinks q1 q'"
      "1 \<le> n' \<longrightarrow> (\<exists>x. cells q' (e' 1) = Some \<lparr>he_data = x, is_deleted = False\<rparr>)"
      using Suc.IH[OF q1(2) ag] by blast
    have "c = \<lparr>he_data = he_data c, is_deleted = True\<rparr>" using True by (cases c) simp
    then have "shrinks q q1" using q1 c by (auto simp: shrinks_def)
    then have "shrinks q q'" using q'(3) shrinks_trans by blast
    moreover have "do_delete cmp q = Some q'" using code True q1(1) q'(1) by simp
    ultimately show ?thesis using q'(2,4) by blast
  qed
qed

section \<open>The queue as a keyed collection\<close>

text \<open>
  The live elements are exactly those the table knows, each under one key. \<open>hview\<close> is the
  partial function from keys to the data of their live element.
\<close>

definition table_rep :: "'a LazyHeap \<Rightarrow> bool" where
  "table_rep q \<longleftrightarrow>
     hm_inv (survivor_table q) \<and> inj_on (hm_map (survivor_table q)) (dom (hm_map (survivor_table q))) \<and>
     ran (hm_map (survivor_table q)) =
       {a. \<exists>x. cells q a = Some \<lparr>he_data = x, is_deleted = False\<rparr>}"

definition heap_inv :: "('a \<Rightarrow> int) \<Rightarrow> 'a LazyHeap option \<Rightarrow> bool" where
  "heap_inv rk p \<longleftrightarrow> (case p of None \<Rightarrow> False
     | Some q \<Rightarrow> table_rep q \<and> (\<exists>e n. full_rep rk q e n))"

fun hview :: "'a LazyHeap option \<Rightarrow> uint64_t \<Rightarrow> 'a option" where
  "hview None k = None"
| "hview (Some q) k =
     (case hm_map (survivor_table q) k of None \<Rightarrow> None | Some a \<Rightarrow> map_option he_data (cells q a))"

lemma heap_invE:
  assumes "heap_inv rk p"
  obtains q e n where "p = Some q" "table_rep q" "full_rep rk q e n"
  using assms by (auto simp: heap_inv_def split: option.splits)

lemma heap_invI: "table_rep q \<Longrightarrow> full_rep rk q e n \<Longrightarrow> heap_inv rk (Some q)"
  by (auto simp: heap_inv_def)

lemma table_cell:
  assumes "table_rep q" "hm_map (survivor_table q) k = Some a"
  shows "\<exists>x. cells q a = Some \<lparr>he_data = x, is_deleted = False\<rparr> \<and> hview (Some q) k = Some x"
proof -
  have "a \<in> ran (hm_map (survivor_table q))" using assms(2) by (auto simp: ran_def)
  then show ?thesis using assms by (auto simp: table_rep_def)
qed

lemma live_view: "table_rep q \<Longrightarrow> live_data (cells q) (dom (cells q)) = ran (hview (Some q))"
proof
  assume t: "table_rep q"
  show "live_data (cells q) (dom (cells q)) \<subseteq> ran (hview (Some q))"
  proof
    fix x assume "x \<in> live_data (cells q) (dom (cells q))"
    then obtain a where a: "cells q a = Some \<lparr>he_data = x, is_deleted = False\<rparr>"
      by (auto simp: live_data_def)
    then have "a \<in> ran (hm_map (survivor_table q))" using t by (auto simp: table_rep_def)
    then obtain k where "hm_map (survivor_table q) k = Some a" by (auto simp: ran_def)
    with a have "hview (Some q) k = Some x" by simp
    then show "x \<in> ran (hview (Some q))" by (auto simp: ran_def)
  qed
  show "ran (hview (Some q)) \<subseteq> live_data (cells q) (dom (cells q))"
  proof
    fix x assume "x \<in> ran (hview (Some q))"
    then obtain k a where k: "hm_map (survivor_table q) k = Some a" "hview (Some q) k = Some x"
      by (auto simp: ran_def split: option.splits)
    from table_cell[OF t k(1)] k(2) show "x \<in> live_data (cells q) (dom (cells q))"
      by (auto simp: live_data_def)
  qed
qed

lemma shrinks_table:
  assumes "shrinks q q'" "table_rep q"
  shows "table_rep q'" "hview (Some q') = hview (Some q)"
proof -
  have t: "survivor_table q' = survivor_table q" using assms(1) by (simp add: shrinks_def)
  show "table_rep q'" using assms(2) by (simp add: table_rep_def t shrinks_live[OF assms(1)])
  show "hview (Some q') = hview (Some q)"
  proof
    fix k
    show "hview (Some q') k = hview (Some q) k"
    proof (cases "hm_map (survivor_table q) k")
      case (Some a)
      then obtain x where "cells q a = Some \<lparr>he_data = x, is_deleted = False\<rparr>"
        using table_cell[OF assms(2)] by blast
      moreover then have "cells q' a = Some \<lparr>he_data = x, is_deleted = False\<rparr>"
        by (simp add: shrinks_live[OF assms(1)])
      ultimately show ?thesis using Some by (simp add: t)
    qed (simp add: t)
  qed
qed

definition no_marks :: "'a LazyHeap option \<Rightarrow> bool" where
  "no_marks p \<longleftrightarrow> (case p of None \<Rightarrow> True | Some q \<Rightarrow> \<forall>a c. cells q a = Some c \<longrightarrow> \<not> is_deleted c)"

lemma shrinks_no_marks: "shrinks q q' \<Longrightarrow> no_marks (Some q) \<Longrightarrow> no_marks (Some q')"
  by (auto simp: shrinks_def no_marks_def) (metis option.distinct(1))

lemma peek_rep:
  assumes inv: "heap_inv rk p" and ag: "agrees cmp rk (ran (hview p))"
  shows "\<exists>r p'. lazy_heap_peek cmp p = Some (r, p') \<and> heap_inv rk p' \<and> hview p' = hview p \<and>
    (no_marks p \<longrightarrow> no_marks p') \<and>
    (case r of None \<Rightarrow> hview p = Map.empty
     | Some x \<Rightarrow> x \<in> ran (hview p) \<and> (\<forall>y \<in> ran (hview p). rk x \<le> rk y))"
proof -
  obtain q e n where q: "p = Some q" "table_rep q" "full_rep rk q e n" using inv by (rule heap_invE)
  have ag': "agrees cmp rk (live_data (cells q) (dom (cells q)))"
    using ag by (simp only: live_view[OF q(2)] q(1))
  obtain q' e' n' where q': "do_delete cmp q = Some q'" "full_rep rk q' e' n'" "shrinks q q'"
    "1 \<le> n' \<longrightarrow> (\<exists>x. cells q' (e' 1) = Some \<lparr>he_data = x, is_deleted = False\<rparr>)"
    using do_delete_rep[OF q(3) ag'] by blast
  note sh = shrinks_table[OF q'(3) q(2)]
  have nm: "no_marks p \<longrightarrow> no_marks (Some q')" using shrinks_no_marks[OF q'(3)] q(1) by simp
  have rep': "heap_rep q' e' n'" and dom': "dom (cells q') = e' ` {1..n'}"
    and ord': "ordered (hrank rk (cells q') \<circ> e') n'" using q'(2) by (auto simp: full_rep_def)
  have hs: "heap_size q' = int n'" using rep' by (simp add: heap_rep_def)
  have ran: "ran (hview p) = live_data (cells q') (dom (cells q'))"
    unfolding live_view[OF sh(1)] sh(2) q(1) ..
  have empty: "hview p = Map.empty" if "dom (cells q') = {}"
    using that ran by (auto simp: live_data_def ran_def fun_eq_iff) (metis not_None_eq)
  show ?thesis
  proof (cases "n' = 0")
    case True
    then have e: "hview p = Map.empty" using empty dom' by simp
    show ?thesis
    proof (cases "heap_size q = 0")
      case True
      then show ?thesis using q e inv by auto
    next
      case False
      then have "lazy_heap_peek cmp p = Some (None, Some q')" using q'(1) q(1) hs \<open>n' = 0\<close> by simp
      then show ?thesis using e heap_invI[OF sh(1) q'(2)] sh(2) q(1) nm by auto
    qed
  next
    case False
    then obtain x where x: "cells q' (e' 1) = Some \<lparr>he_data = x, is_deleted = False\<rparr>" using q'(4) by auto
    have "heap_size q \<noteq> 0"
    proof
      assume "heap_size q = 0"
      then have "do_delete cmp q = Some q" by (subst do_delete.simps) simp
      then show False using q'(1) hs \<open>heap_size q = 0\<close> False by simp
    qed
    then have "lazy_heap_peek cmp p = Some (Some x, Some q')"
      using q(1) q'(1) hs False x rep_slot[OF rep', of 1] by simp
    moreover have "x \<in> ran (hview p)" using x unfolding ran by (auto simp: live_data_def)
    moreover have "\<forall>y \<in> ran (hview p). rk x \<le> rk y"
    proof
      fix y assume "y \<in> ran (hview p)"
      then obtain i where i: "i \<in> {1..n'}" "cells q' (e' i) = Some \<lparr>he_data = y, is_deleted = False\<rparr>"
        unfolding ran dom' by (auto simp: live_data_def)
      then show "rk x \<le> rk y"
        using ordered_root[OF ord', of "rk x" i "rk y"] x by (simp add: hrank_def)
    qed
    ultimately show ?thesis using heap_invI[OF sh(1) q'(2)] sh(2) q(1) nm by auto
  qed
qed

lemma grow_rep:
  assumes "heap_rep q e n"
  shows "heap_rep (priority_queue_grow q (int n + 1)) e n"
    "int n + 1 \<le> heap_capacity (priority_queue_grow q (int n + 1))"
    "cells (priority_queue_grow q m) = cells q"
    "survivor_table (priority_queue_grow q m) = survivor_table q"
    "next_cell (priority_queue_grow q m) = next_cell q"
    "heap_size (priority_queue_grow q m) = heap_size q"
proof -
  have cap: "1 \<le> heap_capacity q" "n < length (slots q)" using assms by (auto simp: heap_rep_def)
  note b = grow_capacity_bounds[of "heap_capacity q" "int n + 1"]
  show "heap_rep (priority_queue_grow q (int n + 1)) e n"
    using assms b cap by (auto simp: heap_rep_def priority_queue_grow_def Let_def nth_append)
  show "int n + 1 \<le> heap_capacity (priority_queue_grow q (int n + 1))"
    using b cap by (auto simp: priority_queue_grow_def Let_def)
qed (simp_all add: priority_queue_grow_def Let_def)

text \<open>The state in which \<open>lazy_heap_add\<close> calls \<open>up\<close>.\<close>

lemma appended_rep:
  fixes q :: "'a LazyHeap" and x :: 'a and t :: "(uint64_t, addr) HashMap option"
  assumes full: "full_rep rk q e n" and cap: "int n + 1 \<le> heap_capacity q"
  defines "a \<equiv> next_cell q"
  defines "q2 \<equiv> q\<lparr>heap_size := int n + 1, next_cell := a + 1,
      cells := (cells q)(a \<mapsto> \<lparr>he_data = x, is_deleted = False\<rparr>),
      slots := (slots q)[n + 1 := Some a], survivor_table := t\<rparr>"
  shows "heap_rep q2 (e(n + 1 := a)) (n + 1)"
    "dom (cells q2) = (e(n + 1 := a)) ` {1..n + 1}"
    "ordered_above (n + 1) (hrank rk (cells q2) \<circ> e(n + 1 := a)) (n + 1)"
    "i \<in> {1..n} \<Longrightarrow> hrank rk (cells q2) ((e(n + 1 := a)) i) = hrank rk (cells q) (e i)"
    "hrank rk (cells q2) a = Some (rk x)" "a \<notin> dom (cells q)"
proof -
  let ?e = "e(n + 1 := a)"
  have rep: "heap_rep q e n" and ord: "ordered (hrank rk (cells q) \<circ> e) n"
    and dom: "dom (cells q) = e ` {1..n}" using full by (auto simp: full_rep_def)
  show fresh: "a \<notin> dom (cells q)" using rep by (auto simp: heap_rep_def a_def)
  have img: "?e ` {1..n + 1} = insert a (e ` {1..n})"
  proof -
    have "{1..n + 1} = insert (n + 1) {1..n}" by auto
    moreover have "?e ` {1..n} = e ` {1..n}" by (intro image_cong) auto
    ultimately show ?thesis by (metis fun_upd_same image_insert)
  qed
  then show d: "dom (cells q2) = ?e ` {1..n + 1}" using dom by (simp add: q2_def)
  have "inj_on ?e {1..n + 1}"
  proof (rule eq_card_imp_inj_on)
    have "card (e ` {1..n}) = n" using rep card_image by (fastforce simp: heap_rep_def)
    then show "card (?e ` {1..n + 1}) = card {1..n + 1}"
      unfolding img using fresh dom by simp
  qed simp
  moreover have "\<forall>i \<in> {1..n + 1}. slots q2 ! i = Some (?e i)"
    using rep cap by (auto simp: heap_rep_def q2_def nth_list_update)
  moreover have "\<forall>b \<in> dom (cells q2). b < next_cell q2"
    using rep by (auto simp: heap_rep_def q2_def a_def less_Suc_eq)
  moreover have "heap_size q2 = int (n + 1)" "heap_capacity q2 = heap_capacity q"
    "length (slots q2) = length (slots q)" by (simp_all add: q2_def)
  ultimately show "heap_rep q2 ?e (n + 1)"
    using rep cap d unfolding heap_rep_def by (simp del: fun_upd_apply)
  show old: "hrank rk (cells q2) (?e i) = hrank rk (cells q) (e i)" if "i \<in> {1..n}" for i
  proof -
    have "e i \<noteq> a" using fresh that dom by auto
    then show ?thesis using that by (simp add: hrank_def q2_def)
  qed
  show "hrank rk (cells q2) a = Some (rk x)" by (simp add: hrank_def q2_def)
  show "ordered_above (n + 1) (hrank rk (cells q2) \<circ> ?e) (n + 1)"
    unfolding ordered_above_def
  proof (intro allI impI)
    fix b d assume bd: "anc b d \<and> d \<le> n + 1 \<and> d \<noteq> n + 1"
    then have "b \<in> {1..n}" "d \<in> {1..n}" using anc_less[of b d] by auto
    then show "rank_le ((hrank rk (cells q2) \<circ> ?e) b) ((hrank rk (cells q2) \<circ> ?e) d)"
      using ord bd old by (simp add: ordered_but_def del: fun_upd_apply)
  qed
qed

lemma add_rep:
  assumes inv: "heap_inv rk p" and new: "hview p k = None"
    and ag: "agrees cmp rk (insert x (ran (hview p)))"
    and late: "(\<forall>y \<in> ran (hview p). rk y \<le> rk x) \<or> no_marks p"
  shows "\<exists>p'. lazy_heap_add cmp p k x = Some p' \<and> heap_inv rk p' \<and> hview p' = (hview p)(k \<mapsto> x) \<and>
    (no_marks p \<longrightarrow> no_marks p')"
proof -
  obtain q0 e n where q0: "p = Some q0" "table_rep q0" "full_rep rk q0 e n" using inv by (rule heap_invE)
  define q where "q = priority_queue_grow q0 (int n + 1)"
  have rep0: "heap_rep q0 e n" using q0(3) by (simp add: full_rep_def)
  note g = grow_rep(1,2)[OF rep0, folded q_def] grow_rep(3-6)[OF rep0, of "int n + 1", folded q_def]
  have full: "full_rep rk q e n" and cap: "int n + 1 \<le> heap_capacity q"
    using q0(3) g by (simp_all add: full_rep_def)
  define a where "a = next_cell q"
  have tr: "table_rep q" using q0(2) g by (simp add: table_rep_def)
  have v: "hview (Some q) = hview p" unfolding q0(1) by (rule ext) (simp add: g(3,4) split: option.split)
  have nk: "hm_map (survivor_table q) k = None"
  proof (rule ccontr)
    assume "hm_map (survivor_table q) k \<noteq> None"
    then obtain b where "hm_map (survivor_table q) k = Some b" by auto
    from table_cell[OF tr this] new v show False by auto
  qed
  obtain t where t: "hash_map_put (survivor_table q) k a = Some (0, t)" "hm_inv t"
    "hm_map t = (hm_map (survivor_table q))(k \<mapsto> a)"
    using hmap.put_law[of "survivor_table q" k a] tr nk by (auto simp: table_rep_def)
  let ?q = "q\<lparr>heap_size := int n + 1, next_cell := a + 1,
      cells := (cells q)(a \<mapsto> \<lparr>he_data = x, is_deleted = False\<rparr>),
      slots := (slots q)[n + 1 := Some a], survivor_table := t\<rparr>"
  let ?e = "e(n + 1 := a)"
  note ap = appended_rep(1-5)[OF full cap, where x = x and t = t, folded a_def]
    appended_rep(6)[OF full cap, folded a_def]
  have tr2: "table_rep ?q"
  proof -
    have "inj_on (hm_map t) (dom (hm_map t))"
      using tr ap(6) unfolding table_rep_def t(3) inj_on_def by (auto simp: ran_def)
    moreover have "ran (hm_map t) = insert a (ran (hm_map (survivor_table q)))"
      using nk unfolding t(3) by simp
    ultimately show ?thesis using tr t(2) ap(6) by (auto simp: table_rep_def)
  qed
  have v2: "hview (Some ?q) = (hview p)(k \<mapsto> x)"
  proof
    fix k'
    show "hview (Some ?q) k' = ((hview p)(k \<mapsto> x)) k'"
      using table_cell[OF tr, of k'] ap(6) unfolding v[symmetric]
      by (cases "hm_map (survivor_table q) k'") (auto simp: t(3))
  qed
  have live2: "live_data (cells ?q) (dom (cells ?q)) \<subseteq> insert x (ran (hview p))"
    unfolding live_view[OF tr2] v2 by (auto simp: ran_def)
  have ag2: "agrees cmp rk (live_data (cells ?q) (?e ` {1..n + 1}))"
    using agrees_mono[OF ag live2] ap(2) by simp
  have top: "hrank rk (cells ?q) (?e (n + 1)) = Some (rk x)" using ap(5) by simp
  have cond: "(\<forall>b. anc b (n + 1) \<longrightarrow> rank_le (hrank rk (cells ?q) (?e b)) (hrank rk (cells ?q) (?e (n + 1)))) \<or>
      (\<forall>b. anc b (n + 1) \<longrightarrow> hrank rk (cells ?q) (?e b) \<noteq> None)"
  proof -
    have b: "b \<in> {1..n}" "hrank rk (cells ?q) (?e b) = hrank rk (cells q) (e b)" if "anc b (n + 1)" for b
    proof -
      show "b \<in> {1..n}" using anc_less[OF that] by auto
      then show "hrank rk (cells ?q) (?e b) = hrank rk (cells q) (e b)" by (rule ap(4))
    qed
    have mem: "\<exists>c. cells q (e b) = Some c" if "b \<in> {1..n}" for b
      using full that by (auto simp: full_rep_def)
    from late show ?thesis
    proof
      assume late: "\<forall>y \<in> ran (hview p). rk y \<le> rk x"
      have "rank_le (hrank rk (cells q) (e b)) (Some (rk x))" if bn: "b \<in> {1..n}" for b
      proof -
        obtain c where c: "cells q (e b) = Some c" using mem[OF bn] by blast
        show ?thesis
        proof (cases "is_deleted c")
          case False
          have "he_data c \<in> live_data (cells q) (dom (cells q))"
            by (rule live_dataI[where cs = "cells q", OF c _ False]) (use c in auto)
          then have "rk (he_data c) \<le> rk x" using late live_view[OF tr] v by simp
          then show ?thesis using c False by (simp add: hrank_def)
        qed (simp add: hrank_def c)
      qed
      then show ?thesis unfolding top using b by auto
    next
      assume "no_marks p"
      then have "hrank rk (cells q) (e b) \<noteq> None" if "b \<in> {1..n}" for b
        using mem[OF that] g q0(1) by (auto simp: no_marks_def hrank_def)
      then show ?thesis using b by auto
    qed
  qed
  obtain q' e' where q': "up_loop cmp ?q (int (n + 1)) = Some q'" "heap_rep q' e' (n + 1)"
    "e' ` {1..n + 1} = ?e ` {1..n + 1}" "ordered (hrank rk (cells ?q) \<circ> e') (n + 1)"
    and eq: "q' = ?q\<lparr>slots := slots q'\<rparr>"
    using up_loop_rep[OF ap(1) ag2 _ _ ap(3) _ cond] top by auto
  have f: "cells q' = cells ?q" "survivor_table q' = survivor_table ?q" by (subst eq; simp)+
  have "full_rep rk q' e' (n + 1)"
    unfolding full_rep_def f(1) using q' ap(2) by simp
  moreover have "table_rep q'" using tr2 unfolding table_rep_def f by simp
  moreover have "hview (Some q') = (hview p)(k \<mapsto> x)"
    unfolding v2[symmetric] by (rule ext) (simp add: f split: option.split)
  moreover have "no_marks p \<longrightarrow> no_marks (Some q')"
    using g(3) q0(1) by (auto simp: no_marks_def f)
  moreover have "lazy_heap_add cmp p k x = Some (Some q')"
  proof -
    have hs: "heap_size q0 = int n" "n + 1 < length (slots q)"
      using rep0 full cap by (auto simp: heap_rep_def full_rep_def)
    have up: "up cmp ?q (int n + 1) = Some q'"
      using q'(1) by (simp add: up_def add.commute)
    have set: "arr_set (slots q) (int n + 1) (Some a) = Some ((slots q)[n + 1 := Some a])"
      using hs(2) by (simp add: arr_set_def nat_add_distrib)
    show ?thesis
      using g t(1) set up hs(1) by (simp add: q0(1) q_def[symmetric] a_def Let_def)
  qed
  ultimately show ?thesis using heap_invI by blast
qed

lemma remove_heap_rep:
  assumes inv: "heap_inv rk p"
  shows "\<exists>p'. lazy_heap_remove p k = Some p' \<and> heap_inv rk p' \<and> hview p' = (hview p)(k := None)"
proof -
  obtain q e n where q: "p = Some q" "table_rep q" "full_rep rk q e n" using inv by (rule heap_invE)
  let ?T = "hm_map (survivor_table q)"
  have ti: "hm_inv (survivor_table q)" using q(2) by (simp add: table_rep_def)
  show ?thesis
  proof (cases "?T k")
    case None
    then have "lazy_heap_remove p k = Some p" by (simp add: q(1) hmap.get_law[OF ti])
    moreover have "hview p k = None" using None by (simp add: q(1))
    ultimately show ?thesis using inv by (simp add: fun_upd_idem)
  next
    case (Some a)
    obtain x where x: "cells q a = Some \<lparr>he_data = x, is_deleted = False\<rparr>"
      using table_cell[OF q(2) Some] by blast
    obtain t where t: "hash_map_remove (survivor_table q) k = Some t" "hm_inv t" "hm_map t = ?T(k := None)"
      using hmap.remove_law[OF ti] by blast
    let ?cs = "(cells q)(a \<mapsto> \<lparr>he_data = x, is_deleted = True\<rparr>)"
    let ?q = "q\<lparr>cells := ?cs, survivor_table := t\<rparr>"
    have code: "lazy_heap_remove p k = Some (Some ?q)"
      using Some x t(1) by (simp add: q(1) hmap.get_law[OF ti])
    have inj: "inj_on ?T (dom ?T)" and ran: "ran ?T = {a. \<exists>x. cells q a = Some \<lparr>he_data = x, is_deleted = False\<rparr>}"
      using q(2) by (auto simp: table_rep_def)
    have other: "?T k' \<noteq> Some a" if "k' \<noteq> k" for k'
      using inj Some that by (auto simp: inj_on_def dom_def)
    have "ran (hm_map t) = ran ?T - {a}"
      unfolding t(3) using other Some by (auto simp: ran_def) (metis option.inject)
    moreover have "inj_on (hm_map t) (dom (hm_map t))"
      using inj unfolding t(3) by (auto simp: inj_on_def dom_def)
    ultimately have "table_rep ?q"
      using t(2) by (auto simp: table_rep_def ran)
    moreover have "full_rep rk ?q e n"
    proof -
      have rep: "heap_rep q e n" and ord: "ordered (hrank rk (cells q) \<circ> e) n"
        and dom: "dom (cells q) = e ` {1..n}" using q(3) by (auto simp: full_rep_def)
      have "rank_le (hrank rk ?cs b) (hrank rk ?cs c)" if "rank_le (hrank rk (cells q) b) (hrank rk (cells q) c)" for b c
        using that by (simp add: hrank_def)
      then have "ordered (hrank rk ?cs \<circ> e) n" using ord by (simp add: ordered_but_def)
      moreover have "dom ?cs = dom (cells q)" using x by auto
      ultimately show ?thesis using rep dom by (simp add: full_rep_def heap_rep_def)
    qed
    moreover have "hview (Some ?q) = (hview p)(k := None)"
    proof
      fix k'
      show "hview (Some ?q) k' = ((hview p)(k := None)) k'"
        using other[of k'] by (auto simp: q(1) t(3) split: option.split)
    qed
    ultimately show ?thesis using code heap_invI by blast
  qed
qed

text \<open>
  After a peek the root is live, so removing another key and peeking again returns it without
  calling the comparator.
\<close>

lemma live_root_peek:
  assumes "slot q 1 = Some a" "cells q a = Some \<lparr>he_data = x, is_deleted = False\<rparr>" "heap_size q \<noteq> 0"
  shows "lazy_heap_peek cmp (Some q) = Some (Some x, Some q)"
proof -
  have "do_delete cmp q = Some q" using assms by (subst do_delete.simps) simp
  then show ?thesis using assms by simp
qed

lemma peek_again:
  assumes inv: "heap_inv rk p" and ag: "agrees cmp rk (ran (hview p))"
    and peek: "lazy_heap_peek cmp p = Some (Some x, p1)" and other: "hview p1 k \<noteq> Some x"
  shows "\<exists>p2. lazy_heap_remove p1 k = Some p2 \<and> (\<forall>cmp'. lazy_heap_peek cmp' p2 = Some (Some x, p2))"
proof -
  obtain q e n where q: "p = Some q" "table_rep q" "full_rep rk q e n" using inv by (rule heap_invE)
  have ag': "agrees cmp rk (live_data (cells q) (dom (cells q)))"
    using ag by (simp only: live_view[OF q(2)] q(1))
  obtain q' e' n' where q': "do_delete cmp q = Some q'" "full_rep rk q' e' n'" "shrinks q q'"
    "1 \<le> n' \<longrightarrow> (\<exists>x. cells q' (e' 1) = Some \<lparr>he_data = x, is_deleted = False\<rparr>)"
    using do_delete_rep[OF q(3) ag'] by blast
  have rep': "heap_rep q' e' n'" and hs: "heap_size q' = int n'" using q'(2) by (auto simp: full_rep_def heap_rep_def)
  have "n' \<noteq> 0" using peek q(1) q'(1) hs by (auto split: if_splits)
  then obtain y where y: "cells q' (e' 1) = Some \<lparr>he_data = y, is_deleted = False\<rparr>" using q'(4) by auto
  have s1: "slot q' 1 = Some (e' 1)" using rep_slot[OF rep', of 1] \<open>n' \<noteq> 0\<close> by simp
  have p1: "p1 = Some q'" "y = x" using peek q(1) q'(1) hs \<open>n' \<noteq> 0\<close> s1 y by (auto split: if_splits)
  have t: "table_rep q'" by (rule shrinks_table(1)[OF q'(3) q(2)])
  then have ti: "hm_inv (survivor_table q')" by (simp add: table_rep_def)
  show ?thesis
  proof (cases "hm_map (survivor_table q') k")
    case None
    then have "lazy_heap_remove p1 k = Some (Some q')" by (simp add: p1(1) hmap.get_law[OF ti])
    then show ?thesis using live_root_peek[OF s1 y] hs \<open>n' \<noteq> 0\<close> p1(2) by auto
  next
    case (Some a)
    obtain z where z: "cells q' a = Some \<lparr>he_data = z, is_deleted = False\<rparr>" "hview (Some q') k = Some z"
      using table_cell[OF t Some] by blast
    then have ne: "a \<noteq> e' 1" using other y p1 by auto
    obtain tb where tb: "hash_map_remove (survivor_table q') k = Some tb" using hmap.remove_law[OF ti] by blast
    let ?q = "q'\<lparr>cells := (cells q')(a \<mapsto> \<lparr>he_data = z, is_deleted = True\<rparr>), survivor_table := tb\<rparr>"
    have "lazy_heap_remove p1 k = Some (Some ?q)"
      using Some z(1) tb by (simp add: p1(1) hmap.get_law[OF ti])
    moreover have "lazy_heap_peek cmp' (Some ?q) = Some (Some x, Some ?q)" for cmp'
      by (rule live_root_peek[where a = "e' 1"]) (use s1 y ne hs \<open>n' \<noteq> 0\<close> p1(2) in \<open>auto simp: slot_def\<close>)
    ultimately show ?thesis by blast
  qed
qed

lemma create_heap_rep:
  "\<exists>p. lazy_heap_create = Some p \<and> heap_inv rk p \<and> hview p = Map.empty \<and> no_marks p"
proof -
  obtain t :: "(uint64_t, addr) HashMap" where t:
    "hash_map_create (Some hash_func_uint64) (Some compare_uint) = Some (Some t)" "hm_rep t"
    "hm_map (Some t) = Map.empty"
    using create_hm_rep[of compare_uint hash_func_uint64] compare_uint_zero by blast
  let ?q = "\<lparr>cells = Map.empty, next_cell = 0, slots = replicate 17 None, survivor_table = Some t,
      heap_size = 0, heap_capacity = 16\<rparr> :: 'a LazyHeap"
  have "table_rep ?q" using t by (simp add: table_rep_def hm_inv_def)
  moreover have "full_rep rk ?q (\<lambda>_. 0) 0"
    by (auto simp: full_rep_def heap_rep_def ordered_but_def dest: anc_less)
  ultimately have "heap_inv rk (Some ?q)" by (rule heap_invI)
  moreover have "hview (Some ?q) = Map.empty" using t(3) by (simp add: fun_eq_iff)
  moreover have "lazy_heap_create = Some (Some ?q)" using t(1) by (simp add: lazy_heap_create_def)
  ultimately show ?thesis by (intro exI[of _ "Some ?q"]) (simp add: no_marks_def)
qed

text \<open>The rank is read through the data, so it may change for data that is not live.\<close>

lemma rerank_rep:
  assumes inv: "heap_inv rk p" and same: "\<forall>x \<in> ran (hview p). rk' x = rk x"
  shows "heap_inv rk' p"
proof -
  obtain q e n where q: "p = Some q" "table_rep q" "full_rep rk q e n" using inv by (rule heap_invE)
  have "hrank rk' (cells q) a = hrank rk (cells q) a" for a
  proof (cases "cells q a")
    case (Some c)
    show ?thesis
    proof (cases "is_deleted c")
      case False
      then have "he_data c \<in> live_data (cells q) (dom (cells q))"
        using Some by (intro live_dataI[where cs = "cells q", OF Some]) auto
      then show ?thesis using same Some by (simp add: live_view[OF q(2)] q(1) hrank_def)
    qed (simp add: hrank_def Some)
  qed (simp add: hrank_def)
  then have "hrank rk' (cells q) = hrank rk (cells q)" by (rule ext)
  then have "full_rep rk' q e n" using q(3) by (simp add: full_rep_def)
  then show ?thesis using heap_invI[OF q(2)] q(1) by simp
qed

section \<open>Interface\<close>

text \<open>
  A queue of keyed elements whose least element can be read and whose elements can be
  removed by key. Elements must arrive in the order of their ranks, as timeouts do.
\<close>

locale timeout_queue =
  fixes inv :: "('a \<Rightarrow> int) \<Rightarrow> 'q \<Rightarrow> bool"
    and view :: "'q \<Rightarrow> 'k \<Rightarrow> 'a option"
    and add :: "('a \<Rightarrow> 'a \<Rightarrow> int option) \<Rightarrow> 'q \<Rightarrow> 'k \<Rightarrow> 'a \<Rightarrow> 'q option"
    and peek :: "('a \<Rightarrow> 'a \<Rightarrow> int option) \<Rightarrow> 'q \<Rightarrow> ('a option \<times> 'q) option"
    and remove :: "'q \<Rightarrow> 'k \<Rightarrow> 'q option"
  assumes add_law: "inv rk q \<Longrightarrow> view q k = None \<Longrightarrow> agrees cmp rk (insert x (ran (view q))) \<Longrightarrow>
      \<forall>y \<in> ran (view q). rk y \<le> rk x \<Longrightarrow>
      \<exists>q'. add cmp q k x = Some q' \<and> inv rk q' \<and> view q' = (view q)(k \<mapsto> x)"
    and peek_law: "inv rk q \<Longrightarrow> agrees cmp rk (ran (view q)) \<Longrightarrow>
      \<exists>r q'. peek cmp q = Some (r, q') \<and> inv rk q' \<and> view q' = view q \<and>
        (case r of None \<Rightarrow> view q = Map.empty
         | Some x \<Rightarrow> x \<in> ran (view q) \<and> (\<forall>y \<in> ran (view q). rk x \<le> rk y))"
    and remove_law: "inv rk q \<Longrightarrow>
      \<exists>q'. remove q k = Some q' \<and> inv rk q' \<and> view q' = (view q)(k := None)"
    and rerank_law: "inv rk q \<Longrightarrow> \<forall>x \<in> ran (view q). rk' x = rk x \<Longrightarrow> inv rk' q"
begin

text \<open>
  Restarting the timer of an element: it is taken out, its rank changes, and it is put back
  as the last one.
\<close>

lemma restart:
  assumes inv: "inv rk q" and only: "\<forall>k'. k' \<noteq> k \<longrightarrow> view q k' \<noteq> Some x"
    and same: "\<forall>y. y \<noteq> x \<longrightarrow> rk' y = rk y" and last: "\<forall>y \<in> ran (view q). rk y \<le> rk' x"
    and ag: "agrees cmp rk' (insert x (ran (view q)))"
  shows "\<exists>q1 q'. remove q k = Some q1 \<and> add cmp q1 k x = Some q' \<and> inv rk' q' \<and>
    view q' = (view q)(k \<mapsto> x)"
proof -
  obtain q1 where q1: "remove q k = Some q1" "inv rk q1" "view q1 = (view q)(k := None)"
    using remove_law[OF inv] by blast
  have "x \<notin> ran (view q1)" using only unfolding q1(3) by (auto simp: ran_def)
  moreover have sub: "ran (view q1) \<subseteq> ran (view q)" unfolding q1(3) by (auto simp: ran_def)
  ultimately have eq: "\<forall>y \<in> ran (view q1). rk' y = rk y" using same by metis
  then have inv': "inv rk' q1" using rerank_law[OF q1(2)] by blast
  have "insert x (ran (view q1)) \<subseteq> insert x (ran (view q))" using sub by blast
  then have "agrees cmp rk' (insert x (ran (view q1)))" using agrees_mono[OF ag] by blast
  moreover have "\<forall>y \<in> ran (view q1). rk' y \<le> rk' x" using eq last sub by (metis subsetD)
  ultimately obtain q' where "add cmp q1 k x = Some q'" "inv rk' q'" "view q' = (view q1)(k \<mapsto> x)"
    using add_law[OF inv', of k cmp x] q1(3) by auto
  then show ?thesis using q1 by auto
qed

end

interpretation lheap: timeout_queue heap_inv hview lazy_heap_add lazy_heap_peek lazy_heap_remove
proof (unfold_locales, goal_cases)
  case (1 rk p k cmp x)
  from add_rep[OF 1(1-3) disjI1[OF 1(4)]] show ?case by blast
next
  case (2 rk p cmp)
  from peek_rep[OF 2] show ?case by blast
next
  case (3 rk p k)
  then show ?case by (rule remove_heap_rep)
next
  case (4 rk p rk')
  then show ?case by (rule rerank_rep)
qed

section \<open>Properties\<close>

datatype 'a heap_call = Heap_Add uint64_t 'a | Heap_Remove uint64_t | Heap_Peek

fun heap_run :: "'a heap_cmp \<Rightarrow> 'a heap_call list \<Rightarrow> 'a LazyHeap option
    \<Rightarrow> ('a option list \<times> 'a LazyHeap option) option" where
  "heap_run cmp [] p = Some ([], p)"
| "heap_run cmp (Heap_Add k x # cs) p = do {
     p' \<leftarrow> lazy_heap_add cmp p k x;
     heap_run cmp cs p' }"
| "heap_run cmp (Heap_Remove k # cs) p = do {
     p' \<leftarrow> lazy_heap_remove p k;
     heap_run cmp cs p' }"
| "heap_run cmp (Heap_Peek # cs) p = do {
     (r, p') \<leftarrow> lazy_heap_peek cmp p;
     (rs, q) \<leftarrow> heap_run cmp cs p';
     Some (r # rs, q) }"

text \<open>
  An element is added under a fresh key; once something was removed (\<open>fresh\<close> is false), it
  is also not less than the elements present.
\<close>

fun calls_ok :: "('a \<Rightarrow> int) \<Rightarrow> bool \<Rightarrow> 'a heap_call list \<Rightarrow> (uint64_t \<Rightarrow> 'a option) \<Rightarrow> bool" where
  "calls_ok rk fresh [] f \<longleftrightarrow> True"
| "calls_ok rk fresh (Heap_Add k x # cs) f \<longleftrightarrow>
     f k = None \<and> (fresh \<or> (\<forall>y \<in> ran f. rk y \<le> rk x)) \<and> calls_ok rk fresh cs (f(k \<mapsto> x))"
| "calls_ok rk fresh (Heap_Remove k # cs) f \<longleftrightarrow> calls_ok rk False cs (f(k := None))"
| "calls_ok rk fresh (Heap_Peek # cs) f \<longleftrightarrow> calls_ok rk fresh cs f"

text \<open>The results of the \<open>lazy_heap_peek\<close> calls: a least element, \<open>NULL\<close> if there is none.\<close>

fun outs_ok :: "('a \<Rightarrow> int) \<Rightarrow> 'a heap_call list \<Rightarrow> (uint64_t \<Rightarrow> 'a option) \<Rightarrow> 'a option list \<Rightarrow> bool" where
  "outs_ok rk [] f rs \<longleftrightarrow> rs = []"
| "outs_ok rk (Heap_Add k x # cs) f rs \<longleftrightarrow> outs_ok rk cs (f(k \<mapsto> x)) rs"
| "outs_ok rk (Heap_Remove k # cs) f rs \<longleftrightarrow> outs_ok rk cs (f(k := None)) rs"
| "outs_ok rk (Heap_Peek # cs) f [] \<longleftrightarrow> False"
| "outs_ok rk (Heap_Peek # cs) f (r # rs) \<longleftrightarrow>
     (case r of None \<Rightarrow> f = Map.empty | Some x \<Rightarrow> x \<in> ran f \<and> (\<forall>y \<in> ran f. rk x \<le> rk y)) \<and>
     outs_ok rk cs f rs"

lemma heap_run_ok:
  assumes "agrees cmp rk UNIV"
  shows "heap_inv rk p \<Longrightarrow> (fresh \<longrightarrow> no_marks p) \<Longrightarrow> calls_ok rk fresh cs (hview p) \<Longrightarrow>
    \<exists>rs p'. heap_run cmp cs p = Some (rs, p') \<and> heap_inv rk p' \<and> outs_ok rk cs (hview p) rs"
proof (induction cs arbitrary: p fresh)
  case (Cons c cs)
  have ag: "agrees cmp rk A" for A by (rule agrees_mono[OF assms]) simp
  show ?case
  proof (cases c)
    case (Heap_Add k x)
    obtain p1 where "lazy_heap_add cmp p k x = Some p1" "heap_inv rk p1"
      "hview p1 = (hview p)(k \<mapsto> x)" "no_marks p \<longrightarrow> no_marks p1"
      using add_rep[OF Cons.prems(1) _ ag, of k x] Cons.prems(2,3) Heap_Add
      by (auto simp del: fun_upd_apply)
    then show ?thesis using Cons.IH[of p1 fresh] Cons.prems(2,3) Heap_Add by (auto simp del: fun_upd_apply)
  next
    case (Heap_Remove k)
    obtain p1 where "lazy_heap_remove p k = Some p1" "heap_inv rk p1" "hview p1 = (hview p)(k := None)"
      using lheap.remove_law[OF Cons.prems(1)] by blast
    then show ?thesis using Cons.IH[of p1 False] Cons.prems(3) Heap_Remove by (auto simp del: fun_upd_apply)
  next
    case Heap_Peek
    obtain r p1 where p1: "lazy_heap_peek cmp p = Some (r, p1)" "heap_inv rk p1" "hview p1 = hview p"
      "no_marks p \<longrightarrow> no_marks p1" "case r of None \<Rightarrow> hview p = Map.empty
       | Some x \<Rightarrow> x \<in> ran (hview p) \<and> (\<forall>y \<in> ran (hview p). rk x \<le> rk y)"
      using peek_rep[OF Cons.prems(1) ag] by blast
    obtain rs p' where "heap_run cmp cs p1 = Some (rs, p')" "heap_inv rk p'" "outs_ok rk cs (hview p1) rs"
      using Cons.IH[OF p1(2), of fresh] Cons.prems(2,3) Heap_Peek p1(3,4) by auto
    then show ?thesis using p1 Heap_Peek by auto
  qed
qed simp

text \<open>
  C23. From \<open>lazy_heap_create\<close>, every sequence of \<open>lazy_heap_add\<close>, \<open>lazy_heap_remove\<close> and
  \<open>lazy_heap_peek\<close> calls returns (no freed element is read, the loops end), and every peek
  yields a least element among those added and not removed since, and \<open>NULL\<close> exactly when
  there is none. Keys must be fresh; before the first removal elements may come in any
  order, after it in the order of their ranks.
\<close>

theorem lazy_heap_serves_min:
  assumes "agrees cmp rk UNIV" and "calls_ok rk True cs Map.empty"
  shows "\<exists>p rs p'. lazy_heap_create = Some p \<and> heap_run cmp cs p = Some (rs, p') \<and>
    outs_ok rk cs Map.empty rs"
proof -
  obtain p :: "'a LazyHeap option" where p: "lazy_heap_create = Some p" "heap_inv rk p"
    "hview p = Map.empty" "no_marks p" using create_heap_rep by blast
  from heap_run_ok[OF assms(1) p(2), of True cs] assms(2) p show ?thesis by auto
qed

theorem lazy_heap_serves_min_witness:
  "let cs = [Heap_Peek, Heap_Add 7 9, Heap_Add 8 5, Heap_Peek, Heap_Remove 8, Heap_Peek]
   in \<exists>p rs p'. lazy_heap_create = Some p \<and>
     heap_run (\<lambda>a b. Some (a - b)) cs p = Some (rs, p') \<and> outs_ok (\<lambda>x :: int. x) cs Map.empty rs"
  using lazy_heap_serves_min[of "\<lambda>a b. Some (a - b)" "\<lambda>x. x"
      "[Heap_Peek, Heap_Add 7 9, Heap_Add 8 5, Heap_Peek, Heap_Remove 8, Heap_Peek]"]
  by (simp add: agrees_def)

text \<open>
  \<open>lazy_heap_pop\<close> returns a least live element, but leaves its entry in
  \<open>survivor_table\<close>: a later \<open>lazy_heap_remove\<close> of its key writes to the freed element.
\<close>

theorem lazy_heap_pop_dangles:
  assumes "heap_inv rk p" and "agrees cmp rk (ran (hview p))" and "hview p \<noteq> Map.empty"
  shows "\<exists>x k p'. lazy_heap_pop cmp p = Some (Some x, p') \<and> hview p k = Some x \<and>
    (\<forall>y \<in> ran (hview p). rk x \<le> rk y) \<and> lazy_heap_remove p' k = None"
proof -
  obtain q e n where q: "p = Some q" "table_rep q" "full_rep rk q e n"
    using assms(1) by (rule heap_invE)
  have ag: "agrees cmp rk (live_data (cells q) (dom (cells q)))"
    using assms(2) by (simp only: live_view[OF q(2)] q(1))
  obtain q1 e1 n1 where q1: "do_delete cmp q = Some q1" "full_rep rk q1 e1 n1" "shrinks q q1"
    "1 \<le> n1 \<longrightarrow> (\<exists>x. cells q1 (e1 1) = Some \<lparr>he_data = x, is_deleted = False\<rparr>)"
    using do_delete_rep[OF q(3) ag] by blast
  note sh = shrinks_table[OF q1(3) q(2)]
  obtain r p1 where peek: "lazy_heap_peek cmp p = Some (r, p1)"
    "case r of None \<Rightarrow> hview p = Map.empty
     | Some x \<Rightarrow> x \<in> ran (hview p) \<and> (\<forall>y \<in> ran (hview p). rk x \<le> rk y)"
    using lheap.peek_law[OF assms(1,2)] by blast
  then obtain x where x: "r = Some x" "\<forall>y \<in> ran (hview p). rk x \<le> rk y"
    using assms(3) by (cases r) auto
  have hs: "heap_size q \<noteq> 0" "heap_size q1 \<noteq> 0" and root: "do { a \<leftarrow> slot q1 1; c \<leftarrow> cells q1 a; Some (he_data c) } = Some x"
    using peek(1) q1(1) x(1) q(1) by (auto split: if_splits simp: bind_eq_Some_conv)
  have rep1: "heap_rep q1 e1 n1" and n1: "1 \<le> n1"
    using q1(2) hs(2) by (auto simp: full_rep_def heap_rep_def)
  have cell: "cells q1 (e1 1) = Some \<lparr>he_data = x, is_deleted = False\<rparr>"
    using q1(4) n1 root rep_slot[OF rep1 _ n1] by auto
  have ag1: "agrees cmp rk (live_data (cells q1) (dom (cells q1)))"
    using assms(2) unfolding live_view[OF sh(1)] sh(2) q(1) .
  obtain q2 where q2: "drop_root cmp q1 = Some q2" "cells q2 = (cells q1)(e1 1 := None)"
    "survivor_table q2 = survivor_table q1"
    using drop_root_full[OF q1(2) n1 ag1] by blast
  have "lazy_heap_pop cmp p = Some (Some x, Some q2)"
    using q(1) hs q1(1) q2(1) cell rep_slot[OF rep1 _ n1] by simp
  moreover obtain k where k: "hm_map (survivor_table q1) k = Some (e1 1)"
  proof -
    have "e1 1 \<in> ran (hm_map (survivor_table q1))" using sh(1) cell by (auto simp: table_rep_def)
    then show thesis using that by (auto simp: ran_def)
  qed
  moreover have "hview p k = Some x" unfolding q(1) sh(2)[symmetric] using k cell by simp
  moreover have "lazy_heap_remove (Some q2) k = None"
  proof -
    have "hm_inv (survivor_table q1)" using sh(1) by (simp add: table_rep_def)
    then show ?thesis using k q2 by (simp add: hmap.get_law)
  qed
  ultimately show ?thesis using x(2) by blast
qed

theorem lazy_heap_pop_dangles_witness:
  "\<exists>(p :: int LazyHeap option) p' x k q. lazy_heap_create = Some p \<and>
     lazy_heap_add (\<lambda>a b. Some (a - b)) p 7 3 = Some p' \<and>
     lazy_heap_pop (\<lambda>a b. Some (a - b)) p' = Some (Some x, q) \<and> lazy_heap_remove q k = None"
proof -
  have ag: "agrees (\<lambda>a b. Some (a - b)) (\<lambda>x. x) A" for A :: "int set" by (simp add: agrees_def)
  obtain p :: "int LazyHeap option" where p: "lazy_heap_create = Some p" "heap_inv (\<lambda>x. x) p"
    "hview p = Map.empty" using create_heap_rep by blast
  then obtain p' where "lazy_heap_add (\<lambda>a b. Some (a - b)) p 7 3 = Some p'" "heap_inv (\<lambda>x. x) p'"
    "hview p' = [7 \<mapsto> 3]" using lheap.add_law[OF p(2) _ ag, of 7 3] by auto
  moreover from lazy_heap_pop_dangles[OF this(2) ag] this(3)
  obtain x k q where "lazy_heap_pop (\<lambda>a b. Some (a - b)) p' = Some (Some x, q)" "lazy_heap_remove q k = None"
    by auto
  ultimately show ?thesis using p(1) by blast
qed

declare find_loop.simps [code] up_loop.simps [code] down_loop.simps [code] do_delete.simps [code]

text \<open>
  The order condition of \<open>lazy_heap_serves_min\<close> is needed: with 20 marked as deleted between the root 10
  and the new element 5, \<open>up\<close> stops below the deleted element, and the next peek returns 10
  although 5 is present.
\<close>

theorem lazy_heap_order_lost:
  "let cs = [Heap_Add 1 10, Heap_Add 2 20, Heap_Add 3 15, Heap_Remove 2, Heap_Add 4 5, Heap_Peek]
   in map_option fst (Option.bind lazy_heap_create (heap_run (\<lambda>a b. Some (a - b)) cs)) =
     Some [Some (10 :: int)]"
  by code_simp

end
