(* ===== verification/Dns_Name.thy ===== *)
theory Dns_Name
  imports Byte_Order
begin

text \<open>
  Domain names in \<^verbatim>\<open>src/dns/dns_resolver.c\<close>: \<open>encode_name\<close>, \<open>decode_name\<close>, and reading and
  writing a name in a packet (\<open>name_deserialize\<close>, \<open>find_previous_name\<close>, \<open>name_serialize\<close>).
  A name in memory is a C string of length-prefixed labels (\<open>cstr\<close>, its final zero not
  listed); a packet buffer is the list of all bytes of its array, addressed by \<open>int\<close>
  indices, so an access outside of it is \<open>None\<close>, as is a loop that never ends. \<open>char\<close> is
  signed, as on the x86 targets. Notes for the error chain and the log are left out.
\<close>

section \<open>C strings\<close>

text \<open>The bytes of a string up to its first zero byte.\<close>

definition c_str :: "byte list \<Rightarrow> cstr" where
  "c_str bs = takeWhile (\<lambda>b. b \<noteq> 0) bs"

text \<open>The string that starts at an index of a buffer (\<open>strdup\<close>, \<open>strlen\<close>).\<close>

definition str_at :: "byte list \<Rightarrow> int \<Rightarrow> cstr option" where
  "str_at buf i =
     (if 0 \<le> i \<and> 0 \<in> set (drop (nat i) buf) then Some (c_str (drop (nat i) buf)) else None)"

lemma c_str_no_zero: "0 \<notin> set bs \<Longrightarrow> c_str bs = bs"
  by (auto simp: c_str_def takeWhile_eq_all_conv)

lemma c_str_append_zero: "0 \<notin> set s \<Longrightarrow> c_str (s @ 0 # r) = s"
  by (induction s) (auto simp: c_str_def)

lemma str_at_append: "0 \<notin> set s \<Longrightarrow> str_at (xs @ s @ 0 # r) (int (length xs)) = Some s"
  by (simp add: str_at_def c_str_append_zero)

section \<open>Text form\<close>

definition DOT :: byte where
  "DOT = 46"

definition label_len :: "cstr \<Rightarrow> byte" where
  "label_len lab = word_of_nat (length lab)"

text \<open>
  The loop of \<open>encode_name\<close>: \<open>read\<close> is the rest of the domain, \<open>lab\<close> the label read since
  \<open>label_start\<close>, \<open>out\<close> what has been written. \<open>None\<close> is the \<open>NULL\<close> it returns.
\<close>

fun encode_loop :: "cstr \<Rightarrow> cstr \<Rightarrow> byte list \<Rightarrow> byte list option" where
  "encode_loop [] lab out =
     (if length lab > 63 then None else Some (out @ label_len lab # lab @ [0]))"
| "encode_loop (c # read) lab out =
     (if c = DOT
      then if length lab > 63 then None else encode_loop read [] (out @ label_len lab # lab)
      else encode_loop read (lab @ [c]) out)"

definition encode_name :: "cstr option \<Rightarrow> cstr option" where
  "encode_name domain =
     (case domain of
        None \<Rightarrow> None
      | Some d \<Rightarrow> if d = [] then None else map_option c_str (encode_loop d [] []))"

text \<open>
  The two loops of \<open>decode_name\<close>. The first one looks for compression pointers (it returns
  whether there is none), the second one copies; both can run past the end of a name whose
  label lengths are wrong.
\<close>

function decode_check :: "byte list \<Rightarrow> nat \<Rightarrow> bool option" where
  "decode_check enc p =
     (if p < length enc
      then if enc ! p = 0 then Some True
           else if enc ! p AND 0xC0 = 0xC0 then Some False
           else decode_check enc (p + unat (enc ! p) + 1)
      else None)"
  by pat_completeness auto
termination
  by (relation "measure (\<lambda>(enc, p). length enc - p)") auto

function decode_copy :: "byte list \<Rightarrow> nat \<Rightarrow> byte list \<Rightarrow> byte list option" where
  "decode_copy enc p out =
     (if p < length enc
      then if enc ! p = 0 then Some out
           else do {
             lab \<leftarrow> arr_read enc (int p + 1) (unat (enc ! p));
             b \<leftarrow> arr_get enc (int (p + unat (enc ! p) + 1));
             decode_copy enc (p + unat (enc ! p) + 1) (out @ lab @ (if b = 0 then [] else [DOT])) }
      else None)"
  by pat_completeness auto
termination
  by (relation "measure (\<lambda>(enc, p, out). length enc - p)") auto

declare decode_check.simps [simp del] decode_copy.simps [simp del]

text \<open>The outer option: no result; the inner one: the \<open>NULL\<close> returned.\<close>

definition decode_name :: "cstr option \<Rightarrow> cstr option option" where
  "decode_name encoded =
     (case encoded of
        None \<Rightarrow> Some None
      | Some enc \<Rightarrow> do {
          ok \<leftarrow> decode_check (enc @ [0]) 0;
          if ok then do { out \<leftarrow> decode_copy (enc @ [0]) 0 []; Some (Some (c_str out)) }
          else Some None })"

section \<open>Names in a packet\<close>

text \<open>The first loop of \<open>name_deserialize\<close>: label by label to the end or a pointer.\<close>

partial_function (option) label_scan :: "byte list \<Rightarrow> int \<Rightarrow> int \<Rightarrow> int option" where
  "label_scan buf cur i = do {
     b \<leftarrow> arr_get buf (cur + i);
     if b = 0 \<or> b AND 0xC0 = 0xC0 then Some i else label_scan buf cur (i + sint b + 1) }"

text \<open>The length of the field and the name read.\<close>

partial_function (option) name_deserialize :: "byte list \<Rightarrow> int \<Rightarrow> (int \<times> cstr) option" where
  "name_deserialize buf cur = do {
     i \<leftarrow> label_scan buf cur 0;
     b \<leftarrow> arr_get buf (cur + i);
     if b = 0
     then do { s \<leftarrow> str_at buf cur; Some (int (length s) + 1, s) }
     else do {
       p \<leftarrow> arr_read buf (cur + i) 2;
       (l, suffix) \<leftarrow> name_deserialize buf (uint (from_be16 p XOR 0xC000));
       prefix \<leftarrow> (if i < 0 then None else arr_read buf cur (nat i));
       Some (i + 2, c_str (prefix @ suffix)) } }"

text \<open>\<open>strcmp\<close> of the string at an index with \<open>name\<close>: whether they are equal.\<close>

fun match_at :: "byte list \<Rightarrow> int \<Rightarrow> cstr \<Rightarrow> bool option" where
  "match_at buf j [] = do { b \<leftarrow> arr_get buf j; Some (b = 0) }"
| "match_at buf j (c # name) = do {
     b \<leftarrow> arr_get buf j;
     if b = c then match_at buf (j + 1) name else Some False }"

function find_loop_name :: "byte list \<Rightarrow> int \<Rightarrow> int \<Rightarrow> cstr \<Rightarrow> int option" where
  "find_loop_name buf j stop name = do {
     m \<leftarrow> match_at buf j name;
     if \<not> m \<and> j < stop then find_loop_name buf (j + 1) stop name else Some j }"
  by pat_completeness auto
termination
  by (relation "measure (\<lambda>(buf, j, stop, name). nat (stop - j))") auto

declare find_loop_name.simps [simp del]

text \<open>The offset of the first occurrence that starts in \<open>[start_i, end_e)\<close>, if any.\<close>

definition find_previous_name :: "byte list \<Rightarrow> int \<Rightarrow> int \<Rightarrow> cstr \<Rightarrow> uint16_t option option" where
  "find_previous_name buf start_i end_e name = do {
     j \<leftarrow> find_loop_name buf start_i end_e name;
     Some (if j = end_e then None else Some (word_of_int (j - start_i))) }"

definition HEADER_SIZE :: int where
  "HEADER_SIZE = 12"

text \<open>
  The loop of \<open>name_serialize\<close>, which looks for \<open>name\<close> itself at every label. The result is
  the index in \<open>name\<close> at which it stops and the offset found, if one was.
\<close>

partial_function (option) suffix_loop ::
    "byte list \<Rightarrow> int \<Rightarrow> cstr \<Rightarrow> int \<Rightarrow> (int \<times> uint16_t option) option" where
  "suffix_loop buf cur name i = do {
     c \<leftarrow> arr_get (name @ [0]) i;
     if c = 0 then Some (i, None)
     else do {
       f \<leftarrow> find_previous_name buf HEADER_SIZE cur name;
       case f of
         Some off \<Rightarrow> Some (i, Some off)
       | None \<Rightarrow> suffix_loop buf cur name (i + sint c + 1) } }"

text \<open>The buffer after the call, and the number of bytes written.\<close>

definition name_serialize :: "cstr \<Rightarrow> byte list \<Rightarrow> int \<Rightarrow> (byte list \<times> int) option" where
  "name_serialize name buf cur = do {
     (i, found) \<leftarrow> suffix_loop buf cur name 0;
     case found of
       Some off \<Rightarrow> do {
         prefix \<leftarrow> (if i < 0 then None else arr_read name 0 (nat i));
         buf1 \<leftarrow> arr_write buf cur prefix;
         buf2 \<leftarrow> arr_write buf1 (cur + i) (be16 ((off + 12) OR 0xC000));
         Some (buf2, i + 2) }
     | None \<Rightarrow> do {
         buf1 \<leftarrow> arr_write buf cur (name @ [0]);
         Some (buf1, int (length name) + 1) } }"

section \<open>Labels\<close>

text \<open>The wire form and the text form of a list of labels.\<close>

fun wire_name :: "cstr list \<Rightarrow> cstr" where
  "wire_name [] = []"
| "wire_name (l # ls) = label_len l # l @ wire_name ls"

fun dotted :: "cstr list \<Rightarrow> cstr" where
  "dotted [] = []"
| "dotted [l] = l"
| "dotted (l # ls) = l @ DOT # dotted ls"

definition plain_label :: "cstr \<Rightarrow> bool" where
  "plain_label l \<longleftrightarrow> 0 \<notin> set l \<and> DOT \<notin> set l"

definition wire_label :: "cstr \<Rightarrow> bool" where
  "wire_label l \<longleftrightarrow> l \<noteq> [] \<and> length l \<le> 63 \<and> 0 \<notin> set l"

abbreviation wire_labels :: "cstr list \<Rightarrow> bool" where
  "wire_labels ls \<equiv> (\<forall>l \<in> set ls. wire_label l)"

lemma small_byte:
  assumes "n < 64"
  shows "(word_of_nat n :: byte) AND 0xC0 = 0" "unat (word_of_nat n :: byte) = n"
    "sint (word_of_nat n :: byte) = int n" "0 < n \<Longrightarrow> (word_of_nat n :: byte) \<noteq> 0"
proof -
  have "list_all (\<lambda>n. (word_of_nat n :: byte) AND 0xC0 = 0 \<and> unat (word_of_nat n :: byte) = n \<and>
      sint (word_of_nat n :: byte) = int n) [0..<64]"
    by code_simp
  then have "\<forall>n \<in> set [0..<64]. (word_of_nat n :: byte) AND 0xC0 = 0 \<and>
      unat (word_of_nat n :: byte) = n \<and> sint (word_of_nat n :: byte) = int n"
    by (simp only: list_all_iff)
  moreover have "n \<in> set [0..<64]" using assms by simp
  ultimately show "(word_of_nat n :: byte) AND 0xC0 = 0" and u: "unat (word_of_nat n :: byte) = n"
    and "sint (word_of_nat n :: byte) = int n" by blast+
  show "(word_of_nat n :: byte) \<noteq> 0" if "0 < n" using u that by (metis less_irrefl unat_0)
qed

lemma label_len_small:
  assumes "wire_label l"
  shows "label_len l AND 0xC0 = 0" "label_len l AND 0xC0 \<noteq> 0xC0" "unat (label_len l) = length l"
    "sint (label_len l) = int (length l)" "label_len l \<noteq> 0"
proof -
  have "length l < 64" "0 < length l" using assms by (auto simp: wire_label_def)
  note b = small_byte[OF this(1), folded label_len_def] and pos = this(2)
  show "label_len l AND 0xC0 = 0" "label_len l AND 0xC0 \<noteq> 0xC0" using b(1) by simp_all
  show "unat (label_len l) = length l" "sint (label_len l) = int (length l)" by (fact b)+
  show "label_len l \<noteq> 0" by (rule b(4)[OF pos])
qed

lemma wire_no_zero: "wire_labels ls \<Longrightarrow> 0 \<notin> set (wire_name ls)"
proof (induction ls)
  case (Cons l ls)
  then have "label_len l \<noteq> 0" "0 \<notin> set l" by (auto simp: label_len_small(5) wire_label_def)
  with Cons show ?case by auto
qed simp

lemma wire_name_append: "wire_name (ls @ ms) = wire_name ls @ wire_name ms"
  by (induction ls) auto

lemma wire_name_Nil: "wire_name ls = [] \<longleftrightarrow> ls = []"
  by (cases ls) auto

section \<open>Text form and back\<close>

lemma encode_loop_label:
  "DOT \<notin> set l \<Longrightarrow> encode_loop (l @ rest) lab out = encode_loop rest (lab @ l) out"
  by (induction l arbitrary: lab) auto

lemma encode_loop_labels:
  assumes "\<forall>l \<in> set ls. plain_label l" "ls \<noteq> []"
  shows "encode_loop (dotted ls) [] out =
    (if \<exists>l \<in> set ls. 63 < length l then None else Some (out @ wire_name ls @ [0]))"
  using assms
proof (induction ls arbitrary: out rule: dotted.induct)
  case (2 l)
  then have "encode_loop (l @ []) [] out = encode_loop [] ([] @ l) out"
    by (intro encode_loop_label) (auto simp: plain_label_def)
  then show ?case by auto
next
  case (3 l l' ls)
  have "encode_loop (l @ DOT # dotted (l' # ls)) [] out = encode_loop (DOT # dotted (l' # ls)) ([] @ l) out"
    using 3 by (intro encode_loop_label) (auto simp: plain_label_def)
  with 3 show ?case by auto
qed simp

lemma c_str_wire:
  assumes "\<forall>l \<in> set ls. plain_label l \<and> length l \<le> 63"
  shows "c_str (wire_name ls @ [0]) = wire_name (takeWhile (\<lambda>l. l \<noteq> []) ls)"
  using assms
proof (induction ls)
  case (Cons l ls)
  show ?case
  proof (cases "l = []")
    case True
    then show ?thesis by (simp add: c_str_def label_len_def)
  next
    case False
    then have "wire_label l" using Cons.prems by (auto simp: wire_label_def plain_label_def)
    then have "label_len l \<noteq> 0" "0 \<notin> set l" by (auto simp: label_len_small(5) wire_label_def)
    then have "c_str (wire_name (l # ls) @ [0]) = label_len l # l @ c_str (wire_name ls @ [0])"
      by (auto simp: c_str_def takeWhile_append takeWhile_eq_all_conv)
    then show ?thesis using Cons False by simp
  qed
qed (simp add: c_str_def)

lemma decode_check_wire:
  "wire_labels ls \<Longrightarrow> decode_check (pre @ wire_name ls @ [0]) (length pre) = Some True"
proof (induction ls arbitrary: pre)
  case Nil
  then show ?case by (simp add: decode_check.simps nth_append)
next
  case (Cons l ls)
  then have l: "wire_label l" by simp
  note f = label_len_small[OF l]
  have "decode_check ((pre @ label_len l # l) @ wire_name ls @ [0]) (length (pre @ label_len l # l)) = Some True"
    using Cons by (intro Cons.IH) simp
  then show ?case
    using f by (subst decode_check.simps) (simp add: nth_append)
qed

lemma decode_copy_wire:
  "wire_labels ls \<Longrightarrow> decode_copy (pre @ wire_name ls @ [0]) (length pre) out = Some (out @ dotted ls)"
proof (induction ls arbitrary: pre out rule: dotted.induct)
  case 1
  then show ?case by (simp add: decode_copy.simps nth_append)
next
  case (2 l)
  then have l: "wire_label l" by simp
  have "arr_read ((pre @ [label_len l]) @ l @ [0]) (int (length (pre @ [label_len l]))) (length l) = Some l"
    by (rule arr_read_append)
  moreover have "arr_get ((pre @ label_len l # l) @ [0]) (int (length (pre @ label_len l # l))) = Some 0"
    by (rule arr_get_append)
  moreover have "decode_copy (pre @ label_len l # l @ [0]) (length pre + length l + 1) (out @ l) = Some (out @ l)"
    by (simp add: decode_copy.simps nth_append)
  ultimately show ?case
    using label_len_small[OF l] by (subst decode_copy.simps) (simp add: nth_append add.commute)
next
  case (3 l l' ls)
  then have l: "wire_label l" and l': "wire_label l'" by auto
  let ?rest = "wire_name (l' # ls) @ [0]"
  have "arr_read ((pre @ [label_len l]) @ l @ ?rest) (int (length (pre @ [label_len l]))) (length l) = Some l"
    by (rule arr_read_append)
  moreover have "arr_get ((pre @ label_len l # l) @ label_len l' # l' @ wire_name ls @ [0])
      (int (length (pre @ label_len l # l))) = Some (label_len l')"
    by (rule arr_get_append)
  moreover have "decode_copy ((pre @ label_len l # l) @ ?rest) (length (pre @ label_len l # l)) (out @ l @ [DOT]) =
      Some ((out @ l @ [DOT]) @ dotted (l' # ls))"
    using 3 by (intro "3.IH") auto
  ultimately show ?case
    using label_len_small[OF l] label_len_small(5)[OF l']
    by (subst decode_copy.simps) (simp add: nth_append add.commute)
qed

section \<open>Names in a packet\<close>

lemma arr_get_at: "i = int (length xs) \<Longrightarrow> arr_get (xs @ y # zs) i = Some y"
  by (simp add: arr_get_append)

lemma label_scan_wire:
  assumes "wire_labels ls" "r = 0 \<or> r AND 0xC0 = 0xC0"
  shows "cur + i = int (length xs) \<Longrightarrow>
    label_scan (xs @ wire_name ls @ r # rest) cur i = Some (i + int (length (wire_name ls)))"
  using assms(1)
proof (induction ls arbitrary: xs i)
  case Nil
  then show ?case using assms(2) by (simp add: label_scan.simps arr_get_at)
next
  case (Cons l ls)
  then have l: "wire_label l" by simp
  note f = label_len_small[OF l]
  have "label_scan ((xs @ label_len l # l) @ wire_name ls @ r # rest) cur (i + int (length l) + 1) =
      Some (i + int (length l) + 1 + int (length (wire_name ls)))"
    using Cons.prems by (intro Cons.IH) auto
  moreover have "arr_get (xs @ label_len l # l @ wire_name ls @ r # rest) (cur + i) = Some (label_len l)"
    using Cons.prems(1) by (rule arr_get_at)
  ultimately show ?case using f by (subst label_scan.simps) simp
qed

text \<open>A name written out in full, and one that ends in a pointer.\<close>

lemma name_deserialize_full:
  assumes "wire_labels ls"
  shows "name_deserialize (xs @ wire_name ls @ 0 # rest) (int (length xs)) =
    Some (int (length (wire_name ls)) + 1, wire_name ls)"
proof -
  have "label_scan (xs @ wire_name ls @ 0 # rest) (int (length xs)) 0 = Some (int (length (wire_name ls)))"
    using label_scan_wire[OF assms, of 0 "int (length xs)" 0 xs rest] by simp
  moreover have "arr_get ((xs @ wire_name ls) @ 0 # rest) (int (length xs) + int (length (wire_name ls))) = Some 0"
    by (rule arr_get_at) simp
  moreover have "str_at (xs @ wire_name ls @ 0 # rest) (int (length xs)) = Some (wire_name ls)"
    by (rule str_at_append[OF wire_no_zero[OF assms]])
  ultimately show ?thesis by (subst name_deserialize.simps) simp
qed

lemma pointer_bytes:
  assumes "off < 0x4000"
  shows "be16 (off OR 0xC000) = [ucast (drop_bit 8 (off OR 0xC000)), ucast (off OR 0xC000)]"
    "(ucast (drop_bit 8 (off OR 0xC000 :: uint16_t)) :: byte) AND 0xC0 = 0xC0"
    "(ucast (drop_bit 8 (off OR 0xC000 :: uint16_t)) :: byte) \<noteq> 0"
    "(off OR 0xC000) XOR 0xC000 = off"
proof -
  have c: "(0xC000 :: uint16_t) = push_bit 14 (mask 2)" "(0xC0 :: byte) = push_bit 6 (mask 2)"
    by (simp_all add: mask_eq_exp_minus_1 push_bit_eq_mult)
  show "be16 (off OR 0xC000) = [ucast (drop_bit 8 (off OR 0xC000)), ucast (off OR 0xC000)]"
    by (simp add: be16_def)
  show a: "(ucast (drop_bit 8 (off OR 0xC000 :: uint16_t)) :: byte) AND 0xC0 = 0xC0"
    unfolding c by (rule bit_word_eqI) (auto simp: bit_simps)
  then show "(ucast (drop_bit 8 (off OR 0xC000 :: uint16_t)) :: byte) \<noteq> 0" by auto
  have "uint off < 2 ^ 14" using assms by (simp add: word_less_def)
  then have "uint (take_bit 14 off) = uint off"
    by (simp only: unsigned_take_bit_eq take_bit_int_eq_self uint_ge_0)
  then have "take_bit 14 off = off" by (simp only: word_uint_eq_iff)
  then have "\<not> bit off n" if "14 \<le> n" for n
    using that by (metis bit_take_bit_iff linorder_not_le)
  then show "(off OR 0xC000) XOR 0xC000 = off"
    unfolding c by (intro bit_word_eqI) (auto simp: bit_simps)
qed

lemma name_deserialize_pointer:
  assumes ls: "wire_labels ls" and off: "off < 0x4000"
    and target: "name_deserialize (xs @ wire_name ls @ be16 (off OR 0xC000) @ rest) (uint off) = Some (l, suffix)"
    and "0 \<notin> set suffix"
  shows "name_deserialize (xs @ wire_name ls @ be16 (off OR 0xC000) @ rest) (int (length xs)) =
    Some (int (length (wire_name ls)) + 2, wire_name ls @ suffix)"
proof -
  let ?p = "off OR 0xC000" and ?n = "int (length (wire_name ls))"
  let ?buf = "xs @ wire_name ls @ be16 ?p @ rest"
  note pb = pointer_bytes[OF off]
  have scan: "label_scan ?buf (int (length xs)) 0 = Some ?n"
    unfolding pb(1) using label_scan_wire[OF ls disjI2[OF pb(2)], of "int (length xs)" 0 xs] by simp
  have get: "arr_get ?buf (int (length xs) + ?n) = Some (ucast (drop_bit 8 ?p))"
    unfolding pb(1) using arr_get_at[of _ "xs @ wire_name ls"] by simp
  have rd: "arr_read ((xs @ wire_name ls) @ be16 ?p @ rest) (int (length (xs @ wire_name ls))) (length (be16 ?p)) = Some (be16 ?p)"
    by (rule arr_read_append)
  then have rd: "arr_read ?buf (int (length xs) + ?n) 2 = Some (be16 ?p)" by simp
  have pre: "arr_read ?buf (int (length xs)) (length (wire_name ls)) = Some (wire_name ls)"
    by (rule arr_read_append)
  have "c_str (wire_name ls @ suffix) = wire_name ls @ suffix"
    using wire_no_zero[OF ls] assms(4) by (intro c_str_no_zero) auto
  then show ?thesis
    using scan get rd pre target pb(3,4) by (subst name_deserialize.simps) simp
qed

text \<open>Pointers that form a cycle: the recursion never ends.\<close>

lemma name_cycle:
  assumes step: "\<And>c. c \<in> S \<Longrightarrow> \<exists>i b p. label_scan buf c 0 = Some i \<and> arr_get buf (c + i) = Some b \<and> b \<noteq> 0 \<and>
      arr_read buf (c + i) 2 = Some p \<and> uint (from_be16 p XOR 0xC000) \<in> S"
  shows "c \<in> S \<Longrightarrow> name_deserialize buf c = None"
proof -
  have "b = buf \<and> c \<in> S \<longrightarrow> False" if d: "name_deserialize b c = Some r" for b c r
  proof (rule name_deserialize.raw_induct[where P = "\<lambda>b c r. b = buf \<and> c \<in> S \<longrightarrow> False", OF _ d])
    fix nd :: "byte list \<Rightarrow> int \<Rightarrow> (int \<times> cstr) option" and b c r
    assume IH: "\<And>b c y. nd b c = Some y \<Longrightarrow> b = buf \<and> c \<in> S \<longrightarrow> False"
    assume body: "do {
        i \<leftarrow> label_scan b c 0;
        x \<leftarrow> arr_get b (c + i);
        if x = 0 then do { s \<leftarrow> str_at b c; Some (int (length s) + 1, s) }
        else do {
          p \<leftarrow> arr_read b (c + i) 2;
          (l, suffix) \<leftarrow> nd b (uint (from_be16 p XOR 0xC000));
          prefix \<leftarrow> (if i < 0 then None else arr_read b c (nat i));
          Some (i + 2, c_str (prefix @ suffix)) } } = Some r"
    show "b = buf \<and> c \<in> S \<longrightarrow> False"
    proof (intro impI)
      assume bc: "b = buf \<and> c \<in> S"
      then obtain i x p where st: "label_scan buf c 0 = Some i" "arr_get buf (c + i) = Some x" "x \<noteq> 0"
        "arr_read buf (c + i) 2 = Some p" and t: "uint (from_be16 p XOR 0xC000) \<in> S"
        using step by blast
      with body bc obtain y where "nd buf (uint (from_be16 p XOR 0xC000)) = Some y"
        by (cases "nd buf (uint (from_be16 p XOR 0xC000))") auto
      from IH[OF this] t show False by blast
    qed
  qed
  then show "c \<in> S \<Longrightarrow> name_deserialize buf c = None" by (metis not_None_eq)
qed

section \<open>Writing a name\<close>

lemma match_at_defined:
  "0 \<le> j \<Longrightarrow> j + int (length name) < int (length buf) \<Longrightarrow> \<exists>m. match_at buf j name = Some m"
  by (induction name arbitrary: j) (auto simp: arr_get_def)

lemma match_at_True:
  assumes "0 \<notin> set name" "match_at buf j name = Some True"
  shows "\<exists>xs rest. buf = xs @ name @ 0 # rest \<and> j = int (length xs)"
  using assms
proof (induction name arbitrary: j)
  case Nil
  then have j: "0 \<le> j" "nat j < length buf" "buf ! nat j = 0"
    by (auto simp: arr_get_def split: if_splits)
  then have "buf = take (nat j) buf @ [] @ 0 # drop (Suc (nat j)) buf"
    using id_take_nth_drop[OF j(2)] by simp
  moreover have "j = int (length (take (nat j) buf))" using j by simp
  ultimately show ?case by blast
next
  case (Cons c name)
  then have j: "0 \<le> j" "nat j < length buf" "buf ! nat j = c" "match_at buf (j + 1) name = Some True"
    by (auto simp: arr_get_def split: if_splits)
  then obtain xs rest where x: "buf = xs @ name @ 0 # rest" "j + 1 = int (length xs)"
    using Cons.IH[of "j + 1"] Cons.prems(1) by auto
  then have l: "nat j = length xs - 1" "xs \<noteq> []" using j(1) by auto
  then have "last xs = c" using j(3) x(1) by (simp add: nth_append last_conv_nth)
  then have "buf = butlast xs @ (c # name) @ 0 # rest" using x(1) l(2)
    by (metis append_Cons append_butlast_last_id append_eq_append_conv2 append_Nil)
  moreover have "j = int (length (butlast xs))" using x(2) l(2) by (cases xs) auto
  ultimately show ?case by blast
qed

lemma match_at_here:
  "match_at (xs @ name @ 0 # rest) (int (length xs)) name = Some True"
proof (induction name arbitrary: xs)
  case (Cons c name)
  from Cons[of "xs @ [c]"] show ?case by (simp add: arr_get_append add.commute)
qed (simp add: arr_get_append)

lemma find_loop_name_spec:
  assumes "find_loop_name buf j stop name = Some k" "j \<le> stop"
  shows "j \<le> k \<and> k \<le> stop \<and> (k = stop \<or> match_at buf k name = Some True)"
  using assms
proof (induction buf j stop name rule: find_loop_name.induct)
  case (1 buf j stop name)
  from "1.prems" obtain m where m: "match_at buf j name = Some m"
    by (subst (asm) find_loop_name.simps) (auto simp: bind_eq_Some_conv)
  show ?case
  proof (cases "\<not> m \<and> j < stop")
    case True
    then have "find_loop_name buf (j + 1) stop name = Some k"
      using "1.prems"(1) m by (subst (asm) find_loop_name.simps) simp
    then show ?thesis using "1.IH"[OF m True] True by auto
  next
    case False
    then show ?thesis using "1.prems" m by (subst (asm) find_loop_name.simps) auto
  qed
qed

lemma find_loop_name_defined:
  "0 \<le> j \<Longrightarrow> stop + int (length name) < int (length buf) \<Longrightarrow> j \<le> stop \<Longrightarrow>
     \<exists>k. find_loop_name buf j stop name = Some k"
proof (induction buf j stop name rule: find_loop_name.induct)
  case (1 buf j stop name)
  obtain m where m: "match_at buf j name = Some m" using match_at_defined[of j name buf] 1 by auto
  show ?case
  proof (cases "\<not> m \<and> j < stop")
    case True
    then show ?thesis using "1.IH"[OF m True] "1.prems" m by (subst find_loop_name.simps) simp
  next
    case False
    then show ?thesis using m by (subst find_loop_name.simps) auto
  qed
qed

text \<open>The loop over the suffixes stops at once or walks to the end.\<close>

lemma suffix_loop_walk:
  assumes "find_previous_name buf HEADER_SIZE cur (wire_name (ks @ ls)) = Some None"
    and "wire_labels ls"
  shows "suffix_loop buf cur (wire_name (ks @ ls)) (int (length (wire_name ks))) =
    Some (int (length (wire_name (ks @ ls))), None)"
  using assms
proof (induction ls arbitrary: ks)
  case Nil
  have "arr_get (wire_name ks @ 0 # []) (int (length (wire_name ks))) = Some 0" by (rule arr_get_append)
  then show ?case by (subst suffix_loop.simps) simp
next
  case (Cons l ls)
  then have l: "wire_label l" by simp
  have "arr_get (wire_name ks @ label_len l # l @ wire_name ls @ [0]) (int (length (wire_name ks))) = Some (label_len l)"
    by (rule arr_get_append)
  then have "arr_get (wire_name (ks @ l # ls) @ [0]) (int (length (wire_name ks))) = Some (label_len l)"
    by (simp add: wire_name_append)
  moreover have "suffix_loop buf cur (wire_name ((ks @ [l]) @ ls)) (int (length (wire_name (ks @ [l])))) =
      Some (int (length (wire_name ((ks @ [l]) @ ls))), None)"
    using Cons by (intro Cons.IH) simp_all
  ultimately show ?case
    using Cons.prems(1) label_len_small[OF l]
    by (subst suffix_loop.simps) (simp add: wire_name_append algebra_simps)
qed

lemma suffix_loop_result:
  assumes "wire_labels ls" "ls \<noteq> []" "find_previous_name buf HEADER_SIZE cur (wire_name ls) = Some f"
  shows "suffix_loop buf cur (wire_name ls) 0 =
    Some (case f of Some off \<Rightarrow> (0, Some off) | None \<Rightarrow> (int (length (wire_name ls)), None))"
proof (cases f)
  case None
  then show ?thesis using suffix_loop_walk[of buf cur "[]" ls] assms by simp
next
  case (Some off)
  obtain l ms where l: "ls = l # ms" "wire_label l" using assms by (cases ls) auto
  then have "arr_get (wire_name ls @ [0]) 0 = Some (label_len l)" by (simp add: arr_get_def)
  then show ?thesis
    using Some assms(3) label_len_small(5)[OF l(2)] by (subst suffix_loop.simps) simp
qed

text \<open>
  The first occurrence that starts before \<open>cur\<close>, if there is one, also ends before it, and so
  does not run into bytes that are still to be overwritten.
\<close>

definition clear_ref :: "byte list \<Rightarrow> int \<Rightarrow> cstr \<Rightarrow> bool" where
  "clear_ref buf cur name \<longleftrightarrow>
     (case find_loop_name buf HEADER_SIZE cur name of
        None \<Rightarrow> False
      | Some j \<Rightarrow> j < cur \<longrightarrow> j + int (length name) < cur)"

lemma arr_write_at:
  assumes "length ys \<le> length ws"
  shows "arr_write (xs @ ws) (int (length xs)) ys = Some (xs @ ys @ drop (length ys) ws)"
  using arr_write_append[of "take (length ys) ws" ys xs "drop (length ys) ws"] assms by simp

lemma prefix_match:
  assumes "pre @ tail = xs @ name @ 0 # rest" "length xs + length name < length pre"
  obtains r where "pre = xs @ name @ 0 # r"
proof -
  have "pre @ tail = (xs @ name @ [0]) @ rest" using assms(1) by simp
  then obtain us where "pre = (xs @ name @ [0]) @ us"
    using assms(2) unfolding append_eq_append_conv2 by (auto simp: append_eq_Cons_conv)
  then show thesis using that by simp
qed

lemma name_serialize_written:
  assumes ls: "wire_labels ls" "ls \<noteq> []"
    and pre: "12 \<le> length pre" "length pre \<le> 0x3FFF"
    and room: "length (wire_name ls) < length tail"
    and clear: "clear_ref (pre @ tail) (int (length pre)) (wire_name ls)"
  shows "\<exists>enc. name_serialize (wire_name ls) (pre @ tail) (int (length pre)) =
      Some (pre @ enc @ drop (length enc) tail, int (length enc)) \<and>
    length enc \<le> length (wire_name ls) + 1 \<and>
    (\<forall>rest. name_deserialize (pre @ enc @ rest) (int (length pre)) =
      Some (int (length enc), wire_name ls))"
proof -
  let ?name = "wire_name ls" and ?buf = "pre @ tail" and ?cur = "int (length pre)"
  obtain j where j: "find_loop_name ?buf HEADER_SIZE ?cur ?name = Some j" "j < ?cur \<Longrightarrow> j + int (length ?name) < ?cur"
    using clear by (auto simp: clear_ref_def split: option.splits)
  have spec: "12 \<le> j" "j \<le> ?cur" "j = ?cur \<or> match_at ?buf j ?name = Some True"
    using find_loop_name_spec[OF j(1)] pre(1) by (auto simp: HEADER_SIZE_def)
  have nz: "0 \<notin> set ?name" by (rule wire_no_zero[OF ls(1)])
  show ?thesis
  proof (cases "j = ?cur")
    case True
    then have "find_previous_name ?buf HEADER_SIZE ?cur ?name = Some None"
      using j(1) by (simp add: find_previous_name_def)
    then have "suffix_loop ?buf ?cur ?name 0 = Some (int (length ?name), None)"
      using suffix_loop_result[OF ls] by simp
    then have "name_serialize ?name ?buf ?cur =
        Some (pre @ (?name @ [0]) @ drop (length (?name @ [0])) tail, int (length (?name @ [0])))"
      using arr_write_at[of "?name @ [0]" tail pre] room by (simp add: name_serialize_def)
    moreover have "name_deserialize (pre @ (?name @ [0]) @ rest) ?cur = Some (int (length (?name @ [0])), ?name)" for rest
      using name_deserialize_full[OF ls(1), of pre rest] by simp
    ultimately show ?thesis by (intro exI[of _ "?name @ [0]"]) simp
  next
    case False
    then have less: "j < ?cur" "j + int (length ?name) < ?cur" using spec(2) j(2) by auto
    obtain xs rest where x: "?buf = xs @ ?name @ 0 # rest" "j = int (length xs)"
      using match_at_True[OF nz] spec(3) False by blast
    then have lt: "length xs + length ?name < length pre" using less(2) by simp
    obtain r where r: "pre = xs @ ?name @ 0 # r" by (rule prefix_match[OF x(1) lt])
    define off where "off = (word_of_int (j - HEADER_SIZE) :: uint16_t)"
    have "off + 12 = word_of_int j" by (simp add: off_def HEADER_SIZE_def)
    moreover have jr: "0 \<le> j" "j < 0x4000" using spec(1) less(1) pre(2) by auto
    ultimately have u: "uint (off + 12) = j" by (simp add: uint_word_of_int take_bit_int_eq_self)
    then have small: "off + 12 < 0x4000" using jr(2) by (simp add: word_less_def)
    let ?enc = "be16 ((off + 12) OR 0xC000)"
    have "find_previous_name ?buf HEADER_SIZE ?cur ?name = Some (Some off)"
      using j(1) False by (simp add: find_previous_name_def off_def)
    then have "suffix_loop ?buf ?cur ?name 0 = Some (0, Some off)"
      using suffix_loop_result[OF ls] by simp
    moreover have "arr_write ?buf ?cur [] = Some ?buf" using arr_write_at[of "[]" tail pre] by simp
    moreover have two: "2 \<le> length tail" "2 \<le> length ?name + 1"
      using room ls(2) wire_name_Nil[of ls] by (cases ?name; auto)+
    ultimately have "name_serialize ?name ?buf ?cur = Some (pre @ ?enc @ drop (length ?enc) tail, int (length ?enc))"
      using arr_write_at[of ?enc tail pre] by (simp add: name_serialize_def arr_read_def)
    moreover have "name_deserialize (pre @ ?enc @ rest) ?cur = Some (int (length ?enc), ?name)" for rest
    proof -
      have "name_deserialize (pre @ ?enc @ rest) j = Some (int (length ?name) + 1, ?name)"
        using name_deserialize_full[OF ls(1), of xs "r @ ?enc @ rest"] r x(2) by simp
      then show ?thesis
        using name_deserialize_pointer[of "[]" "off + 12" pre rest "int (length ?name) + 1" ?name] small nz
        by (simp only: u wire_name.simps append_Nil) simp
    qed
    ultimately show ?thesis using two by (intro exI[of _ ?enc]) simp
  qed
qed

section \<open>Properties\<close>

lemma off_word:
  assumes "n < 0x4000"
  shows "uint (word_of_nat n :: uint16_t) = int n" "(word_of_nat n :: uint16_t) < 0x4000"
proof -
  have "unat (word_of_nat n :: uint16_t) = n" using assms by (simp add: unat_of_nat)
  then show u: "uint (word_of_nat n :: uint16_t) = int n" by (metis uint_nat)
  show "(word_of_nat n :: uint16_t) < 0x4000" using u assms by (simp add: word_less_def)
qed

lemma byte_of_pointer: "(49152 :: byte) = 0" "(49164 :: byte) = 12"
  by (simp_all add: word_uint_eq_iff)

lemma takeWhile_wire_labels:
  "\<forall>l \<in> set ls. plain_label l \<and> length l \<le> 63 \<Longrightarrow> wire_labels (takeWhile (\<lambda>l. l \<noteq> []) ls)"
  by (auto simp: wire_label_def plain_label_def dest: set_takeWhileD)

text \<open>
  C31. For every domain text, split at its dots into labels: \<open>encode_name\<close> returns \<open>NULL\<close>
  exactly for the empty text and when a label is longer than 63 bytes; otherwise it returns
  the length-prefixed labels up to the first empty one, and \<open>decode_name\<close> gives these labels
  back joined by dots. So the round trip is exact for texts without empty labels, a final dot
  is dropped, and everything behind two dots in a row is lost.
\<close>

theorem encode_decode_name:
  assumes "\<forall>l \<in> set ls. plain_label l" and "ls \<noteq> []"
  shows "encode_name (Some (dotted ls)) =
      (if dotted ls = [] \<or> (\<exists>l \<in> set ls. 63 < length l) then None
       else Some (wire_name (takeWhile (\<lambda>l. l \<noteq> []) ls))) \<and>
    ((\<forall>l \<in> set ls. length l \<le> 63) \<longrightarrow>
      decode_name (Some (wire_name (takeWhile (\<lambda>l. l \<noteq> []) ls))) =
        Some (Some (dotted (takeWhile (\<lambda>l. l \<noteq> []) ls))))"
proof (intro conjI impI)
  show "encode_name (Some (dotted ls)) =
      (if dotted ls = [] \<or> (\<exists>l \<in> set ls. 63 < length l) then None
       else Some (wire_name (takeWhile (\<lambda>l. l \<noteq> []) ls)))"
  proof (cases "\<exists>l \<in> set ls. 63 < length l")
    case True
    then show ?thesis using encode_loop_labels[OF assms, of "[]"] by (simp add: encode_name_def)
  next
    case False
    then have "\<forall>l \<in> set ls. plain_label l \<and> length l \<le> 63" using assms(1) by auto
    then show ?thesis
      using False encode_loop_labels[OF assms, of "[]"] c_str_wire[of ls] by (simp add: encode_name_def)
  qed
next
  assume "\<forall>l \<in> set ls. length l \<le> 63"
  let ?ls = "takeWhile (\<lambda>l. l \<noteq> []) ls"
  have w: "wire_labels ?ls" using assms(1) \<open>\<forall>l \<in> set ls. length l \<le> 63\<close> by (intro takeWhile_wire_labels) auto
  have "0 \<notin> set (dotted xs)" if "\<forall>l \<in> set xs. plain_label l" for xs
    using that by (induction xs rule: dotted.induct) (auto simp: plain_label_def DOT_def)
  then have "0 \<notin> set (dotted ?ls)" using assms(1) by (auto dest: set_takeWhileD)
  then show "decode_name (Some (wire_name ?ls)) = Some (Some (dotted ?ls))"
    using decode_check_wire[OF w, of "[]"] decode_copy_wire[OF w, of "[]" "[]"]
    by (simp add: decode_name_def c_str_no_zero)
qed

theorem encode_decode_name_witness:
  "encode_name (Some [119, 119, 119, 46, 99, 110]) = Some [3, 119, 119, 119, 2, 99, 110] \<and>
   decode_name (Some [3, 119, 119, 119, 2, 99, 110]) = Some (Some [119, 119, 119, 46, 99, 110])"
  using encode_decode_name[of "[[119, 119, 119], [99, 110]]"]
  by (simp add: plain_label_def DOT_def label_len_def)

text \<open>
  C32. A name that consists of labels and a compression pointer is read as those labels
  followed by the name at the target, wherever in the buffer the two lie; the length returned
  counts only the bytes of the field itself.
\<close>

theorem name_read_compressed:
  assumes "wire_labels ls" and "wire_labels ms" and "length xs < 0x4000"
  shows "name_deserialize (xs @ wire_name ms @ 0 # ys @ wire_name ls @ be16 (word_of_nat (length xs) OR 0xC000) @ rest)
      (int (length xs + length (wire_name ms) + 1 + length ys)) =
    Some (int (length (wire_name ls)) + 2, wire_name (ls @ ms))"
proof -
  let ?off = "word_of_nat (length xs) :: uint16_t"
  let ?zs = "xs @ wire_name ms @ 0 # ys"
  note u = off_word(1)[OF assms(3)] and small = off_word(2)[OF assms(3)]
  have "name_deserialize (?zs @ wire_name ls @ be16 (?off OR 0xC000) @ rest) (uint ?off) =
      Some (int (length (wire_name ms)) + 1, wire_name ms)"
    unfolding u using name_deserialize_full[OF assms(2), of xs] by simp
  from name_deserialize_pointer[OF assms(1) small this wire_no_zero[OF assms(2)]]
  show ?thesis by (simp add: wire_name_append add.assoc)
qed

theorem name_read_compressed_witness:
  "name_deserialize [2, 99, 110, 0, 1, 97, 0xC0, 0] 4 = Some (4, [1, 97, 2, 99, 110])"
  using name_read_compressed[of "[[97]]" "[[99, 110]]" "[]" "[]" "[]"]
  by (simp add: wire_label_def label_len_def be16_def byte_of_pointer)

text \<open>
  C38. A compression pointer to itself makes \<open>name_deserialize\<close> recurse without end, whatever
  surrounds it.
\<close>

theorem name_pointer_loop:
  assumes "length xs < 0x4000"
  shows "name_deserialize (xs @ be16 (word_of_nat (length xs) OR 0xC000) @ rest) (int (length xs)) = None"
proof -
  let ?off = "word_of_nat (length xs) :: uint16_t"
  let ?buf = "xs @ be16 (?off OR 0xC000) @ rest"
  note u = off_word(1)[OF assms] and small = off_word(2)[OF assms]
  note pb = pointer_bytes[OF small]
  have "label_scan ?buf (int (length xs)) 0 = Some 0"
    unfolding pb(1) using label_scan_wire[of "[]" _ "int (length xs)" 0 xs, OF _ disjI2[OF pb(2)]] by simp
  moreover have "arr_get ?buf (int (length xs) + 0) = Some (ucast (drop_bit 8 (?off OR 0xC000)))"
    unfolding pb(1) by (simp add: arr_get_append)
  moreover have "arr_read ?buf (int (length xs) + 0) 2 = Some (be16 (?off OR 0xC000))"
    using arr_read_append[of xs "be16 (?off OR 0xC000)" rest] by simp
  ultimately show ?thesis
    using pb(3,4) u by (intro name_cycle[where S = "{int (length xs)}"]) auto
qed

theorem name_pointer_loop_witness: "name_deserialize (replicate 12 0 @ [0xC0, 12]) 12 = None"
  using name_pointer_loop[of "replicate 12 0" "[]"] by (simp add: be16_def byte_of_pointer)

text \<open>
  C39. The search for an earlier occurrence compares beyond the bytes written so far. When
  these bytes end in the bytes of the name and the next byte of the buffer happens to be zero,
  the name is written as a pointer into itself, which no reader can resolve.
\<close>

theorem name_serialize_self_reference:
  assumes ls: "wire_labels ls" "ls \<noteq> []" and "12 \<le> length xs" and "length xs < 0x4000"
    and first: "find_loop_name (xs @ wire_name ls @ 0 # r # rest) 12
      (int (length xs + length (wire_name ls))) (wire_name ls) = Some (int (length xs))"
  shows "\<exists>buf. name_serialize (wire_name ls) (xs @ wire_name ls @ 0 # r # rest)
      (int (length xs + length (wire_name ls))) = Some (buf, 2) \<and>
    name_deserialize buf (int (length xs + length (wire_name ls))) = None"
proof -
  let ?name = "wire_name ls" and ?off = "word_of_nat (length xs) :: uint16_t"
  let ?cur = "int (length xs + length ?name)" and ?pre = "xs @ ?name"
  let ?enc = "be16 (?off OR 0xC000)"
  note u = off_word(1)[OF assms(4)] and small = off_word(2)[OF assms(4)]
  have ne: "?name \<noteq> []" using ls(2) wire_name_Nil by simp
  have off: "word_of_int (int (length xs) - HEADER_SIZE) + 12 = ?off"
    by (simp add: HEADER_SIZE_def)
  have "find_previous_name (?pre @ 0 # r # rest) HEADER_SIZE ?cur ?name =
      Some (Some (word_of_int (int (length xs) - HEADER_SIZE)))"
    using first ne by (simp add: find_previous_name_def HEADER_SIZE_def)
  then have "suffix_loop (?pre @ 0 # r # rest) ?cur ?name 0 =
      Some (0, Some (word_of_int (int (length xs) - HEADER_SIZE)))"
    using suffix_loop_result[OF ls] by simp
  moreover have "arr_write (?pre @ 0 # r # rest) ?cur [] = Some (?pre @ 0 # r # rest)"
    using arr_write_at[of "[]" "0 # r # rest" ?pre] by simp
  moreover have "arr_write (?pre @ 0 # r # rest) ?cur ?enc = Some (?pre @ ?enc @ rest)"
    using arr_write_at[of ?enc "0 # r # rest" ?pre] by (simp add: numeral_2_eq_2)
  ultimately have "name_serialize ?name (?pre @ 0 # r # rest) ?cur = Some (?pre @ ?enc @ rest, 2)"
    using off by (simp add: name_serialize_def arr_read_def)
  moreover have "name_deserialize (?pre @ ?enc @ rest) ?cur = None"
  proof (rule name_cycle[where S = "{int (length xs), ?cur}"])
    note pb = pointer_bytes[OF small]
    fix c assume "c \<in> {int (length xs), ?cur}"
    then have "label_scan (?pre @ ?enc @ rest) c 0 = Some (?cur - c)"
      using label_scan_wire[OF ls(1) disjI2[OF pb(2)], of "int (length xs)" 0 xs]
        label_scan_wire[of "[]" _ ?cur 0 ?pre, OF _ disjI2[OF pb(2)]]
      unfolding pb(1) by auto
    moreover have "arr_get (?pre @ ?enc @ rest) ?cur = Some (ucast (drop_bit 8 (?off OR 0xC000)))"
      unfolding pb(1) using arr_get_at[of ?cur ?pre] by simp
    moreover have "arr_read (?pre @ ?enc @ rest) ?cur 2 = Some ?enc"
      using arr_read_append[of ?pre ?enc rest] by simp
    ultimately show "\<exists>i b p. label_scan (?pre @ ?enc @ rest) c 0 = Some i \<and>
        arr_get (?pre @ ?enc @ rest) (c + i) = Some b \<and> b \<noteq> 0 \<and>
        arr_read (?pre @ ?enc @ rest) (c + i) 2 = Some p \<and>
        uint (from_be16 p XOR 0xC000) \<in> {int (length xs), ?cur}"
      using pb(3,4) u by (intro exI[of _ "?cur - c"]) simp
  qed simp
  ultimately show ?thesis by auto
qed

theorem name_serialize_self_reference_witness:
  "\<exists>buf. name_serialize [1, 97] (replicate 12 0 @ [1, 97, 0, 0]) 14 = Some (buf, 2) \<and>
    name_deserialize buf 14 = None"
proof -
  have "match_at (replicate 12 0 @ [1, 97, 0, 0]) 12 [1, 97] = Some True"
    by code_simp
  then have "find_loop_name (replicate 12 0 @ [1, 97, 0, 0]) 12 14 [1, 97] = Some 12"
    by (subst find_loop_name.simps) simp
  with name_serialize_self_reference[of "[[97]]" "replicate 12 0" 0 "[]"] show ?thesis
    by (simp add: wire_label_def label_len_def)
qed

end
