(* ===== verification/Dns_Packet.thy ===== *)
theory Dns_Packet
  imports Dns_Name
begin

text \<open>
  DNS packets: the structures of \<^verbatim>\<open>include/dns/protocol.h\<close> with its flag macros, and the
  reading, writing, creating and cloning of packets in \<^verbatim>\<open>src/dns/dns_resolver.c\<close>. The
  vectors of questions and records are lists, which the interface \<open>sequence\<close> of
  \<open>Stl_Vector\<close> justifies: the code only creates them, appends, reads by index and copies.
  A buffer is the list of the bytes of its array. The two-step idiom \<open>memcpy\<close> and
  \<open>n2h_2\<close> / \<open>h2n_2\<close> on a field is its value in network order (\<open>from_be16\<close>, \<open>be16\<close>), by
  the lemmas of \<open>Byte_Order\<close> on either kind of host. The packets of this theory are values;
  \<open>Packet_Memory\<close> has them on a heap.
\<close>

section \<open>Data\<close>

record SectionHeader =
  hdr_id :: uint16_t
  flags :: uint16_t
  qcount :: uint16_t
  answer_RRs :: uint16_t
  authority_RRs :: uint16_t
  additional_RRs :: uint16_t

record SectionQuestion =
  qname :: cstr
  qtype :: uint16_t
  qclass :: uint16_t

text \<open>\<open>rdata\<close> is the memory block behind the pointer.\<close>

record ResourceRecord =
  rr_name :: cstr
  rr_type :: uint16_t
  rr_class :: uint16_t
  ttl :: uint32_t
  rdata_length :: uint16_t
  rdata :: "byte list"

record DnsPacket =
  header :: SectionHeader
  questions :: "SectionQuestion list"
  rrs :: "ResourceRecord list"

definition QTYPE_A :: uint16_t where "QTYPE_A = 1"
definition QTYPE_NS :: uint16_t where "QTYPE_NS = 2"
definition QTYPE_CNAME :: uint16_t where "QTYPE_CNAME = 5"
definition QTYPE_SOA :: uint16_t where "QTYPE_SOA = 6"
definition QTYPE_MX :: uint16_t where "QTYPE_MX = 15"
definition QTYPE_AAAA :: uint16_t where "QTYPE_AAAA = 28"
definition QCLASS_IN :: uint16_t where "QCLASS_IN = 1"

datatype OpCode = QUERY | IQUERY | STATUS

fun opcode_num :: "OpCode \<Rightarrow> uint16_t" where
  "opcode_num QUERY = 0"
| "opcode_num IQUERY = 1"
| "opcode_num STATUS = 2"

datatype Rcode = RCODE_NOERROR | RCODE_FORMERR | RCODE_SERVFAIL | RCODE_NXDOMAIN | RCODE_NOTIMP | RCODE_REFUSED

fun rcode_num :: "Rcode \<Rightarrow> uint16_t" where
  "rcode_num RCODE_NOERROR = 0"
| "rcode_num RCODE_FORMERR = 1"
| "rcode_num RCODE_SERVFAIL = 2"
| "rcode_num RCODE_NXDOMAIN = 3"
| "rcode_num RCODE_NOTIMP = 4"
| "rcode_num RCODE_REFUSED = 5"

section \<open>Flag macros\<close>

definition IS_QUERY :: "uint16_t \<Rightarrow> bool" where
  "IS_QUERY fl \<longleftrightarrow> drop_bit 15 fl XOR 1 \<noteq> 0"

definition QR_SET :: "uint16_t \<Rightarrow> uint16_t" where
  "QR_SET fl = fl OR 0x8000"

definition OPCODE_GET :: "uint16_t \<Rightarrow> uint16_t" where
  "OPCODE_GET fl = drop_bit 12 fl AND 0xf"

definition RA_SET :: "uint16_t \<Rightarrow> uint16_t" where
  "RA_SET fl = fl OR 0x0080"

definition RD_SET :: "uint16_t \<Rightarrow> uint16_t" where
  "RD_SET fl = fl OR 0x0100"

definition RD_GET :: "uint16_t \<Rightarrow> uint16_t" where
  "RD_GET fl = drop_bit 8 fl AND 1"

definition RCODE :: "uint16_t \<Rightarrow> uint16_t" where
  "RCODE fl = fl AND 0xf"

definition packet_is_query :: "DnsPacket \<Rightarrow> bool" where
  "packet_is_query p = IS_QUERY (flags (header p))"

section \<open>Creating and cloning\<close>

definition pack_create :: DnsPacket where
  "pack_create = \<lparr>header = \<lparr>hdr_id = 0, flags = 0, qcount = 0, answer_RRs = 0, authority_RRs = 0,
     additional_RRs = 0\<rparr>, questions = [], rrs = []\<rparr>"

text \<open>\<open>rr_clone\<close> and \<open>rrs_clone\<close> copy \<open>rdata_length\<close> bytes of the data.\<close>

definition rr_clone :: "ResourceRecord \<Rightarrow> ResourceRecord option" where
  "rr_clone r = do {
     d \<leftarrow> arr_read (rdata r) 0 (unat (rdata_length r));
     Some (r\<lparr>rdata := d\<rparr>) }"

definition question_clone :: "SectionQuestion \<Rightarrow> SectionQuestion" where
  "question_clone orig = \<lparr>qname = qname orig, qtype = qtype orig, qclass = qclass orig\<rparr>"

definition questions_clone :: "SectionQuestion list \<Rightarrow> SectionQuestion list" where
  "questions_clone qs = map question_clone qs"

fun rrs_clone :: "ResourceRecord list \<Rightarrow> ResourceRecord list option" where
  "rrs_clone [] = Some []"
| "rrs_clone (r # rs) = do { c \<leftarrow> rr_clone r; cs \<leftarrow> rrs_clone rs; Some (c # cs) }"

definition packet_clone :: "DnsPacket \<Rightarrow> DnsPacket option" where
  "packet_clone source = do {
     rs \<leftarrow> rrs_clone (rrs source);
     Some (pack_create\<lparr>header := header source, questions := questions_clone (questions source), rrs := rs\<rparr>) }"

section \<open>Reading\<close>

definition get16 :: "byte list \<Rightarrow> int \<Rightarrow> uint16_t option" where
  "get16 buf i = do { bs \<leftarrow> arr_read buf i 2; Some (from_be16 bs) }"

definition get32 :: "byte list \<Rightarrow> int \<Rightarrow> uint32_t option" where
  "get32 buf i = do { bs \<leftarrow> arr_read buf i 4; Some (from_be32 bs) }"

text \<open>\<open>memcpy\<close> of the header and \<open>header_endian_2h\<close>.\<close>

definition header_read :: "byte list \<Rightarrow> SectionHeader option" where
  "header_read buf = do {
     a \<leftarrow> get16 buf 0; b \<leftarrow> get16 buf 2; c \<leftarrow> get16 buf 4;
     d \<leftarrow> get16 buf 6; e \<leftarrow> get16 buf 8; f \<leftarrow> get16 buf 10;
     Some \<lparr>hdr_id = a, flags = b, qcount = c, answer_RRs = d, authority_RRs = e, additional_RRs = f\<rparr> }"

text \<open>The reading functions return what they read and the number of bytes.\<close>

definition question_deserialize :: "byte list \<Rightarrow> int \<Rightarrow> (SectionQuestion \<times> int) option" where
  "question_deserialize buf cur = do {
     name \<leftarrow> str_at buf cur;
     let c1 = cur + int (length name) + 1;
     t \<leftarrow> get16 buf c1;
     c \<leftarrow> get16 buf (c1 + 2);
     Some (\<lparr>qname = name, qtype = t, qclass = c\<rparr>, c1 + 4 - cur) }"

fun questions_deserialize :: "byte list \<Rightarrow> int \<Rightarrow> nat \<Rightarrow> (SectionQuestion list \<times> int) option" where
  "questions_deserialize buf cur 0 = Some ([], 0)"
| "questions_deserialize buf cur (Suc qc) = do {
     (q, n) \<leftarrow> question_deserialize buf cur;
     (qs, m) \<leftarrow> questions_deserialize buf (cur + n) qc;
     Some (q # qs, n + m) }"

text \<open>
  \<open>rdata_deserialize\<close>: names are expanded, other data copied. For \<open>MX\<close> the code copies the
  preference over the low bytes of the pointer \<open>rr->rdata\<close> itself and then stores the name
  through it, so that case has no result.
\<close>

definition rdata_deserialize :: "byte list \<Rightarrow> int \<Rightarrow> ResourceRecord \<Rightarrow> ResourceRecord option" where
  "rdata_deserialize buf cur r =
     (if rr_type r = QTYPE_CNAME \<or> rr_type r = QTYPE_NS
      then do {
        (n, name) \<leftarrow> name_deserialize buf cur;
        Some (r\<lparr>rdata := name @ [0], rdata_length := word_of_nat (length name + 1)\<rparr>) }
      else if rr_type r = QTYPE_MX then None
      else do {
        d \<leftarrow> arr_read buf cur (unat (rdata_length r));
        Some (r\<lparr>rdata := d\<rparr>) })"

definition rr_deserialize :: "byte list \<Rightarrow> int \<Rightarrow> (ResourceRecord \<times> int) option" where
  "rr_deserialize buf cur = do {
     (n, name) \<leftarrow> name_deserialize buf cur;
     let c1 = cur + n;
     t \<leftarrow> get16 buf c1;
     c \<leftarrow> get16 buf (c1 + 2);
     life \<leftarrow> get32 buf (c1 + 4);
     len \<leftarrow> get16 buf (c1 + 8);
     r \<leftarrow> rdata_deserialize buf (c1 + 10)
       \<lparr>rr_name = name, rr_type = t, rr_class = c, ttl = life, rdata_length = len, rdata = []\<rparr>;
     Some (r, n + 10 + int (unat len)) }"

fun rrs_deserialize :: "byte list \<Rightarrow> int \<Rightarrow> nat \<Rightarrow> (ResourceRecord list \<times> int) option" where
  "rrs_deserialize buf cur 0 = Some ([], 0)"
| "rrs_deserialize buf cur (Suc cnt) = do {
     (r, n) \<leftarrow> rr_deserialize buf cur;
     (rs, m) \<leftarrow> rrs_deserialize buf (cur + n) cnt;
     Some (r # rs, n + m) }"

text \<open>The three record counts together, as the code adds them up in an \<open>int\<close>.\<close>

definition rr_count :: "SectionHeader \<Rightarrow> nat" where
  "rr_count h = unat (answer_RRs h) + unat (authority_RRs h) + unat (additional_RRs h)"

text \<open>The return code, and the packet when it is 0.\<close>

definition pack_deserialize :: "byte list \<Rightarrow> int \<Rightarrow> (int \<times> DnsPacket option) option" where
  "pack_deserialize raw len =
     (if len > 512 \<or> len < 12 then Some (-1, None)
      else do {
        h \<leftarrow> header_read raw;
        (qs, n) \<leftarrow> questions_deserialize raw HEADER_SIZE (unat (qcount h));
        (rs, m) \<leftarrow> rrs_deserialize raw (HEADER_SIZE + n) (rr_count h);
        Some (0, Some (pack_create\<lparr>header := h, questions := qs, rrs := rs\<rparr>)) })"

section \<open>Writing\<close>

text \<open>\<open>memcpy\<close> of the header and \<open>header_endian_2n\<close>.\<close>

definition header_bytes :: "SectionHeader \<Rightarrow> byte list" where
  "header_bytes h = be16 (hdr_id h) @ be16 (flags h) @ be16 (qcount h) @ be16 (answer_RRs h) @
     be16 (authority_RRs h) @ be16 (additional_RRs h)"

text \<open>The writing functions return the new buffer and the number of bytes.\<close>

definition question_serialize :: "SectionQuestion \<Rightarrow> byte list \<Rightarrow> int \<Rightarrow> (byte list \<times> int) option" where
  "question_serialize q buf cur = do {
     b1 \<leftarrow> arr_write buf cur (qname q @ [0]);
     let c1 = cur + int (length (qname q)) + 1;
     b2 \<leftarrow> arr_write b1 c1 (be16 (qtype q));
     b3 \<leftarrow> arr_write b2 (c1 + 2) (be16 (qclass q));
     Some (b3, c1 + 4 - cur) }"

fun questions_serialize :: "SectionQuestion list \<Rightarrow> nat \<Rightarrow> nat \<Rightarrow> byte list \<Rightarrow> int \<Rightarrow> (byte list \<times> int) option" where
  "questions_serialize qs i 0 buf cur = Some (buf, 0)"
| "questions_serialize qs i (Suc left) buf cur = do {
     q \<leftarrow> arr_get qs (int i);
     (b1, n) \<leftarrow> question_serialize q buf cur;
     (b2, m) \<leftarrow> questions_serialize qs (Suc i) left b1 (cur + n);
     Some (b2, n + m) }"

definition rr_serialize :: "byte list \<Rightarrow> int \<Rightarrow> ResourceRecord \<Rightarrow> (byte list \<times> int) option" where
  "rr_serialize buf cur r = do {
     (b1, n) \<leftarrow> name_serialize (rr_name r) buf cur;
     let c1 = cur + n;
     b2 \<leftarrow> arr_write b1 c1 (be16 (rr_type r));
     b3 \<leftarrow> arr_write b2 (c1 + 2) (be16 (rr_class r));
     b4 \<leftarrow> arr_write b3 (c1 + 4) (be32 (ttl r));
     b5 \<leftarrow> arr_write b4 (c1 + 8) (be16 (rdata_length r));
     d \<leftarrow> arr_read (rdata r) 0 (unat (rdata_length r));
     b6 \<leftarrow> arr_write b5 (c1 + 10) d;
     Some (b6, n + 10 + int (unat (rdata_length r))) }"

text \<open>The check against \<open>buff_size\<close> comes after the bytes are written.\<close>

fun rrs_serialize :: "ResourceRecord list \<Rightarrow> nat \<Rightarrow> nat \<Rightarrow> byte list \<Rightarrow> int \<Rightarrow> int
    \<Rightarrow> (byte list \<times> int) option" where
  "rrs_serialize rs i 0 buf cur buff_size = Some (buf, 0)"
| "rrs_serialize rs i (Suc left) buf cur buff_size = do {
     r \<leftarrow> arr_get rs (int i);
     (b1, n) \<leftarrow> rr_serialize buf cur r;
     if cur + n > buff_size then Some (b1, n)
     else do {
       (b2, m) \<leftarrow> rrs_serialize rs (Suc i) left b1 (cur + n) buff_size;
       Some (b2, n + m) } }"

definition pack_serialize :: "DnsPacket \<Rightarrow> byte list \<Rightarrow> int \<Rightarrow> (byte list \<times> int) option" where
  "pack_serialize p buf buf_size = do {
     b1 \<leftarrow> arr_write buf 0 (header_bytes (header p));
     if HEADER_SIZE > buf_size then Some (b1, -1)
     else do {
       (b2, n) \<leftarrow> questions_serialize (questions p) 0 (unat (qcount (header p))) b1 HEADER_SIZE;
       if HEADER_SIZE + n > buf_size then Some (b2, -1)
       else do {
         (b3, m) \<leftarrow> rrs_serialize (rrs p) 0 (rr_count (header p)) b2 (HEADER_SIZE + n) buf_size;
         Some (b3, HEADER_SIZE + n + m) } } }"

section \<open>Buffers being filled\<close>

lemma write_step [wire_simps]:
  "cur = int (length xs) \<Longrightarrow> length ys \<le> length ws \<Longrightarrow>
     arr_write (xs @ ws) cur ys = Some ((xs @ ys) @ drop (length ys) ws)"
  by (simp add: arr_write_at)

lemma read_drop:
  "0 \<le> i \<Longrightarrow> drop (nat i) buf = ys @ r \<Longrightarrow> n = length ys \<Longrightarrow> ys \<noteq> [] \<Longrightarrow> arr_read buf i n = Some ys"
proof -
  assume a: "0 \<le> i" "drop (nat i) buf = ys @ r" "n = length ys" "ys \<noteq> []"
  then have "length buf - nat i = length ys + length r" by (metis length_append length_drop)
  with a(1,3,4) have "i + int n \<le> int (length buf)" by (cases ys) auto
  with a show ?thesis by (simp add: arr_read_def)
qed

lemma be16_not_Nil [simp]: "be16 v \<noteq> []" "be32 w \<noteq> []"
  using length_be16[of v] length_be32[of w] by fastforce+

lemma get16_drop: "0 \<le> i \<Longrightarrow> drop (nat i) buf = be16 v @ r \<Longrightarrow> get16 buf i = Some v"
  using read_drop[of i buf "be16 v" r 2] by (simp add: get16_def)

lemma get32_drop: "0 \<le> i \<Longrightarrow> drop (nat i) buf = be32 v @ r \<Longrightarrow> get32 buf i = Some v"
  using read_drop[of i buf "be32 v" r 4] by (simp add: get32_def)

lemma header_read_bytes: "header_read (header_bytes h @ rest) = Some h"
proof -
  let ?b = "header_bytes h @ rest"
  have "get16 ?b 0 = Some (hdr_id h)" "get16 ?b 2 = Some (flags h)" "get16 ?b 4 = Some (qcount h)"
    "get16 ?b 6 = Some (answer_RRs h)" "get16 ?b 8 = Some (authority_RRs h)"
    "get16 ?b 10 = Some (additional_RRs h)"
    by (rule get16_drop; simp add: header_bytes_def)+
  then show ?thesis by (simp add: header_read_def)
qed

lemma length_header_bytes [simp]: "length (header_bytes h) = 12"
  by (simp add: header_bytes_def)

section \<open>Questions\<close>

definition question_bytes :: "SectionQuestion \<Rightarrow> byte list" where
  "question_bytes q = qname q @ 0 # be16 (qtype q) @ be16 (qclass q)"

lemma question_serialize_bytes:
  assumes "length (question_bytes q) \<le> length tail"
  shows "question_serialize q (pre @ tail) (int (length pre)) =
    Some ((pre @ question_bytes q) @ drop (length (question_bytes q)) tail, int (length (question_bytes q)))"
  using assms
  by (simp add: question_serialize_def Let_def question_bytes_def write_step[of _ pre]
      write_step[of _ "pre @ qname q @ [0]", simplified] write_step[of _ "pre @ qname q @ 0 # be16 (qtype q)", simplified]
      numeral_eq_Suc)

lemma question_deserialize_bytes:
  assumes "0 \<notin> set (qname q)"
  shows "question_deserialize (pre @ question_bytes q @ rest) (int (length pre)) =
    Some (q, int (length (question_bytes q)))"
proof -
  let ?b = "pre @ question_bytes q @ rest" and ?c = "int (length pre) + int (length (qname q)) + 1"
  have "str_at ?b (int (length pre)) = Some (qname q)"
    using str_at_append[OF assms] by (simp add: question_bytes_def)
  moreover have "get16 ?b ?c = Some (qtype q)" "get16 ?b (?c + 2) = Some (qclass q)"
    by (rule get16_drop; simp add: question_bytes_def nat_add_distrib)+
  ultimately show ?thesis by (simp add: question_deserialize_def Let_def question_bytes_def)
qed

definition questions_bytes :: "SectionQuestion list \<Rightarrow> byte list" where
  "questions_bytes qs = concat (map question_bytes qs)"

lemma questions_serialize_bytes:
  "length (questions_bytes qs) \<le> length tail \<Longrightarrow>
     questions_serialize (ds @ qs) (length ds) (length qs) (pre @ tail) (int (length pre)) =
       Some ((pre @ questions_bytes qs) @ drop (length (questions_bytes qs)) tail,
         int (length (questions_bytes qs)))"
proof (induction qs arbitrary: ds pre tail)
  case Nil
  then show ?case by (simp add: questions_bytes_def)
next
  case (Cons q qs)
  let ?n = "length (question_bytes q)"
  have "question_serialize q (pre @ tail) (int (length pre)) =
      Some ((pre @ question_bytes q) @ drop ?n tail, int ?n)"
    using Cons.prems by (intro question_serialize_bytes) (simp add: questions_bytes_def)
  moreover have "arr_get (ds @ q # qs) (int (length ds)) = Some q" by (rule arr_get_append)
  moreover have "questions_serialize ((ds @ [q]) @ qs) (length (ds @ [q])) (length qs)
      ((pre @ question_bytes q) @ drop ?n tail) (int (length (pre @ question_bytes q))) =
      Some (((pre @ question_bytes q) @ questions_bytes qs) @ drop (length (questions_bytes qs)) (drop ?n tail),
        int (length (questions_bytes qs)))"
    using Cons.prems by (intro Cons.IH) (simp add: questions_bytes_def)
  ultimately show ?case by (simp add: questions_bytes_def add.commute)
qed

lemma questions_deserialize_bytes:
  "\<forall>q \<in> set qs. 0 \<notin> set (qname q) \<Longrightarrow>
     questions_deserialize (pre @ questions_bytes qs @ rest) (int (length pre)) (length qs) =
       Some (qs, int (length (questions_bytes qs)))"
proof (induction qs arbitrary: pre)
  case (Cons q qs)
  have "question_deserialize (pre @ question_bytes q @ questions_bytes qs @ rest) (int (length pre)) =
      Some (q, int (length (question_bytes q)))"
    using Cons.prems by (intro question_deserialize_bytes) simp
  moreover have "questions_deserialize ((pre @ question_bytes q) @ questions_bytes qs @ rest)
      (int (length (pre @ question_bytes q))) (length qs) = Some (qs, int (length (questions_bytes qs)))"
    using Cons.prems by (intro Cons.IH) simp
  ultimately show ?case by (simp add: questions_bytes_def)
qed (simp add: questions_bytes_def)

section \<open>Records\<close>

text \<open>
  A record as the parser produces it: its name is a non-empty list of labels, the data has the
  length the record says, and the data of \<open>CNAME\<close> and \<open>NS\<close> is a name.
\<close>

definition rr_ok :: "ResourceRecord \<Rightarrow> bool" where
  "rr_ok r \<longleftrightarrow>
     (\<exists>ls. ls \<noteq> [] \<and> wire_labels ls \<and> rr_name r = wire_name ls) \<and>
     unat (rdata_length r) = length (rdata r) \<and> rr_type r \<noteq> QTYPE_MX \<and>
     (rr_type r = QTYPE_CNAME \<or> rr_type r = QTYPE_NS \<longrightarrow>
        (\<exists>ms. wire_labels ms \<and> rdata r = wire_name ms @ [0]))"

definition rr_room :: "ResourceRecord \<Rightarrow> nat" where
  "rr_room r = length (rr_name r) + 11 + length (rdata r)"

definition rr_body :: "ResourceRecord \<Rightarrow> byte list" where
  "rr_body r = be16 (rr_type r) @ be16 (rr_class r) @ be32 (ttl r) @ be16 (rdata_length r) @ rdata r"

lemma length_rr_body [simp]: "length (rr_body r) = 10 + length (rdata r)"
  by (simp add: rr_body_def)

text \<open>The part of \<open>rr_serialize\<close> behind the name.\<close>

lemma rr_body_write:
  assumes "unat (rdata_length r) = length (rdata r)" "length (rr_body r) \<le> length ws"
  shows "do {
     b2 \<leftarrow> arr_write (xs @ ws) (int (length xs)) (be16 (rr_type r));
     b3 \<leftarrow> arr_write b2 (int (length xs) + 2) (be16 (rr_class r));
     b4 \<leftarrow> arr_write b3 (int (length xs) + 4) (be32 (ttl r));
     b5 \<leftarrow> arr_write b4 (int (length xs) + 8) (be16 (rdata_length r));
     d \<leftarrow> arr_read (rdata r) 0 (unat (rdata_length r));
     b6 \<leftarrow> arr_write b5 (int (length xs) + 10) d;
     Some (b6, n) } = Some (xs @ rr_body r @ drop (length (rr_body r)) ws, n)"
proof -
  let ?x1 = "xs @ be16 (rr_type r)" let ?x2 = "?x1 @ be16 (rr_class r)"
  let ?x3 = "?x2 @ be32 (ttl r)" let ?x4 = "?x3 @ be16 (rdata_length r)"
  have len: "10 + length (rdata r) \<le> length ws" using assms(2) by simp
  have "arr_write (xs @ ws) (int (length xs)) (be16 (rr_type r)) = Some (?x1 @ drop 2 ws)"
    using len write_step[of "int (length xs)" xs "be16 (rr_type r)" ws] by simp
  moreover have "arr_write (?x1 @ drop 2 ws) (int (length xs) + 2) (be16 (rr_class r)) = Some (?x2 @ drop 4 ws)"
    using len write_step[of "int (length xs) + 2" ?x1 "be16 (rr_class r)" "drop 2 ws"] by simp
  moreover have "arr_write (?x2 @ drop 4 ws) (int (length xs) + 4) (be32 (ttl r)) = Some (?x3 @ drop 8 ws)"
    using len write_step[of "int (length xs) + 4" ?x2 "be32 (ttl r)" "drop 4 ws"] by simp
  moreover have "arr_write (?x3 @ drop 8 ws) (int (length xs) + 8) (be16 (rdata_length r)) = Some (?x4 @ drop 10 ws)"
    using len write_step[of "int (length xs) + 8" ?x3 "be16 (rdata_length r)" "drop 8 ws"] by simp
  moreover have "arr_read (rdata r) 0 (unat (rdata_length r)) = Some (rdata r)"
    using assms(1) by (simp add: arr_read_def)
  moreover have "arr_write (?x4 @ drop 10 ws) (int (length xs) + 10) (rdata r) =
      Some ((?x4 @ rdata r) @ drop (length (rdata r)) (drop 10 ws))"
    using len by (intro write_step) simp_all
  ultimately show ?thesis by (simp add: rr_body_def add.commute)
qed

lemma rr_body_read:
  assumes "rr_ok r"
  shows "do {
     t \<leftarrow> get16 (xs @ rr_body r @ rest) (int (length xs));
     c \<leftarrow> get16 (xs @ rr_body r @ rest) (int (length xs) + 2);
     life \<leftarrow> get32 (xs @ rr_body r @ rest) (int (length xs) + 4);
     len \<leftarrow> get16 (xs @ rr_body r @ rest) (int (length xs) + 8);
     r' \<leftarrow> rdata_deserialize (xs @ rr_body r @ rest) (int (length xs) + 10)
       \<lparr>rr_name = rr_name r, rr_type = t, rr_class = c, ttl = life, rdata_length = len, rdata = []\<rparr>;
     Some (r', n + 10 + int (unat len)) } = Some (r, n + int (length (rr_body r)))"
proof -
  let ?b = "xs @ rr_body r @ rest" and ?i = "int (length xs)"
  have g: "get16 ?b ?i = Some (rr_type r)" "get16 ?b (?i + 2) = Some (rr_class r)"
    "get16 ?b (?i + 8) = Some (rdata_length r)"
    by (rule get16_drop; simp add: rr_body_def nat_add_distrib)+
  have g4: "get32 ?b (?i + 4) = Some (ttl r)"
    by (rule get32_drop; simp add: rr_body_def nat_add_distrib)
  have dl: "unat (rdata_length r) = length (rdata r)" and mx: "rr_type r \<noteq> QTYPE_MX"
    using assms by (auto simp: rr_ok_def)
  have "rdata_deserialize ?b (?i + 10) (r\<lparr>rdata := []\<rparr>) = Some r"
  proof (cases "rr_type r = QTYPE_CNAME \<or> rr_type r = QTYPE_NS")
    case True
    then obtain ms where ms: "wire_labels ms" "rdata r = wire_name ms @ [0]"
      using assms by (auto simp: rr_ok_def)
    let ?ys = "xs @ be16 (rr_type r) @ be16 (rr_class r) @ be32 (ttl r) @ be16 (rdata_length r)"
    have "name_deserialize (?ys @ wire_name ms @ 0 # rest) (int (length ?ys)) =
        Some (int (length (wire_name ms)) + 1, wire_name ms)"
      by (rule name_deserialize_full[OF ms(1)])
    then have "name_deserialize ?b (?i + 10) = Some (int (length (wire_name ms)) + 1, wire_name ms)"
      by (simp add: rr_body_def ms(2))
    moreover have "(word_of_nat (length (wire_name ms) + 1) :: uint16_t) = rdata_length r"
    proof -
      have "length (wire_name ms) + 1 = unat (rdata_length r)" using dl ms(2) by simp
      then show ?thesis by (simp only: of_nat_unat ucast_id)
    qed
    ultimately show ?thesis using True ms(2) by (simp add: rdata_deserialize_def)
  next
    case False
    show ?thesis
    proof (cases "rdata r = []")
      case True
      then show ?thesis using False mx dl
        by (simp add: rdata_deserialize_def arr_read_def rr_body_def)
    next
      case nonempty: False
      have "arr_read ?b (?i + 10) (length (rdata r)) = Some (rdata r)"
        by (rule read_drop) (use nonempty in \<open>simp_all add: rr_body_def nat_add_distrib\<close>)
      then show ?thesis using False mx dl by (simp add: rdata_deserialize_def)
    qed
  qed
  moreover have "r\<lparr>rdata := []\<rparr> = \<lparr>rr_name = rr_name r, rr_type = rr_type r, rr_class = rr_class r,
      ttl = ttl r, rdata_length = rdata_length r, rdata = []\<rparr>" by simp
  moreover have "uint (rdata_length r) = int (length (rdata r))" using dl by (metis uint_nat)
  ultimately show ?thesis using g g4 by (simp add: rr_body_def)
qed

lemma rr_roundtrip:
  assumes ok: "rr_ok r" and pre: "12 \<le> length pre" "length pre \<le> 0x3FFF"
    and room: "rr_room r \<le> length tail"
    and clear: "clear_ref (pre @ tail) (int (length pre)) (rr_name r)"
  shows "\<exists>enc. rr_serialize (pre @ tail) (int (length pre)) r =
      Some (pre @ enc @ drop (length enc) tail, int (length enc)) \<and> length enc \<le> rr_room r \<and>
    (\<forall>rest. rr_deserialize (pre @ enc @ rest) (int (length pre)) = Some (r, int (length enc)))"
proof -
  obtain ls where ls: "ls \<noteq> []" "wire_labels ls" "rr_name r = wire_name ls"
    using ok by (auto simp: rr_ok_def)
  have "length (wire_name ls) < length tail" using room ls(3) by (simp add: rr_room_def)
  then obtain nenc where n: "name_serialize (rr_name r) (pre @ tail) (int (length pre)) =
      Some (pre @ nenc @ drop (length nenc) tail, int (length nenc))"
    "length nenc \<le> length (rr_name r) + 1"
    "\<And>rest. name_deserialize (pre @ nenc @ rest) (int (length pre)) = Some (int (length nenc), rr_name r)"
    using name_serialize_written[OF ls(2,1) pre, of tail] clear ls(3) by auto
  let ?enc = "nenc @ rr_body r"
  have dl: "unat (rdata_length r) = length (rdata r)" using ok by (simp add: rr_ok_def)
  have udl: "uint (rdata_length r) = int (length (rdata r))" using dl by (metis uint_nat)
  have "length (rr_body r) \<le> length (drop (length nenc) tail)"
    using room n(2) by (simp add: rr_room_def)
  note w = rr_body_write[OF dl this, of "pre @ nenc"]
  have "rr_serialize (pre @ tail) (int (length pre)) r = Some (pre @ ?enc @ drop (length ?enc) tail, int (length ?enc))"
    using n(1) w[of "int (length nenc) + 10 + int (length (rdata r))"]
    by (simp add: rr_serialize_def Let_def udl) (simp add: ac_simps)
  moreover have "length ?enc \<le> rr_room r" using n(2) by (simp add: rr_room_def)
  moreover have "rr_deserialize (pre @ ?enc @ rest) (int (length pre)) = Some (r, int (length ?enc))" for rest
    using n(3)[of "rr_body r @ rest"] rr_body_read[OF ok, of "pre @ nenc" rest "int (length nenc)"]
    by (simp add: rr_deserialize_def Let_def add.assoc)
  ultimately show ?thesis by blast
qed

text \<open>Every name of the sequence is clear at the moment it is written.\<close>

fun refs_clear :: "ResourceRecord list \<Rightarrow> byte list \<Rightarrow> int \<Rightarrow> bool" where
  "refs_clear [] buf cur \<longleftrightarrow> True"
| "refs_clear (r # rs) buf cur \<longleftrightarrow>
     clear_ref buf cur (rr_name r) \<and>
     (case rr_serialize buf cur r of None \<Rightarrow> False | Some (b, n) \<Rightarrow> refs_clear rs b (cur + n))"

definition rrs_room :: "ResourceRecord list \<Rightarrow> nat" where
  "rrs_room rs = sum_list (map rr_room rs)"

lemma rrs_roundtrip:
  assumes "\<forall>r \<in> set rs. rr_ok r" and "12 \<le> length pre" "length pre + rrs_room rs \<le> 0x3FFF"
    and "rrs_room rs \<le> length tail" and "int (length pre + rrs_room rs) \<le> lim"
    and "refs_clear rs (pre @ tail) (int (length pre))"
  shows "\<exists>enc. rrs_serialize (ds @ rs) (length ds) (length rs) (pre @ tail) (int (length pre)) lim =
      Some (pre @ enc @ drop (length enc) tail, int (length enc)) \<and> length enc \<le> rrs_room rs \<and>
    (\<forall>rest. rrs_deserialize (pre @ enc @ rest) (int (length pre)) (length rs) = Some (rs, int (length enc)))"
  using assms
proof (induction rs arbitrary: ds pre tail)
  case Nil
  then show ?case by (intro exI[of _ "[]"]) simp
next
  case (Cons r rs)
  have room: "rr_room r + rrs_room rs \<le> length tail" using Cons.prems(4) by (simp add: rrs_room_def)
  obtain e where e: "rr_serialize (pre @ tail) (int (length pre)) r =
      Some (pre @ e @ drop (length e) tail, int (length e))" "length e \<le> rr_room r"
    "\<And>rest. rr_deserialize (pre @ e @ rest) (int (length pre)) = Some (r, int (length e))"
    using rr_roundtrip[of r pre tail] Cons.prems by (auto simp: rrs_room_def)
  have clear: "refs_clear rs ((pre @ e) @ drop (length e) tail) (int (length (pre @ e)))"
    using Cons.prems(6) e(1) by (simp add: add.commute)
  have p: "\<forall>r \<in> set rs. rr_ok r" "12 \<le> length (pre @ e)" "length (pre @ e) + rrs_room rs \<le> 0x3FFF"
    "rrs_room rs \<le> length (drop (length e) tail)" "int (length (pre @ e) + rrs_room rs) \<le> lim"
    using Cons.prems e(2) room by (auto simp: rrs_room_def)
  obtain es where es: "rrs_serialize ((ds @ [r]) @ rs) (length (ds @ [r])) (length rs)
      ((pre @ e) @ drop (length e) tail) (int (length (pre @ e))) lim =
      Some ((pre @ e) @ es @ drop (length es) (drop (length e) tail), int (length es))"
    "length es \<le> rrs_room rs"
    "\<And>rest. rrs_deserialize ((pre @ e) @ es @ rest) (int (length (pre @ e))) (length rs) = Some (rs, int (length es))"
    using Cons.IH[OF p clear, of "ds @ [r]"] by blast
  have "arr_get (ds @ r # rs) (int (length ds)) = Some r" by (rule arr_get_append)
  moreover have "\<not> int (length pre) + int (length e) > lim"
    using Cons.prems(5) e(2) by (simp add: rrs_room_def)
  ultimately have "rrs_serialize (ds @ r # rs) (length ds) (length (r # rs)) (pre @ tail) (int (length pre)) lim =
      Some (pre @ (e @ es) @ drop (length (e @ es)) tail, int (length (e @ es)))"
    using e(1) es(1) by (simp add: add.commute)
  moreover have "length (e @ es) \<le> rrs_room (r # rs)" using e(2) es(2) by (simp add: rrs_room_def)
  moreover have "rrs_deserialize (pre @ (e @ es) @ rest) (int (length pre)) (length (r # rs)) =
      Some (r # rs, int (length (e @ es)))" for rest
    using e(3)[of "es @ rest"] es(3)[of rest] by simp
  ultimately show ?case by blast
qed

section \<open>Packets\<close>

definition packet_ok :: "DnsPacket \<Rightarrow> bool" where
  "packet_ok p \<longleftrightarrow>
     unat (qcount (header p)) = length (questions p) \<and> rr_count (header p) = length (rrs p) \<and>
     (\<forall>q \<in> set (questions p). 0 \<notin> set (qname q)) \<and> (\<forall>r \<in> set (rrs p). rr_ok r)"

text \<open>The size without compression.\<close>

definition packet_room :: "DnsPacket \<Rightarrow> nat" where
  "packet_room p = 12 + length (questions_bytes (questions p)) + rrs_room (rrs p)"

definition packet_prefix :: "DnsPacket \<Rightarrow> byte list" where
  "packet_prefix p = header_bytes (header p) @ questions_bytes (questions p)"

lemma length_packet_prefix:
  "length (packet_prefix p) = 12 + length (questions_bytes (questions p))"
  by (simp add: packet_prefix_def)

lemma pack_roundtrip_lemma:
  assumes ok: "packet_ok p" and room: "packet_room p \<le> length buf" "int (packet_room p) \<le> size_of_buf"
    "packet_room p \<le> 0x3FFF"
    and clear: "refs_clear (rrs p) (packet_prefix p @ drop (length (packet_prefix p)) buf)
      (int (length (packet_prefix p)))"
  shows "\<exists>enc. pack_serialize p buf size_of_buf = Some (enc @ drop (length enc) buf, int (length enc)) \<and>
    12 \<le> length enc \<and> length enc \<le> packet_room p \<and>
    (int (length enc) \<le> 512 \<longrightarrow> (\<forall>rest. pack_deserialize (enc @ rest) (int (length enc)) = Some (0, Some p)))"
proof -
  let ?h = "header_bytes (header p)" and ?qb = "questions_bytes (questions p)"
  let ?pre = "packet_prefix p"
  have okp: "unat (qcount (header p)) = length (questions p)" "rr_count (header p) = length (rrs p)"
    "\<forall>q \<in> set (questions p). 0 \<notin> set (qname q)" "\<forall>r \<in> set (rrs p). rr_ok r"
    using ok by (auto simp: packet_ok_def)
  have "arr_write ([] @ buf) 0 ?h = Some (([] @ ?h) @ drop 12 buf)"
    using write_step[of 0 "[]" ?h buf] room(1) by (simp add: packet_room_def)
  then have w1: "arr_write buf 0 ?h = Some (?h @ drop 12 buf)" by simp
  have w2: "questions_serialize (questions p) 0 (length (questions p)) (?h @ drop 12 buf) HEADER_SIZE =
      Some (?pre @ drop (length ?pre) buf, int (length ?qb))"
    using questions_serialize_bytes[of "questions p" "drop 12 buf" "[]" ?h] room(1)
    by (simp add: packet_room_def packet_prefix_def HEADER_SIZE_def add.commute)
  have pr: "12 \<le> length ?pre" "length ?pre + rrs_room (rrs p) \<le> 0x3FFF"
    "rrs_room (rrs p) \<le> length (drop (length ?pre) buf)"
    "int (length ?pre + rrs_room (rrs p)) \<le> size_of_buf"
    using room by (auto simp: packet_room_def length_packet_prefix)
  obtain enc where e: "rrs_serialize (rrs p) 0 (length (rrs p)) (?pre @ drop (length ?pre) buf) (int (length ?pre)) size_of_buf =
      Some (?pre @ enc @ drop (length enc) (drop (length ?pre) buf), int (length enc))"
    "length enc \<le> rrs_room (rrs p)"
    "\<And>rest. rrs_deserialize (?pre @ enc @ rest) (int (length ?pre)) (length (rrs p)) = Some (rrs p, int (length enc))"
    using rrs_roundtrip[OF okp(4) pr clear, of "[]"] by auto
  have cur: "HEADER_SIZE + int (length ?qb) = int (length ?pre)"
    by (simp add: length_packet_prefix HEADER_SIZE_def)
  have "pack_serialize p buf size_of_buf =
      Some ((?pre @ enc) @ drop (length (?pre @ enc)) buf, int (length (?pre @ enc)))"
  proof -
    have "\<not> HEADER_SIZE > size_of_buf" "\<not> int (length ?pre) > size_of_buf"
      using pr by (auto simp: HEADER_SIZE_def)
    then show ?thesis using w1 w2 e(1) okp(1,2) by (simp add: pack_serialize_def cur add.commute)
  qed
  moreover have "pack_deserialize ((?pre @ enc) @ rest) (int (length (?pre @ enc))) = Some (0, Some p)"
    if "int (length (?pre @ enc)) \<le> 512" for rest
  proof -
    have "header_read (?h @ ?qb @ enc @ rest) = Some (header p)" by (rule header_read_bytes)
    moreover have "questions_deserialize (?h @ ?qb @ enc @ rest) HEADER_SIZE (length (questions p)) =
        Some (questions p, int (length ?qb))"
      using questions_deserialize_bytes[OF okp(3), of ?h "enc @ rest"] by (simp add: HEADER_SIZE_def)
    moreover have "rrs_deserialize (?h @ ?qb @ enc @ rest) (int (length ?pre)) (length (rrs p)) = Some (rrs p, int (length enc))"
      using e(3)[of rest] by (simp add: packet_prefix_def)
    ultimately show ?thesis
      using that pr(1) okp(1,2)
      by (simp add: pack_deserialize_def cur packet_prefix_def pack_create_def)
  qed
  moreover have "12 \<le> length (?pre @ enc)" "length (?pre @ enc) \<le> packet_room p"
    using e(2) by (auto simp: length_packet_prefix packet_room_def)
  ultimately show ?thesis by blast
qed

text \<open>A name that occurs in full at offset 12 is found there at once.\<close>

lemma clear_ref_at_12:
  assumes "buf = h @ name @ 0 # rest" "length h = 12" "int (12 + length name) < cur"
  shows "clear_ref buf cur name"
proof -
  have "match_at buf 12 name = Some True" using match_at_here[of h name rest] assms(1,2) by simp
  then have "find_loop_name buf 12 cur name = Some 12" by (subst find_loop_name.simps) simp
  then show ?thesis using assms(3) by (simp add: clear_ref_def HEADER_SIZE_def)
qed

lemma refs_clear_at_12:
  assumes "\<forall>r \<in> set rs. rr_ok r \<and> rr_name r = name" and "pre = h @ name @ 0 # x" "length h = 12"
    and "length pre + rrs_room rs \<le> 0x3FFF" "rrs_room rs \<le> length tail"
  shows "refs_clear rs (pre @ tail) (int (length pre))"
  using assms
proof (induction rs arbitrary: pre tail x)
  case (Cons r rs)
  have clear: "clear_ref (pre @ tail) (int (length pre)) (rr_name r)"
    using Cons.prems by (intro clear_ref_at_12[of _ h _ "x @ tail"]) auto
  obtain e where e: "rr_serialize (pre @ tail) (int (length pre)) r =
      Some (pre @ e @ drop (length e) tail, int (length e))" "length e \<le> rr_room r"
    using rr_roundtrip[of r pre tail] Cons.prems clear by (auto simp: rrs_room_def)
  have "refs_clear rs ((pre @ e) @ drop (length e) tail) (int (length (pre @ e)))"
    by (rule Cons.IH[of _ "x @ e"]) (use Cons.prems e(2) in \<open>auto simp: rrs_room_def\<close>)
  then show ?case using clear e(1) by simp
qed simp

section \<open>Writing always has a result\<close>

text \<open>
  Whatever the buffer holds and wherever the search for an earlier name ends, writing has a
  result when there is room for the uncompressed form; the name may be the root here.
\<close>

definition rr_sound :: "ResourceRecord \<Rightarrow> bool" where
  "rr_sound r \<longleftrightarrow> (\<exists>ls. wire_labels ls \<and> rr_name r = wire_name ls) \<and>
     unat (rdata_length r) = length (rdata r)"

lemma rr_ok_sound: "rr_ok r \<Longrightarrow> rr_sound r"
  by (auto simp: rr_ok_def rr_sound_def)

lemma name_serialize_total:
  assumes ls: "wire_labels ls" and pre: "12 \<le> length pre" and room: "length (wire_name ls) < length tail"
  shows "\<exists>enc. name_serialize (wire_name ls) (pre @ tail) (int (length pre)) =
      Some (pre @ enc @ drop (length enc) tail, int (length enc)) \<and> length enc \<le> length (wire_name ls) + 1"
proof -
  let ?name = "wire_name ls" and ?buf = "pre @ tail" and ?cur = "int (length pre)"
  have full: ?thesis if "suffix_loop ?buf ?cur ?name 0 = Some (int (length ?name), None)"
    using that arr_write_at[of "?name @ [0]" tail pre] room
    by (intro exI[of _ "?name @ [0]"]) (simp add: name_serialize_def)
  show ?thesis
  proof (cases "ls = []")
    case True
    then have "suffix_loop ?buf ?cur ?name 0 = Some (int (length ?name), None)"
      by (subst suffix_loop.simps) (simp add: arr_get_def)
    then show ?thesis by (rule full)
  next
    case False
    then obtain l ms where l: "ls = l # ms" by (cases ls) auto
    have two: "2 \<le> length ?name + 1" using ls l by (cases "l") (auto simp: wire_label_def)
    obtain j where "find_loop_name ?buf HEADER_SIZE ?cur ?name = Some j"
      using find_loop_name_defined[of HEADER_SIZE ?cur ?name ?buf] pre room by (auto simp: HEADER_SIZE_def)
    then obtain f where "find_previous_name ?buf HEADER_SIZE ?cur ?name = Some f"
      by (simp add: find_previous_name_def)
    note r = suffix_loop_result[OF ls False this]
    show ?thesis
    proof (cases f)
      case None
      then show ?thesis using r by (intro full) simp
    next
      case (Some off)
      have "arr_write ?buf ?cur (be16 ((off + 12) OR 0xC000)) =
          Some (pre @ be16 ((off + 12) OR 0xC000) @ drop 2 tail)"
        using arr_write_at[of "be16 ((off + 12) OR 0xC000)" tail pre] room two by simp
      moreover have "arr_write ?buf ?cur [] = Some ?buf" by (simp add: arr_write_def)
      ultimately show ?thesis using r Some two
        by (intro exI[of _ "be16 ((off + 12) OR 0xC000)"]) (simp add: name_serialize_def arr_read_def)
    qed
  qed
qed

lemma rr_serialize_total:
  assumes ok: "rr_sound r" and pre: "12 \<le> length pre" and room: "rr_room r \<le> length tail"
  shows "\<exists>enc. rr_serialize (pre @ tail) (int (length pre)) r =
      Some (pre @ enc @ drop (length enc) tail, int (length enc)) \<and> length enc \<le> rr_room r"
proof -
  obtain ls where ls: "wire_labels ls" "rr_name r = wire_name ls" and dl: "unat (rdata_length r) = length (rdata r)"
    using ok by (auto simp: rr_sound_def)
  have "length (wire_name ls) < length tail" using room ls(2) by (simp add: rr_room_def)
  then obtain nenc where n: "name_serialize (rr_name r) (pre @ tail) (int (length pre)) =
      Some (pre @ nenc @ drop (length nenc) tail, int (length nenc))" "length nenc \<le> length (rr_name r) + 1"
    using name_serialize_total[OF ls(1) pre, of tail] ls(2) by auto
  have udl: "uint (rdata_length r) = int (length (rdata r))" using dl by (metis uint_nat)
  have "length (rr_body r) \<le> length (drop (length nenc) tail)" using room n(2) by (simp add: rr_room_def)
  note w = rr_body_write[OF dl this, of "pre @ nenc"]
  have "rr_serialize (pre @ tail) (int (length pre)) r =
      Some (pre @ (nenc @ rr_body r) @ drop (length (nenc @ rr_body r)) tail, int (length (nenc @ rr_body r)))"
    using n(1) w[of "int (length nenc) + 10 + int (length (rdata r))"]
    by (simp add: rr_serialize_def Let_def udl) (simp add: ac_simps)
  then show ?thesis using n(2) by (intro exI[of _ "nenc @ rr_body r"]) (simp add: rr_room_def)
qed

lemma rrs_serialize_total:
  assumes "\<forall>r \<in> set rs. rr_sound r" and "12 \<le> length pre" and "rrs_room rs \<le> length tail"
    and "int (length pre + rrs_room rs) \<le> lim"
  shows "\<exists>enc. rrs_serialize (ds @ rs) (length ds) (length rs) (pre @ tail) (int (length pre)) lim =
      Some (pre @ enc @ drop (length enc) tail, int (length enc)) \<and> length enc \<le> rrs_room rs"
  using assms
proof (induction rs arbitrary: ds pre tail)
  case Nil
  then show ?case by (intro exI[of _ "[]"]) simp
next
  case (Cons r rs)
  obtain e where e: "rr_serialize (pre @ tail) (int (length pre)) r =
      Some (pre @ e @ drop (length e) tail, int (length e))" "length e \<le> rr_room r"
    using rr_serialize_total[of r pre tail] Cons.prems by (auto simp: rrs_room_def)
  have "\<forall>r \<in> set rs. rr_sound r" "12 \<le> length (pre @ e)" "rrs_room rs \<le> length (drop (length e) tail)"
    "int (length (pre @ e) + rrs_room rs) \<le> lim"
    using Cons.prems e(2) by (auto simp: rrs_room_def)
  from Cons.IH[OF this, of "ds @ [r]"] obtain es where es:
    "rrs_serialize ((ds @ [r]) @ rs) (length (ds @ [r])) (length rs)
      ((pre @ e) @ drop (length e) tail) (int (length (pre @ e))) lim =
      Some ((pre @ e) @ es @ drop (length es) (drop (length e) tail), int (length es))"
    "length es \<le> rrs_room rs" by blast
  have "arr_get (ds @ r # rs) (int (length ds)) = Some r" by (rule arr_get_append)
  moreover have "\<not> int (length pre) + int (length e) > lim" using Cons.prems(4) e(2) by (simp add: rrs_room_def)
  ultimately have "rrs_serialize (ds @ r # rs) (length ds) (length (r # rs)) (pre @ tail) (int (length pre)) lim =
      Some (pre @ (e @ es) @ drop (length (e @ es)) tail, int (length (e @ es)))"
    using e(1) es(1) by (simp add: add.commute)
  then show ?case using e(2) es(2) by (intro exI[of _ "e @ es"]) (simp add: rrs_room_def)
qed

definition packet_sound :: "DnsPacket \<Rightarrow> bool" where
  "packet_sound p \<longleftrightarrow> unat (qcount (header p)) = length (questions p) \<and>
     rr_count (header p) = length (rrs p) \<and> (\<forall>r \<in> set (rrs p). rr_sound r)"

lemma packet_sound_data: "packet_sound p \<Longrightarrow> \<forall>r \<in> set (rrs p). unat (rdata_length r) = length (rdata r)"
  by (auto simp: packet_sound_def rr_sound_def)

lemma pack_serialize_total:
  assumes ok: "packet_sound p" and room: "packet_room p \<le> length buf" "int (packet_room p) \<le> size_of_buf"
  shows "\<exists>enc. pack_serialize p buf size_of_buf = Some (enc @ drop (length enc) buf, int (length enc)) \<and>
    length enc \<le> packet_room p"
proof -
  let ?h = "header_bytes (header p)" and ?qb = "questions_bytes (questions p)" and ?pre = "packet_prefix p"
  have okp: "unat (qcount (header p)) = length (questions p)" "rr_count (header p) = length (rrs p)"
    "\<forall>r \<in> set (rrs p). rr_sound r" using ok by (auto simp: packet_sound_def)
  have w1: "arr_write buf 0 ?h = Some (?h @ drop 12 buf)"
    using write_step[of 0 "[]" ?h buf] room(1) by (simp add: packet_room_def)
  have w2: "questions_serialize (questions p) 0 (length (questions p)) (?h @ drop 12 buf) HEADER_SIZE =
      Some (?pre @ drop (length ?pre) buf, int (length ?qb))"
    using questions_serialize_bytes[of "questions p" "drop 12 buf" "[]" ?h] room(1)
    by (simp add: packet_room_def packet_prefix_def HEADER_SIZE_def add.commute)
  have pr: "12 \<le> length ?pre" "rrs_room (rrs p) \<le> length (drop (length ?pre) buf)"
    "int (length ?pre + rrs_room (rrs p)) \<le> size_of_buf"
    using room by (auto simp: packet_room_def length_packet_prefix)
  obtain enc where e: "rrs_serialize (rrs p) 0 (length (rrs p)) (?pre @ drop (length ?pre) buf) (int (length ?pre)) size_of_buf =
      Some (?pre @ enc @ drop (length enc) (drop (length ?pre) buf), int (length enc))"
    "length enc \<le> rrs_room (rrs p)"
    using rrs_serialize_total[OF okp(3) pr, of "[]"] by auto
  have cur: "HEADER_SIZE + int (length ?qb) = int (length ?pre)" by (simp add: length_packet_prefix HEADER_SIZE_def)
  have "\<not> HEADER_SIZE > size_of_buf" "\<not> int (length ?pre) > size_of_buf" using pr by (auto simp: HEADER_SIZE_def)
  then have "pack_serialize p buf size_of_buf =
      Some ((?pre @ enc) @ drop (length (?pre @ enc)) buf, int (length (?pre @ enc)))"
    using w1 w2 e(1) okp(1,2) by (simp add: pack_serialize_def cur add.commute)
  then show ?thesis using e(2)
    by (intro exI[of _ "?pre @ enc"]) (simp add: length_packet_prefix packet_room_def)
qed

text \<open>One question, and records that all carry its name.\<close>

lemma answer_roundtrip_lemma:
  assumes "packet_ok p" and "questions p = [q]" and "\<forall>r \<in> set (rrs p). rr_name r = qname q"
    and "packet_room p \<le> length buf" and "int (packet_room p) \<le> size_of_buf" and "packet_room p \<le> 0x3FFF"
  shows "\<exists>enc. pack_serialize p buf size_of_buf = Some (enc @ drop (length enc) buf, int (length enc)) \<and>
    length enc \<le> packet_room p \<and>
    (int (length enc) \<le> 512 \<longrightarrow> (\<forall>rest. pack_deserialize (enc @ rest) (int (length enc)) = Some (0, Some p)))"
proof -
  have "packet_prefix p = header_bytes (header p) @ qname q @ 0 # be16 (qtype q) @ be16 (qclass q)"
    using assms(2) by (simp add: packet_prefix_def questions_bytes_def question_bytes_def)
  moreover have "\<forall>r \<in> set (rrs p). rr_ok r \<and> rr_name r = qname q"
    using assms(1,3) by (auto simp: packet_ok_def)
  moreover have "length (questions_bytes (questions p)) = length (qname q) + 5"
    using assms(2) by (simp add: questions_bytes_def question_bytes_def)
  ultimately have "refs_clear (rrs p) (packet_prefix p @ drop (length (packet_prefix p)) buf)
      (int (length (packet_prefix p)))"
    using assms(4,6)
    by (intro refs_clear_at_12[of _ "qname q" _ "header_bytes (header p)"])
      (auto simp: packet_room_def length_packet_prefix)
  from pack_roundtrip_lemma[OF assms(1,4,5,6) this] show ?thesis by blast
qed

section \<open>Properties\<close>


definition sample_packet :: DnsPacket where
  "sample_packet = \<lparr>
     header = \<lparr>hdr_id = 7, flags = 0x8180, qcount = 1, answer_RRs = 1, authority_RRs = 0, additional_RRs = 0\<rparr>,
     questions = [\<lparr>qname = [1, 97, 2, 99, 110], qtype = QTYPE_A, qclass = QCLASS_IN\<rparr>],
     rrs = [\<lparr>rr_name = [1, 97, 2, 99, 110], rr_type = QTYPE_A, rr_class = QCLASS_IN, ttl = 60,
             rdata_length = 4, rdata = [10, 0, 0, 1]\<rparr>]\<rparr>"

lemma sample_packet_ok: "packet_ok sample_packet" "packet_room sample_packet = 42"
proof -
  have "wire_labels [[97], [99, 110]]" "[1, 97, 2, 99, 110] = wire_name [[97], [99, 110]]"
    by (simp_all add: wire_label_def label_len_def)
  then have "\<exists>ls. ls \<noteq> [] \<and> wire_labels ls \<and> [1, 97, 2, 99, 110] = wire_name ls" by blast
  then show "packet_ok sample_packet"
    by (simp add: packet_ok_def sample_packet_def rr_count_def rr_ok_def QTYPE_A_def QTYPE_MX_def
        QTYPE_CNAME_def QTYPE_NS_def)
  show "packet_room sample_packet = 42"
    by (simp add: packet_room_def sample_packet_def questions_bytes_def question_bytes_def
        rrs_room_def rr_room_def)
qed

lemma sample_packet_clear:
  assumes "length buf = 512"
  shows "refs_clear (rrs sample_packet) (packet_prefix sample_packet @ drop (length (packet_prefix sample_packet)) buf)
    (int (length (packet_prefix sample_packet)))"
proof (rule refs_clear_at_12[where name = "[1, 97, 2, 99, 110]" and h = "header_bytes (header sample_packet)"])
  show "\<forall>r \<in> set (rrs sample_packet). rr_ok r \<and> rr_name r = [1, 97, 2, 99, 110]"
    using sample_packet_ok(1) by (auto simp: packet_ok_def) (auto simp: sample_packet_def)
qed (use assms in \<open>auto simp: packet_prefix_def sample_packet_def questions_bytes_def question_bytes_def
    rrs_room_def rr_room_def\<close>)


text \<open>
  C26. For packets with one question whose records all carry the question's name (every
  answer the relay builds itself, and plain address answers) no condition on the buffer is
  left: writing and reading back gives the same packet, whatever bytes an earlier packet left
  in the send buffer.
\<close>

theorem answer_roundtrip:
  assumes "packet_ok p" and "questions p = [q]" and "\<forall>r \<in> set (rrs p). rr_name r = qname q"
    and "packet_room p \<le> length buf" and "int (packet_room p) \<le> size_of_buf" and "packet_room p \<le> 0x3FFF"
  shows "\<exists>enc. pack_serialize p buf size_of_buf = Some (enc @ drop (length enc) buf, int (length enc)) \<and>
    length enc \<le> packet_room p \<and>
    (int (length enc) \<le> 512 \<longrightarrow> (\<forall>rest. pack_deserialize (enc @ rest) (int (length enc)) = Some (0, Some p)))"
  by (rule answer_roundtrip_lemma[OF assms])

theorem answer_roundtrip_witness:
  "\<exists>enc. pack_serialize sample_packet (replicate 64 255) 64 =
      Some (enc @ drop (length enc) (replicate 64 255), int (length enc)) \<and>
    pack_deserialize enc (int (length enc)) = Some (0, Some sample_packet)"
proof -
  have "\<exists>q. questions sample_packet = [q] \<and> (\<forall>r \<in> set (rrs sample_packet). rr_name r = qname q)"
    by (simp add: sample_packet_def)
  then obtain q where "questions sample_packet = [q]" "\<forall>r \<in> set (rrs sample_packet). rr_name r = qname q"
    by blast
  from answer_roundtrip[OF sample_packet_ok(1) this, of "replicate 64 255" 64]
  obtain enc where "pack_serialize sample_packet (replicate 64 255) 64 =
      Some (enc @ drop (length enc) (replicate 64 255), int (length enc))"
    "\<forall>rest. pack_deserialize (enc @ rest) (int (length enc)) = Some (0, Some sample_packet)"
    using sample_packet_ok(2) by auto
  then show ?thesis by (metis append_Nil2)
qed

lemma rrs_clone_exact:
  "\<forall>r \<in> set rs. unat (rdata_length r) = length (rdata r) \<Longrightarrow> rrs_clone rs = Some rs"
  by (induction rs) (auto simp: rr_clone_def arr_read_def)

lemma questions_clone_same: "questions_clone qs = qs"
  by (auto simp: questions_clone_def question_clone_def intro: map_idI)

lemma clone_exact:
  assumes "\<forall>r \<in> set (rrs p). unat (rdata_length r) = length (rdata r)"
  shows "packet_clone p = Some p"
  using rrs_clone_exact[OF assms] by (simp add: packet_clone_def pack_create_def questions_clone_same)

text \<open>
  \<open>packet_clone\<close> is an exact copy of every packet whose records have at least as much
  data as they state, so a session's copy of its query is what was sent.
\<close>

theorem packet_clone_exact:
  assumes "\<forall>r \<in> set (rrs p). unat (rdata_length r) = length (rdata r)"
  shows "packet_clone p = Some p"
  by (rule clone_exact[OF assms])

theorem packet_clone_exact_witness: "packet_clone sample_packet = Some sample_packet"
  by (rule packet_clone_exact) (simp add: sample_packet_def)

text \<open>
  \<open>QR_SET\<close> turns a query into a response and changes no other flag. \<open>OPCODE_GET\<close>
  reads bits 12 to 15, although the opcode field is bits 11 to 14: it includes the response
  flag, drops the lowest opcode bit, and takes \<open>IQUERY\<close> for \<open>QUERY\<close> and \<open>STATUS\<close> for
  \<open>IQUERY\<close>.
\<close>

theorem flag_macros:
  "(IS_QUERY fl \<longleftrightarrow> \<not> bit fl 15) \<and> \<not> IS_QUERY (QR_SET fl) \<and>
   bit (QR_SET fl) n = (n = 15 \<or> bit fl n) \<and>
   bit (OPCODE_GET fl) n = (n < 4 \<and> bit fl (12 + n)) \<and>
   OPCODE_GET (push_bit 11 (opcode_num IQUERY)) = opcode_num QUERY \<and>
   OPCODE_GET (push_bit 11 (opcode_num STATUS)) = opcode_num IQUERY"
proof -
  have c: "(0xf :: uint16_t) = mask 4"
    by (simp add: mask_eq_exp_minus_1)
  have q: "IS_QUERY f \<longleftrightarrow> \<not> bit f 15" for f
  proof -
    have inv: "(a XOR 1) XOR 1 = a" for a :: uint16_t
      by (simp only: xor.assoc xor_self_eq xor.right_neutral)
    have "drop_bit 15 f XOR 1 = 0 \<longleftrightarrow> drop_bit 15 f = 1"
    proof
      assume "drop_bit 15 f XOR 1 = 0"
      with inv[of "drop_bit 15 f"] show "drop_bit 15 f = 1" by (simp only: xor.left_neutral)
    qed (simp only: xor_self_eq)
    also have "\<dots> \<longleftrightarrow> bit f 15"
    proof
      assume "drop_bit 15 f = 1"
      then have "bit (drop_bit 15 f) 0" by simp
      then show "bit f 15" by (simp add: bit_drop_bit_eq)
    next
      assume "bit f 15"
      then show "drop_bit 15 f = 1"
        by (intro bit_word_eqI) (auto simp: bit_simps dest: bit_imp_le_length)
    qed
    finally show ?thesis by (simp add: IS_QUERY_def)
  qed
  have s: "bit (QR_SET f) k = (k = 15 \<or> bit f k)" for f k
  proof -
    have "(0x8000 :: uint16_t) = 2 ^ 15" by simp
    then have "bit (0x8000 :: uint16_t) k \<longleftrightarrow> k = 15" by (simp only: bit_exp_iff possible_bit_word) auto
    then show ?thesis by (auto simp: QR_SET_def bit_or_iff)
  qed
  have "bit (OPCODE_GET f) k = (k < 4 \<and> bit f (12 + k))" for f k
    unfolding OPCODE_GET_def c by (auto simp: bit_simps)
  moreover have "OPCODE_GET (push_bit 11 (opcode_num IQUERY)) = opcode_num QUERY"
    "OPCODE_GET (push_bit 11 (opcode_num STATUS)) = opcode_num IQUERY"
    by (simp_all add: OPCODE_GET_def)
  ultimately show ?thesis using q s by blast
qed

text \<open>
  \<open>pack_deserialize\<close> checks \<open>len\<close> only against 12 and 512: when the header counts a
  question that \<open>len\<close> leaves no room for, the question is read from the bytes behind the
  datagram, left in the buffer by earlier ones.
\<close>

theorem pack_deserialize_reads_stale:
  assumes "0 \<notin> set name"
  shows "pack_deserialize (header_bytes (h\<lparr>qcount := 1, answer_RRs := 0, authority_RRs := 0, additional_RRs := 0\<rparr>)
      @ question_bytes \<lparr>qname = name, qtype = t, qclass = c\<rparr> @ rest) 12 =
    Some (0, Some \<lparr>header = h\<lparr>qcount := 1, answer_RRs := 0, authority_RRs := 0, additional_RRs := 0\<rparr>,
      questions = [\<lparr>qname = name, qtype = t, qclass = c\<rparr>], rrs = []\<rparr>)"
proof -
  let ?h = "h\<lparr>qcount := 1, answer_RRs := 0, authority_RRs := 0, additional_RRs := 0\<rparr>"
  let ?q = "\<lparr>qname = name, qtype = t, qclass = c\<rparr>"
  have "header_read (header_bytes ?h @ question_bytes ?q @ rest) = Some ?h" by (rule header_read_bytes)
  moreover have "question_deserialize (header_bytes ?h @ question_bytes ?q @ rest) HEADER_SIZE =
      Some (?q, int (length (question_bytes ?q)))"
    using question_deserialize_bytes[of ?q "header_bytes ?h" rest] assms by (simp add: HEADER_SIZE_def)
  ultimately show ?thesis
    by (simp add: pack_deserialize_def rr_count_def pack_create_def)
qed

theorem pack_deserialize_reads_stale_witness:
  "let h = \<lparr>hdr_id = 1, flags = 0, qcount = 1, answer_RRs = 0, authority_RRs = 0, additional_RRs = 0\<rparr>;
       q = \<lparr>qname = [1, 97], qtype = 1, qclass = 1\<rparr>
   in pack_deserialize (header_bytes h @ question_bytes q) 12 =
     Some (0, Some \<lparr>header = h, questions = [q], rrs = []\<rparr>)"
  using pack_deserialize_reads_stale[of "[1, 97]"
      "\<lparr>hdr_id = 1, flags = 0, qcount = 1, answer_RRs = 0, authority_RRs = 0, additional_RRs = 0\<rparr>" 1 1 "[]"]
  by simp

end
