(* ===== verification/Dns_Cache.thy ===== *)
theory Dns_Cache
  imports Dns_Packet Stl_HashMap
begin

text \<open>
  The answer cache of \<^verbatim>\<open>src/dns/dns_cache.c\<close>: a hash map from the text
  \<open>qclass|qtype|qname\<close> to entries that are linked, through pointers between two sentinels,
  from the most to the least recently used. \<open>entries\<close> is the memory of the entries and
  sentinels (a freed address maps to \<open>None\<close>); the global pointer \<open>g_cache\<close> is the option
  the operations take and return. The time is an argument. The lock is always obtained, so
  an operation is one step for every thread, as it is in the code; log lines and notes for
  the error chain are left out. The abstraction is the list of entries in order of use
  (\<open>cache_list\<close>), on which the operations are specified.
\<close>

section \<open>Data\<close>

record CacheValue =
  cv_answer :: uint16_t
  cv_authority :: uint16_t
  cv_additional :: uint16_t
  cv_rrs :: "ResourceRecord list option"

record CacheEntry =
  ce_key :: cstr
  ce_value :: CacheValue
  created_at :: ms
  hotter :: "addr option"
  colder :: "addr option"

record DnsCache =
  table :: "(cstr, addr) HashMap option"
  c_head :: addr
  c_tail :: addr
  c_size :: int
  c_capacity :: int
  entries :: "addr \<rightharpoonup> CacheEntry"
  next_entry :: addr

definition DNS_CACHE_DEFAULT_CAPACITY :: int where
  "DNS_CACHE_DEFAULT_CAPACITY = 1024"

definition UINT32_MAX :: uint32_t where
  "UINT32_MAX = -1"

section \<open>Keys\<close>

text \<open>\<open>%u\<close>, the decimal digits of an unsigned number, and the separator.\<close>

fun decimal :: "nat \<Rightarrow> cstr" where
  "decimal n = (if n < 10 then [word_of_nat (48 + n)]
                else decimal (n div 10) @ [word_of_nat (48 + n mod 10)])"

declare decimal.simps [simp del]

definition BAR :: byte where
  "BAR = 124"

definition cache_key_create :: "cstr \<Rightarrow> uint16_t \<Rightarrow> uint16_t \<Rightarrow> cstr" where
  "cache_key_create name qt qc =
     decimal (unat qc) @ BAR # decimal (unat qt) @ BAR # name"

section \<open>Values and entries\<close>

definition rrs_or_nil :: "CacheValue \<Rightarrow> ResourceRecord list" where
  "rrs_or_nil v = (case cv_rrs v of None \<Rightarrow> [] | Some rs \<Rightarrow> rs)"

definition cache_value_clone :: "CacheValue \<Rightarrow> CacheValue option" where
  "cache_value_clone src = do {
     rs \<leftarrow> rrs_clone (rrs_or_nil src);
     Some \<lparr>cv_answer = cv_answer src, cv_authority = cv_authority src,
           cv_additional = cv_additional src, cv_rrs = Some rs\<rparr> }"

definition cache_entry_create ::
    "cstr \<Rightarrow> uint16_t \<Rightarrow> uint16_t \<Rightarrow> CacheValue \<Rightarrow> ms \<Rightarrow> CacheEntry option" where
  "cache_entry_create name qt qc v now = do {
     copy \<leftarrow> cache_value_clone v;
     Some \<lparr>ce_key = cache_key_create name qt qc, ce_value = copy, created_at = now,
           hotter = None, colder = None\<rparr> }"

text \<open>The quotient of a C division by a positive number, rounded toward zero.\<close>

definition c_quot :: "int \<Rightarrow> int \<Rightarrow> int" where
  "c_quot a b = (if a < 0 then - ((- a) div b) else a div b)"

fun any_expired :: "ResourceRecord list \<Rightarrow> ms \<Rightarrow> ms \<Rightarrow> bool" where
  "any_expired [] created now = False"
| "any_expired (r # rs) created now =
     (if ttl r = UINT32_MAX then any_expired rs created now
      else if c_quot (now - created) 1000 \<ge> int (unat (ttl r)) then True
      else any_expired rs created now)"

definition is_entry_expired :: "CacheEntry \<Rightarrow> ms \<Rightarrow> bool" where
  "is_entry_expired e now =
     (case cv_rrs (ce_value e) of None \<Rightarrow> True | Some rs \<Rightarrow> any_expired rs (created_at e) now)"

section \<open>The list of entries\<close>

text \<open>The assignments \<open>a->hotter = x\<close> and \<open>a->colder = x\<close>.\<close>

definition set_hotter :: "addr \<Rightarrow> addr option \<Rightarrow> DnsCache \<Rightarrow> DnsCache option" where
  "set_hotter a x c = do {
     e \<leftarrow> entries c a;
     Some (c\<lparr>entries := (entries c)(a \<mapsto> e\<lparr>hotter := x\<rparr>)\<rparr>) }"

definition set_colder :: "addr \<Rightarrow> addr option \<Rightarrow> DnsCache \<Rightarrow> DnsCache option" where
  "set_colder a x c = do {
     e \<leftarrow> entries c a;
     Some (c\<lparr>entries := (entries c)(a \<mapsto> e\<lparr>colder := x\<rparr>)\<rparr>) }"

definition lru_remove :: "addr \<Rightarrow> DnsCache \<Rightarrow> DnsCache option" where
  "lru_remove a c0 = do {
     e0 \<leftarrow> entries c0 a;
     if hotter e0 = None \<or> colder e0 = None then Some c0
     else do {
       h \<leftarrow> hotter e0;
       c1 \<leftarrow> set_colder h (colder e0) c0;
       e1 \<leftarrow> entries c1 a;
       k \<leftarrow> colder e1;
       c2 \<leftarrow> set_hotter k (hotter e1) c1;
       c3 \<leftarrow> set_hotter a None c2;
       set_colder a None c3 } }"

text \<open>The insertion behind the head sentinel, the second half of \<open>lru_touch\<close>.\<close>

definition lru_insert :: "addr \<Rightarrow> DnsCache \<Rightarrow> DnsCache option" where
  "lru_insert a c1 = do {
     eh \<leftarrow> entries c1 (c_head c1);
     c2 \<leftarrow> set_colder a (colder eh) c1;
     c3 \<leftarrow> set_hotter a (Some (c_head c2)) c2;
     eh3 \<leftarrow> entries c3 (c_head c3);
     first \<leftarrow> colder eh3;
     c4 \<leftarrow> set_hotter first (Some a) c3;
     set_colder (c_head c4) (Some a) c4 }"

definition lru_touch :: "addr \<Rightarrow> DnsCache \<Rightarrow> DnsCache option" where
  "lru_touch a c0 = do {
     e0 \<leftarrow> entries c0 a;
     c1 \<leftarrow> (if hotter e0 \<noteq> None \<and> colder e0 \<noteq> None then lru_remove a c0 else Some c0);
     lru_insert a c1 }"

text \<open>\<open>cache_entry_free\<close> releases the entry and what it owns.\<close>

definition cache_entry_free :: "addr \<Rightarrow> DnsCache \<Rightarrow> DnsCache option" where
  "cache_entry_free a c = do {
     e \<leftarrow> entries c a;
     Some (c\<lparr>entries := (entries c)(a := None)\<rparr>) }"

definition cache_remove_entry :: "addr \<Rightarrow> DnsCache \<Rightarrow> DnsCache option" where
  "cache_remove_entry a c = do {
     c1 \<leftarrow> lru_remove a c;
     e \<leftarrow> entries c1 a;
     t \<leftarrow> hash_map_remove (table c1) (ce_key e);
     c2 \<leftarrow> cache_entry_free a (c1\<lparr>table := t\<rparr>);
     Some (if c_size c2 > 0 then c2\<lparr>c_size := c_size c2 - 1\<rparr> else c2) }"

section \<open>Public operations\<close>

text \<open>
  \<open>dns_cache_prune_locked\<close>: \<open>clock i\<close> is the time read at the \<open>i\<close>-th entry visited.
\<close>

partial_function (option) prune_loop :: "(nat \<Rightarrow> ms) \<Rightarrow> nat \<Rightarrow> addr \<Rightarrow> DnsCache \<Rightarrow> DnsCache option" where
  "prune_loop clock i a c =
     (if a = c_tail c then Some c
      else do {
        e \<leftarrow> entries c a;
        nxt \<leftarrow> colder e;
        c' \<leftarrow> (if is_entry_expired e (clock i) then cache_remove_entry a c else Some c);
        prune_loop clock (Suc i) nxt c' })"

fun dns_cache_prune :: "(nat \<Rightarrow> ms) \<Rightarrow> DnsCache option \<Rightarrow> (int \<times> DnsCache option) option" where
  "dns_cache_prune clock None = Some (-1, None)"
| "dns_cache_prune clock (Some c) = do {
     eh \<leftarrow> entries c (c_head c);
     first \<leftarrow> colder eh;
     c' \<leftarrow> prune_loop clock 0 first c;
     Some (0, Some c') }"

text \<open>\<open>dns_cache_init\<close>, up to the reading of the table of fixed addresses.\<close>

definition sentinel :: CacheEntry where
  "sentinel = \<lparr>ce_key = [], ce_value = \<lparr>cv_answer = 0, cv_authority = 0, cv_additional = 0, cv_rrs = None\<rparr>,
     created_at = 0, hotter = None, colder = None\<rparr>"

fun dns_cache_init :: "DnsCache option \<Rightarrow> (int \<times> DnsCache option) option" where
  "dns_cache_init (Some c) = Some (0, Some c)"
| "dns_cache_init None = do {
     t \<leftarrow> hash_map_create (Some hash_func_str) (Some (\<lambda>a b. compare_cstr (Some a) (Some b)));
     Some (0, Some \<lparr>table = t, c_head = 0, c_tail = 1, c_size = 0,
       c_capacity = DNS_CACHE_DEFAULT_CAPACITY,
       entries = [0 \<mapsto> sentinel\<lparr>colder := Some 1\<rparr>, 1 \<mapsto> sentinel\<lparr>hotter := Some 0\<rparr>],
       next_entry = 2\<rparr>) }"

fun dns_cache_put :: "ms \<Rightarrow> cstr option \<Rightarrow> uint16_t \<Rightarrow> uint16_t \<Rightarrow> CacheValue \<Rightarrow> DnsCache option
    \<Rightarrow> (int \<times> DnsCache option) option" where
  "dns_cache_put now name qt qc v None = Some (1, None)"
| "dns_cache_put now None qt qc v (Some c) = Some (1, Some c)"
| "dns_cache_put now (Some name) qt qc v (Some c) =
     (if cv_rrs v = None then Some (1, Some c)
      else do {
        let key = cache_key_create name qt qc;
        (r, found) \<leftarrow> hash_map_get (table c) key;
        if r = 0
        then do {
          a \<leftarrow> found;
          copy \<leftarrow> cache_value_clone v;
          e \<leftarrow> entries c a;
          c' \<leftarrow> lru_touch a (c\<lparr>entries := (entries c)(a \<mapsto> e\<lparr>ce_value := copy, created_at := now\<rparr>)\<rparr>);
          Some (0, Some c') }
        else do {
          c1 \<leftarrow> (if c_size c \<ge> c_capacity c
                 then do {
                   et \<leftarrow> entries c (c_tail c);
                   victim \<leftarrow> hotter et;
                   if victim \<noteq> c_head c then cache_remove_entry victim c else Some c }
                 else Some c);
          e \<leftarrow> cache_entry_create name qt qc v now;
          let a = next_entry c1;
          (r', t) \<leftarrow> hash_map_put (table c1) (ce_key e) a;
          c2 \<leftarrow> lru_touch a (c1\<lparr>entries := (entries c1)(a \<mapsto> e), next_entry := a + 1, table := t\<rparr>);
          Some (0, Some (c2\<lparr>c_size := c_size c2 + 1\<rparr>)) } })"

text \<open>The return code, the value copied out (on a hit) and the cache.\<close>

fun dns_cache_get :: "ms \<Rightarrow> cstr option \<Rightarrow> uint16_t \<Rightarrow> uint16_t \<Rightarrow> DnsCache option
    \<Rightarrow> (int \<times> CacheValue option \<times> DnsCache option) option" where
  "dns_cache_get now name qt qc None = Some (1, None, None)"
| "dns_cache_get now None qt qc (Some c) = Some (1, None, Some c)"
| "dns_cache_get now (Some name) qt qc (Some c) = do {
     (r, found) \<leftarrow> hash_map_get (table c) (cache_key_create name qt qc);
     if r \<noteq> 0 then Some (1, None, Some c)
     else do {
       a \<leftarrow> found;
       e \<leftarrow> entries c a;
       if is_entry_expired e now
       then do { c' \<leftarrow> cache_remove_entry a c; Some (1, None, Some c') }
       else do {
         copy \<leftarrow> cache_value_clone (ce_value e);
         c' \<leftarrow> lru_touch a c;
         Some (0, Some copy, Some c') } } }"

partial_function (option) free_loop :: "addr \<Rightarrow> DnsCache \<Rightarrow> DnsCache option" where
  "free_loop a c =
     (if a = c_tail c then Some c
      else do {
        e \<leftarrow> entries c a;
        nxt \<leftarrow> colder e;
        t \<leftarrow> hash_map_remove (table c) (ce_key e);
        c' \<leftarrow> cache_entry_free a (c\<lparr>table := t\<rparr>);
        free_loop nxt c' })"

text \<open>
  \<open>dns_cache_free\<close>. The result is the return code, the table entries that \<open>hash_map_free\<close>
  still found, the memory of the entries without the sentinels, and the cleared pointer.
\<close>

fun dns_cache_free :: "DnsCache option
    \<Rightarrow> (int \<times> (cstr, addr) HashMapEntry list \<times> (addr \<rightharpoonup> CacheEntry) \<times> DnsCache option) option" where
  "dns_cache_free None = Some (0, [], Map.empty, None)"
| "dns_cache_free (Some c) = do {
     eh \<leftarrow> entries c (c_head c);
     first \<leftarrow> colder eh;
     c' \<leftarrow> free_loop first c;
     left \<leftarrow> hash_map_free (table c');
     Some (0, left, (entries c')(c_head c' := None, c_tail c' := None), None) }"

section \<open>Pointers\<close>

definition hot_of :: "(addr \<rightharpoonup> CacheEntry) \<Rightarrow> addr \<Rightarrow> addr option" where
  "hot_of es a = (case es a of None \<Rightarrow> None | Some e \<Rightarrow> hotter e)"

definition cold_of :: "(addr \<rightharpoonup> CacheEntry) \<Rightarrow> addr \<Rightarrow> addr option" where
  "cold_of es a = (case es a of None \<Rightarrow> None | Some e \<Rightarrow> colder e)"

text \<open>What an entry holds, without its links.\<close>

definition content :: "(addr \<rightharpoonup> CacheEntry) \<Rightarrow> addr \<Rightarrow> (cstr \<times> CacheValue \<times> ms) option" where
  "content es a = map_option (\<lambda>e. (ce_key e, ce_value e, created_at e)) (es a)"

definition linked :: "(addr \<rightharpoonup> CacheEntry) \<Rightarrow> addr list \<Rightarrow> bool" where
  "linked es xs \<longleftrightarrow> dchain (hot_of es) (cold_of es) None xs None \<and> distinct xs \<and> set xs \<subseteq> dom es"

lemma links_upd [simp]:
  "es a = Some e \<Longrightarrow> hot_of (es(a \<mapsto> e\<lparr>hotter := x\<rparr>)) = (hot_of es)(a := x)"
  "es a = Some e \<Longrightarrow> cold_of (es(a \<mapsto> e\<lparr>hotter := x\<rparr>)) = cold_of es"
  "es a = Some e \<Longrightarrow> hot_of (es(a \<mapsto> e\<lparr>colder := x\<rparr>)) = hot_of es"
  "es a = Some e \<Longrightarrow> cold_of (es(a \<mapsto> e\<lparr>colder := x\<rparr>)) = (cold_of es)(a := x)"
  "es a = Some e \<Longrightarrow> content (es(a \<mapsto> e\<lparr>hotter := x\<rparr>)) = content es"
  "es a = Some e \<Longrightarrow> content (es(a \<mapsto> e\<lparr>colder := x\<rparr>)) = content es"
  by (auto simp: hot_of_def cold_of_def content_def fun_eq_iff)

lemma content_None: "content es a = None \<longleftrightarrow> es a = None"
  by (simp add: content_def)

lemma content_dom:
  assumes "content es = content es'"
  shows "dom es = dom es'"
proof -
  have "es a = None \<longleftrightarrow> es' a = None" for a
    using content_None[of es a] content_None[of es' a] assms by simp
  then show ?thesis by (simp add: dom_def)
qed

lemma entry_links: "es a = Some e \<Longrightarrow> hotter e = hot_of es a \<and> colder e = cold_of es a"
  by (simp add: hot_of_def cold_of_def)

text \<open>\<open>c'\<close> is \<open>c\<close> with other links.\<close>

definition relinked :: "DnsCache \<Rightarrow> DnsCache \<Rightarrow> bool" where
  "relinked c c' \<longleftrightarrow> c' = c\<lparr>entries := entries c'\<rparr> \<and> content (entries c') = content (entries c)"

lemma relinked_trans: "relinked c1 c2 \<Longrightarrow> relinked c2 c3 \<Longrightarrow> relinked c1 c3"
  by (cases c1; cases c2; cases c3) (auto simp: relinked_def)

lemma relinked_fields:
  assumes "relinked c c'"
  shows "table c' = table c" "c_head c' = c_head c" "c_tail c' = c_tail c" "c_size c' = c_size c"
    "c_capacity c' = c_capacity c" "next_entry c' = next_entry c" "dom (entries c') = dom (entries c)"
    "content (entries c') = content (entries c)"
proof -
  have eq: "c' = c\<lparr>entries := entries c'\<rparr>" using assms by (simp add: relinked_def)
  show "table c' = table c" "c_head c' = c_head c" "c_tail c' = c_tail c" "c_size c' = c_size c"
    "c_capacity c' = c_capacity c" "next_entry c' = next_entry c"
    by (subst eq, simp)+
  show "content (entries c') = content (entries c)" using assms by (simp add: relinked_def)
  then show "dom (entries c') = dom (entries c)" by (rule content_dom)
qed

text \<open>Both assignments, as functions on the links.\<close>

lemma set_hotter_eq:
  assumes "a \<in> dom (entries c)"
  shows "\<exists>c'. set_hotter a x c = Some c' \<and> relinked c c' \<and>
     hot_of (entries c') = (hot_of (entries c))(a := x) \<and> cold_of (entries c') = cold_of (entries c)"
  using assms by (auto simp: set_hotter_def relinked_def)

lemma set_colder_eq:
  assumes "a \<in> dom (entries c)"
  shows "\<exists>c'. set_colder a x c = Some c' \<and> relinked c c' \<and>
     cold_of (entries c') = (cold_of (entries c))(a := x) \<and> hot_of (entries c') = hot_of (entries c)"
  using assms by (auto simp: set_colder_def relinked_def)

lemma lru_remove_links:
  assumes "hot_of (entries c) a = Some h" "cold_of (entries c) a = Some k"
    and dom: "a \<in> dom (entries c)" "h \<in> dom (entries c)" "k \<in> dom (entries c)"
    and ne: "h \<noteq> a" "k \<noteq> a"
  shows "\<exists>c'. lru_remove a c = Some c' \<and> relinked c c' \<and>
    hot_of (entries c') = (hot_of (entries c))(k := Some h, a := None) \<and>
    cold_of (entries c') = (cold_of (entries c))(h := Some k, a := None)"
proof -
  obtain e where e: "entries c a = Some e" using dom(1) by blast
  obtain c1 where c1: "set_colder h (Some k) c = Some c1" "relinked c c1"
    "cold_of (entries c1) = (cold_of (entries c))(h := Some k)"
    "hot_of (entries c1) = hot_of (entries c)" using set_colder_eq[OF dom(2)] by blast
  note d1 = relinked_fields(7)[OF c1(2)]
  obtain e1 where e1: "entries c1 a = Some e1" using dom(1) d1 by blast
  have k1: "k \<in> dom (entries c1)" using dom(3) d1 by simp
  obtain c2 where c2: "set_hotter k (Some h) c1 = Some c2" "relinked c1 c2"
    "hot_of (entries c2) = (hot_of (entries c1))(k := Some h)"
    "cold_of (entries c2) = cold_of (entries c1)" using set_hotter_eq[OF k1] by blast
  note d2 = relinked_fields(7)[OF c2(2)]
  have a2: "a \<in> dom (entries c2)" using dom(1) d1 d2 by simp
  obtain c3 where c3: "set_hotter a None c2 = Some c3" "relinked c2 c3"
    "hot_of (entries c3) = (hot_of (entries c2))(a := None)"
    "cold_of (entries c3) = cold_of (entries c2)" using set_hotter_eq[OF a2] by blast
  have a3: "a \<in> dom (entries c3)" using a2 relinked_fields(7)[OF c3(2)] by simp
  obtain c4 where c4: "set_colder a None c3 = Some c4" "relinked c3 c4"
    "cold_of (entries c4) = (cold_of (entries c3))(a := None)"
    "hot_of (entries c4) = hot_of (entries c3)" using set_colder_eq[OF a3] by blast
  have "relinked c c4"
    by (rule relinked_trans[OF relinked_trans[OF relinked_trans[OF c1(2) c2(2)] c3(2)] c4(2)])
  moreover have "lru_remove a c = Some c4"
  proof -
    have "hotter e = Some h" "colder e = Some k" using entry_links[where es = "entries c" and a = a and e = e, OF e] assms(1,2) by auto
    moreover have "hotter e1 = Some h" "colder e1 = Some k"
      using entry_links[where es = "entries c1" and a = a and e = e1, OF e1] assms(1,2) ne by (auto simp: c1(3,4))
    ultimately show ?thesis using e e1 c1(1) c2(1) c3(1) c4(1) by (simp add: lru_remove_def)
  qed
  moreover have "hot_of (entries c4) = (hot_of (entries c))(k := Some h, a := None)"
    by (simp only: c4(4) c3(3) c2(3) c1(4))
  moreover have "cold_of (entries c4) = (cold_of (entries c))(h := Some k, a := None)"
    by (simp only: c4(3) c3(4) c2(4) c1(3))
  ultimately show ?thesis by blast
qed

lemma linked_neighbours:
  assumes "linked es (xs @ [h, a, k] @ ys)"
  shows "hot_of es a = Some h" "cold_of es a = Some k" "a \<in> dom es" "h \<in> dom es" "k \<in> dom es"
    "h \<noteq> a" "k \<noteq> a"
  using assms by (auto simp: linked_def dchain_append)

lemma lru_remove_linked:
  assumes "linked (entries c) (xs @ [h, a, k] @ ys)"
  shows "\<exists>c'. lru_remove a c = Some c' \<and> relinked c c' \<and> linked (entries c') (xs @ [h, k] @ ys) \<and>
    hot_of (entries c') a = None \<and> cold_of (entries c') a = None"
proof -
  note n = linked_neighbours[OF assms]
  obtain c' where c': "lru_remove a c = Some c'" "relinked c c'"
    "hot_of (entries c') = (hot_of (entries c))(k := Some h, a := None)"
    "cold_of (entries c') = (cold_of (entries c))(h := Some k, a := None)"
    using lru_remove_links[OF n] by blast
  have ch: "dchain (hot_of (entries c)) (cold_of (entries c)) None (xs @ [h, a, k] @ ys) None"
    and di: "distinct (xs @ [h, a, k] @ ys)" and do: "set (xs @ [h, a, k] @ ys) \<subseteq> dom (entries c)"
    using assms by (auto simp: linked_def)
  have "dchain ((hot_of (entries c))(k := Some h)) ((cold_of (entries c))(h := Some k)) None (xs @ [h, k] @ ys) None"
    by (rule dchain_unlink[OF ch di])
  moreover have "a \<notin> set (xs @ [h, k] @ ys)" using di by auto
  ultimately have "dchain (hot_of (entries c')) (cold_of (entries c')) None (xs @ [h, k] @ ys) None"
    unfolding c'(3,4) by (simp only: dchain_upd_pv dchain_upd_nx not_False_eq_True)
  then have "linked (entries c') (xs @ [h, k] @ ys)"
    using di do relinked_fields(7)[OF c'(2)] by (auto simp: linked_def)
  then show ?thesis using c' by simp
qed

lemma lru_insert_linked:
  assumes l: "linked (entries c) (c_head c # k # cs)"
    and a: "a \<in> dom (entries c)" "a \<notin> set (c_head c # k # cs)"
  shows "\<exists>c'. lru_insert a c = Some c' \<and> relinked c c' \<and> linked (entries c') (c_head c # a # k # cs)"
proof -
  let ?h = "c_head c"
  have ch: "dchain (hot_of (entries c)) (cold_of (entries c)) None ([] @ [?h, k] @ cs) None"
    and di: "distinct ([] @ [?h, k] @ cs)" and do: "set ([] @ [?h, k] @ cs) \<subseteq> dom (entries c)"
    and cold_h: "cold_of (entries c) ?h = Some k"
    using l by (auto simp: linked_def)
  have ne: "a \<noteq> ?h" "a \<noteq> k" "?h \<noteq> k" using a(2) di by auto
  obtain eh where eh: "entries c ?h = Some eh" using do by auto
  obtain c2 where c2: "set_colder a (Some k) c = Some c2" "relinked c c2"
    "cold_of (entries c2) = (cold_of (entries c))(a := Some k)"
    "hot_of (entries c2) = hot_of (entries c)" using set_colder_eq[OF a(1)] by blast
  note f2 = relinked_fields[OF c2(2)]
  have a2: "a \<in> dom (entries c2)" using a(1) f2(7) by simp
  obtain c3 where c3: "set_hotter a (Some ?h) c2 = Some c3" "relinked c2 c3"
    "hot_of (entries c3) = (hot_of (entries c2))(a := Some ?h)"
    "cold_of (entries c3) = cold_of (entries c2)" using set_hotter_eq[OF a2] by blast
  note f3 = relinked_fields[OF c3(2)]
  have h3: "?h \<in> dom (entries c3)" "k \<in> dom (entries c3)" using do f2(7) f3(7) by auto
  obtain e3 where e3: "entries c3 ?h = Some e3" using h3(1) by blast
  obtain c4 where c4: "set_hotter k (Some a) c3 = Some c4" "relinked c3 c4"
    "hot_of (entries c4) = (hot_of (entries c3))(k := Some a)"
    "cold_of (entries c4) = cold_of (entries c3)" using set_hotter_eq[OF h3(2)] by blast
  note f4 = relinked_fields[OF c4(2)]
  have h4: "?h \<in> dom (entries c4)" using h3(1) f4(7) by simp
  obtain c5 where c5: "set_colder ?h (Some a) c4 = Some c5" "relinked c4 c5"
    "cold_of (entries c5) = (cold_of (entries c4))(?h := Some a)"
    "hot_of (entries c5) = hot_of (entries c4)" using set_colder_eq[OF h4] by blast
  have r: "relinked c c5"
    by (rule relinked_trans[OF relinked_trans[OF relinked_trans[OF c2(2) c3(2)] c4(2)] c5(2)])
  have "colder eh = Some k"
    using entry_links[where es = "entries c" and a = ?h and e = eh, OF eh] cold_h by simp
  moreover have "colder e3 = Some k"
    using entry_links[where es = "entries c3" and a = ?h and e = e3, OF e3] cold_h ne
    by (simp add: c3(4) c2(3))
  ultimately have "lru_insert a c = Some c5"
    using eh e3 c2(1) c3(1) c4(1) c5(1) f2(2) f3(2) f4(2) by (simp add: lru_insert_def)
  moreover have "hot_of (entries c5) = (hot_of (entries c))(a := Some ?h, k := Some a)"
    by (simp only: c5(4) c4(3) c3(3) c2(4))
  moreover have "cold_of (entries c5) = (cold_of (entries c))(a := Some k, ?h := Some a)"
    by (simp only: c5(3) c4(4) c3(4) c2(3))
  moreover have "dchain ((hot_of (entries c))(a := Some ?h, k := Some a))
      ((cold_of (entries c))(a := Some k, ?h := Some a)) None ([] @ [?h, a, k] @ cs) None"
    by (rule dchain_link[OF ch di]) (use a(2) in simp)
  ultimately show ?thesis
    using r di do a relinked_fields(7)[OF r] unfolding linked_def
    by (intro exI[of _ c5]) (simp only: append_Nil append_Cons, auto)
qed

text \<open>The same between the sentinels of a cache.\<close>

definition lru_order :: "DnsCache \<Rightarrow> addr list \<Rightarrow> bool" where
  "lru_order c as \<longleftrightarrow> linked (entries c) (c_head c # as @ [c_tail c])"

lemma lru_unlink:
  assumes "lru_order c (xs @ a # ys)"
  shows "\<exists>c'. lru_remove a c = Some c' \<and> relinked c c' \<and> lru_order c' (xs @ ys) \<and>
    hot_of (entries c') a = None \<and> cold_of (entries c') a = None"
proof -
  obtain ps h where ps: "c_head c # xs = ps @ [h]" by (metis append_butlast_last_id list.distinct(1))
  obtain k qs where qs: "ys @ [c_tail c] = k # qs" by (metis Nil_is_append_conv list.exhaust list.distinct(1))
  have "c_head c # (xs @ a # ys) @ [c_tail c] = ps @ [h, a, k] @ qs"
    using ps qs by (metis append_Cons append_Nil append_assoc)
  then have l: "linked (entries c) (ps @ [h, a, k] @ qs)" using assms by (simp add: lru_order_def)
  obtain c' where c': "lru_remove a c = Some c'" "relinked c c'" "linked (entries c') (ps @ [h, k] @ qs)"
    "hot_of (entries c') a = None" "cold_of (entries c') a = None"
    using lru_remove_linked[OF l] by blast
  have "c_head c # (xs @ ys) @ [c_tail c] = ps @ [h, k] @ qs"
    using ps qs by (metis append_Cons append_Nil append_assoc)
  then have "lru_order c' (xs @ ys)"
    using c'(3) relinked_fields(2,3)[OF c'(2)] by (simp add: lru_order_def)
  with c' show ?thesis by blast
qed

lemma lru_push:
  assumes l: "lru_order c as" and a: "a \<in> dom (entries c)" "a \<notin> set (c_head c # as @ [c_tail c])"
  shows "\<exists>c'. lru_insert a c = Some c' \<and> relinked c c' \<and> lru_order c' (a # as)"
proof -
  obtain k qs where qs: "as @ [c_tail c] = k # qs" by (metis Nil_is_append_conv list.exhaust list.distinct(1))
  have l': "linked (entries c) (c_head c # k # qs)" using l qs by (simp add: lru_order_def)
  have a': "a \<notin> set (c_head c # k # qs)" using a(2) qs by simp
  obtain c' where c': "lru_insert a c = Some c'" "relinked c c'" "linked (entries c') (c_head c # a # k # qs)"
    using lru_insert_linked[OF l' a(1) a'] by blast
  have "lru_order c' (a # as)"
    using c'(3) relinked_fields(2,3)[OF c'(2)] by (simp add: lru_order_def qs)
  with c' show ?thesis by blast
qed

lemma lru_order_members:
  assumes "lru_order c as"
  shows "distinct as" "c_head c \<noteq> c_tail c" "c_head c \<notin> set as" "c_tail c \<notin> set as"
    "set as \<subseteq> dom (entries c)" "c_head c \<in> dom (entries c)" "c_tail c \<in> dom (entries c)"
  using assms by (auto simp: lru_order_def linked_def)

lemma lru_order_links:
  assumes "lru_order c (xs @ a # ys)"
  shows "hot_of (entries c) a = last_or (Some (c_head c)) xs"
    "cold_of (entries c) a = first_or ys (Some (c_tail c))"
  using assms by (simp_all add: lru_order_def linked_def dchain_append)

lemma lru_order_ends:
  assumes "lru_order c as"
  shows "cold_of (entries c) (c_head c) = first_or as (Some (c_tail c))"
    "hot_of (entries c) (c_tail c) = last_or (Some (c_head c)) as"
  using assms by (simp_all add: lru_order_def linked_def dchain_append)

lemma lru_touch_new:
  assumes l: "lru_order c as" and a: "entries c a = Some e" "hotter e = None"
    "a \<notin> set (c_head c # as @ [c_tail c])"
  shows "\<exists>c'. lru_touch a c = Some c' \<and> relinked c c' \<and> lru_order c' (a # as)"
proof -
  have "a \<in> dom (entries c)" using a(1) by blast
  then obtain c' where "lru_insert a c = Some c'" "relinked c c'" "lru_order c' (a # as)"
    using lru_push[OF l _ a(3)] by blast
  then show ?thesis using a(1,2) by (simp add: lru_touch_def)
qed

lemma lru_touch_old:
  assumes l: "lru_order c (xs @ a # ys)"
  shows "\<exists>c'. lru_touch a c = Some c' \<and> relinked c c' \<and> lru_order c' (a # xs @ ys)"
proof -
  obtain c1 where c1: "lru_remove a c = Some c1" "relinked c c1" "lru_order c1 (xs @ ys)"
    using lru_unlink[OF l] by blast
  note f1 = relinked_fields[OF c1(2)] and m = lru_order_members[OF l]
  have "a \<in> dom (entries c1)" "a \<notin> set (c_head c1 # (xs @ ys) @ [c_tail c1])"
    using m f1(2,3,7) by auto
  then obtain c2 where c2: "lru_insert a c1 = Some c2" "relinked c1 c2" "lru_order c2 (a # xs @ ys)"
    using lru_push[OF c1(3)] by blast
  obtain e where e: "entries c a = Some e" using m(5) by auto
  have "hotter e \<noteq> None" "colder e \<noteq> None"
    using entry_links[where es = "entries c" and a = a and e = e, OF e] lru_order_links[OF l]
    by (auto simp: last_or_None first_or_None)
  then have "lru_touch a c = Some c2" using e c1(1) c2(1) by (simp add: lru_touch_def)
  then show ?thesis using c2(3) relinked_trans[OF c1(2) c2(2)] by blast
qed

section \<open>The invariant\<close>

text \<open>
  \<open>info c a\<close> is the key, the value and the time of the entry at \<open>a\<close>, and \<open>cache_list\<close>
  the abstraction of a cache whose entries are, from the most to the least recently used, at
  the addresses \<open>as\<close>.
\<close>

definition info :: "DnsCache \<Rightarrow> addr \<Rightarrow> cstr \<times> CacheValue \<times> ms" where
  "info c a = the (content (entries c) a)"

definition cache_list :: "DnsCache \<Rightarrow> addr list \<Rightarrow> (cstr \<times> CacheValue \<times> ms) list" where
  "cache_list c as = map (info c) as"

text \<open>The records of a value have the lengths they state.\<close>

definition value_ok :: "CacheValue \<Rightarrow> bool" where
  "value_ok v \<longleftrightarrow> (case cv_rrs v of None \<Rightarrow> False
     | Some rs \<Rightarrow> \<forall>r \<in> set rs. unat (rdata_length r) = length (rdata r))"

definition cache_rep :: "DnsCache \<Rightarrow> addr list \<Rightarrow> bool" where
  "cache_rep c as \<longleftrightarrow> lru_order c as \<and> dom (entries c) = set (c_head c # as @ [c_tail c]) \<and>
     (\<forall>b \<in> dom (entries c). b < next_entry c) \<and>
     hm_inv (table c) \<and> hm_map (table c) = map_of (map (\<lambda>a. (fst (info c a), a)) as) \<and>
     distinct (map fst (cache_list c as)) \<and> c_size c = int (length as) \<and>
     c_size c \<le> c_capacity c \<and> 1 \<le> c_capacity c \<and>
     (\<forall>p \<in> set (cache_list c as). value_ok (fst (snd p)))"

lemma cache_rep_parts:
  assumes "cache_rep c as"
  shows "lru_order c as" "dom (entries c) = set (c_head c # as @ [c_tail c])"
    "\<forall>b \<in> dom (entries c). b < next_entry c" "hm_inv (table c)"
    "hm_map (table c) = map_of (map (\<lambda>a. (fst (info c a), a)) as)"
    "distinct (map (\<lambda>a. fst (info c a)) as)" "c_size c = int (length as)"
    "c_size c \<le> c_capacity c" "1 \<le> c_capacity c" "\<forall>a \<in> set as. value_ok (fst (snd (info c a)))"
  using assms by (auto simp: cache_rep_def cache_list_def comp_def)

lemma cache_repI:
  assumes "lru_order c as" "dom (entries c) = set (c_head c # as @ [c_tail c])"
    "\<And>b. b \<in> dom (entries c) \<Longrightarrow> b < next_entry c" "hm_inv (table c)"
    "hm_map (table c) = map_of (map (\<lambda>a. (fst (info c a), a)) as)"
    "distinct (map (\<lambda>a. fst (info c a)) as)" "c_size c = int (length as)"
    "c_size c \<le> c_capacity c" "1 \<le> c_capacity c" "\<And>a. a \<in> set as \<Longrightarrow> value_ok (fst (snd (info c a)))"
  shows "cache_rep c as"
  using assms by (auto simp: cache_rep_def cache_list_def comp_def)

lemma keys_of_addrs: "map fst (map (\<lambda>a. (f a, a)) as) = map f as"
  by simp

text \<open>Reordering keeps the invariant.\<close>

lemma cache_rep_relinked:
  assumes rep: "cache_rep c as" and r: "relinked c c'" and l: "lru_order c' bs"
    and p: "set bs = set as"
  shows "cache_rep c' bs" "info c' = info c"
proof -
  note P = cache_rep_parts[OF rep] and f = relinked_fields[OF r]
  show i: "info c' = info c" by (simp add: info_def fun_eq_iff f(8))
  have d: "distinct as" "distinct bs" using lru_order_members(1)[OF P(1)] lru_order_members(1)[OF l] .
  then have len: "length bs = length as" using p by (metis distinct_card)
  have inj: "inj_on (\<lambda>a. fst (info c a)) (set as)" using P(6) by (simp add: distinct_map)
  then have db: "distinct (map (\<lambda>a. fst (info c a)) bs)" using d(2) p by (simp add: distinct_map)
  have "map_of (map (\<lambda>a. (fst (info c a), a)) bs) = map_of (map (\<lambda>a. (fst (info c a), a)) as)"
    by (subst map_of_inject_set) (use P(6) db p in \<open>auto simp: comp_def\<close>)
  then show "cache_rep c' bs"
    using P db len p f l by (intro cache_repI) (auto simp: i)
qed

lemma content_free: "content (es(a := None)) = (content es)(a := None)"
  by (auto simp: content_def fun_eq_iff)

lemma linked_free:
  assumes "linked es xs" "a \<notin> set xs"
  shows "linked (es(a := None)) xs"
proof -
  have "hot_of (es(a := None)) = (hot_of es)(a := None)" "cold_of (es(a := None)) = (cold_of es)(a := None)"
    by (auto simp: hot_of_def cold_of_def fun_eq_iff)
  then show ?thesis using assms by (auto simp: linked_def)
qed

text \<open>Removing an entry.\<close>

lemma cache_remove_rep:
  assumes rep: "cache_rep c (xs @ a # ys)"
  shows "\<exists>c'. cache_remove_entry a c = Some c' \<and> cache_rep c' (xs @ ys) \<and> c_capacity c' = c_capacity c \<and>
    c_head c' = c_head c \<and> c_tail c' = c_tail c \<and>
    (\<forall>b \<in> set (xs @ ys). info c' b = info c b) \<and> next_entry c' = next_entry c \<and>
    (\<forall>b. b \<noteq> a \<longrightarrow> content (entries c') b = content (entries c) b)"
proof -
  note P = cache_rep_parts[OF rep]
  obtain c1 where c1: "lru_remove a c = Some c1" "relinked c c1" "lru_order c1 (xs @ ys)"
    using lru_unlink[OF P(1)] by blast
  note f1 = relinked_fields[OF c1(2)]
  have m: "a \<in> dom (entries c)" "a \<noteq> c_head c" "a \<noteq> c_tail c" "a \<notin> set (xs @ ys)"
    "c_head c \<noteq> c_tail c"
    using lru_order_members[OF P(1)] by auto
  obtain e where e: "entries c1 a = Some e" using m(1) f1(7) by blast
  have key: "ce_key e = fst (info c a)" using e by (simp add: info_def f1(8)[symmetric]) (simp add: content_def)
  obtain t where t: "hash_map_remove (table c1) (ce_key e) = Some t" "hm_inv t"
    "hm_map t = (hm_map (table c1))(ce_key e := None)"
    using hmap.remove_law[of "table c1"] P(4) f1(1) by auto
  define c2 where "c2 = c1\<lparr>table := t, entries := (entries c1)(a := None), c_size := c_size c1 - 1\<rparr>"
  have "c_size c > 0" using P(7) by simp
  then have run: "cache_remove_entry a c = Some c2"
    using c1(1) e t(1) f1(4) by (simp add: cache_remove_entry_def cache_entry_free_def c2_def)
  have cont: "content (entries c2) = (content (entries c))(a := None)"
    by (simp add: c2_def content_free f1(8))
  have i: "info c2 b = info c b" if "b \<in> set (xs @ ys)" for b
    using that m(4) by (auto simp: info_def cont)
  have l2: "lru_order c2 (xs @ ys)"
    using c1(3) m f1(2,3) by (auto simp: lru_order_def c2_def intro!: linked_free)
  let ?kv = "\<lambda>c as. map (\<lambda>a. (fst (info c a), a)) as"
  have "hm_map (table c2) = (map_of (?kv c (xs @ a # ys)))(fst (info c a) := None)"
    using t(3) P(5) f1(1) key by (simp only: c2_def, simp)
  also have "\<dots> = map_of (?kv c (xs @ ys))"
    using map_of_mid_delete[of "?kv c xs" "fst (info c a)" a "?kv c ys"] P(6) by (simp add: comp_def)
  also have "?kv c (xs @ ys) = ?kv c2 (xs @ ys)" by (rule map_cong[OF refl]) (simp add: i)
  finally have hm: "hm_map (table c2) = map_of (?kv c2 (xs @ ys))" .
  have keys: "map (\<lambda>b. fst (info c2 b)) (xs @ ys) = map (\<lambda>b. fst (info c b)) (xs @ ys)"
    by (rule map_cong[OF refl]) (simp add: i)
  have "cache_rep c2 (xs @ ys)"
  proof (rule cache_repI[OF l2 _ _ _ hm])
    show "dom (entries c2) = set (c_head c2 # (xs @ ys) @ [c_tail c2])"
      using P(2) f1(2,3,7) m by (auto simp: c2_def)
    show "distinct (map (\<lambda>b. fst (info c2 b)) (xs @ ys))" unfolding keys using P(6) by simp
    show "b < next_entry c2" if "b \<in> dom (entries c2)" for b
      using that P(3) f1(6,7) by (auto simp: c2_def split: if_splits)
    show "value_ok (fst (snd (info c2 b)))" if "b \<in> set (xs @ ys)" for b
      using P(10) that i[OF that] by auto
  qed (use P(7,8,9) t(2) f1(4,5) in \<open>auto simp: c2_def\<close>)
  then show ?thesis using run i f1 cont by (intro exI[of _ c2]) (auto simp: c2_def)
qed

section \<open>The specification\<close>

text \<open>
  The cache as a list of keys, values and times, the most recently used first. A value
  stays until one of its records has been held for its time to live; \<open>expired\<close> counts
  whole seconds, like the code.
\<close>

type_synonym lru = "(cstr \<times> CacheValue \<times> ms) list"

definition expired :: "CacheValue \<Rightarrow> ms \<Rightarrow> ms \<Rightarrow> bool" where
  "expired v created now \<longleftrightarrow> (case cv_rrs v of None \<Rightarrow> True
     | Some rs \<Rightarrow> \<exists>r \<in> set rs. ttl r \<noteq> UINT32_MAX \<and> c_quot (now - created) 1000 \<ge> int (unat (ttl r)))"

definition drop_key :: "cstr \<Rightarrow> lru \<Rightarrow> lru" where
  "drop_key k L = filter (\<lambda>p. fst p \<noteq> k) L"

definition lru_get :: "ms \<Rightarrow> cstr \<Rightarrow> lru \<Rightarrow> int \<times> CacheValue option \<times> lru" where
  "lru_get now k L =
     (case map_of L k of
        None \<Rightarrow> (1, None, L)
      | Some (v, t) \<Rightarrow> if expired v t now then (1, None, drop_key k L)
                       else (0, Some v, (k, v, t) # drop_key k L))"

definition lru_put :: "int \<Rightarrow> ms \<Rightarrow> cstr \<Rightarrow> CacheValue \<Rightarrow> lru \<Rightarrow> int \<times> lru" where
  "lru_put cap now k v L =
     (if cv_rrs v = None then (1, L)
      else (0, (k, v, now) # (if k \<in> fst ` set L then drop_key k L
                              else if cap \<le> int (length L) then butlast L else L)))"

fun lru_prune :: "(nat \<Rightarrow> ms) \<Rightarrow> nat \<Rightarrow> lru \<Rightarrow> lru" where
  "lru_prune clock i [] = []"
| "lru_prune clock i (p # L) =
     (if expired (fst (snd p)) (snd (snd p)) (clock i) then lru_prune clock (Suc i) L
      else p # lru_prune clock (Suc i) L)"

lemma is_entry_expired_spec: "is_entry_expired e now = expired (ce_value e) (created_at e) now"
proof -
  have "any_expired rs t now \<longleftrightarrow>
      (\<exists>r \<in> set rs. ttl r \<noteq> UINT32_MAX \<and> c_quot (now - t) 1000 \<ge> int (unat (ttl r)))" for rs t
    by (induction rs) auto
  then show ?thesis by (simp add: is_entry_expired_def expired_def split: option.split)
qed

lemma drop_key_absent: "k \<notin> fst ` set L \<Longrightarrow> drop_key k L = L"
  by (induction L) (auto simp: drop_key_def)

lemma drop_key_split:
  assumes "distinct (map fst (xs @ p # ys))" "fst p = k"
  shows "drop_key k (xs @ p # ys) = xs @ ys"
proof -
  have "k \<notin> fst ` set xs" "k \<notin> fst ` set ys" using assms by auto
  then show ?thesis using assms(2) drop_key_absent[of k xs] drop_key_absent[of k ys]
    by (simp add: drop_key_def)
qed

text \<open>A look-up in the table finds the entry of the key, or none has the key.\<close>

lemma cache_lookup:
  assumes rep: "cache_rep c as"
  obtains (miss) "hash_map_get (table c) k = Some (1, None)" "k \<notin> fst ` set (cache_list c as)"
    "hm_map (table c) k = None"
  | (hit) a xs ys e where "as = xs @ a # ys" "hash_map_get (table c) k = Some (0, Some a)"
    "entries c a = Some e" "info c a = (k, ce_value e, created_at e)"
    "drop_key k (cache_list c as) = cache_list c (xs @ ys)"
    "map_of (cache_list c as) k = Some (ce_value e, created_at e)" "value_ok (ce_value e)"
proof -
  note P = cache_rep_parts[OF rep]
  note get = hmap.get_law[OF P(4), of k]
  show thesis
  proof (cases "hm_map (table c) k")
    case None
    then have "k \<notin> (\<lambda>a. fst (info c a)) ` set as"
      unfolding P(5) map_of_eq_None_iff by (simp add: image_image)
    then show thesis using None get by (intro miss) (auto simp: cache_list_def)
  next
    case (Some a)
    then have "(k, a) \<in> set (map (\<lambda>a. (fst (info c a), a)) as)" unfolding P(5) by (rule map_of_SomeD)
    then have a: "a \<in> set as" "fst (info c a) = k" by auto
    obtain xs ys where as: "as = xs @ a # ys" using split_list[OF a(1)] by blast
    obtain e where e: "entries c a = Some e" using a(1) lru_order_members(5)[OF P(1)] by blast
    have i: "info c a = (k, ce_value e, created_at e)"
      using a(2) e by (simp add: info_def content_def)
    have d: "distinct (map fst (cache_list c xs @ info c a # cache_list c ys))"
      using P(6) as by (simp add: cache_list_def comp_def)
    have "drop_key k (cache_list c xs @ info c a # cache_list c ys) = cache_list c xs @ cache_list c ys"
      by (rule drop_key_split[OF d a(2)])
    then have dk: "drop_key k (cache_list c as) = cache_list c (xs @ ys)"
      by (simp add: as cache_list_def)
    have "(k, ce_value e, created_at e) \<in> set (cache_list c as)"
      using a(1) i by (force simp: cache_list_def)
    moreover have "distinct (map fst (cache_list c as))" using P(6) by (simp add: cache_list_def comp_def)
    ultimately have "map_of (cache_list c as) k = Some (ce_value e, created_at e)" by simp
    then show thesis using hit[OF as _ e i dk] get Some P(10) a(1) i by auto
  qed
qed

lemma value_clone_exact: "value_ok v \<Longrightarrow> cache_value_clone v = Some v"
  by (cases v) (auto simp: value_ok_def cache_value_clone_def rrs_or_nil_def rrs_clone_exact split: option.splits)

section \<open>Refinement of the operations\<close>

definition cache_abs :: "int \<Rightarrow> DnsCache \<Rightarrow> lru \<Rightarrow> bool" where
  "cache_abs cap c L \<longleftrightarrow> (\<exists>as. cache_rep c as \<and> L = cache_list c as \<and> c_capacity c = cap)"

lemma cache_list_cong:
  "(\<And>b. b \<in> set as \<Longrightarrow> info c' b = info c b) \<Longrightarrow> cache_list c' as = cache_list c as"
  by (simp add: cache_list_def)

lemma touch_abs:
  assumes rep: "cache_rep c (xs @ a # ys)"
  shows "\<exists>c'. lru_touch a c = Some c' \<and> c_capacity c' = c_capacity c \<and> cache_rep c' (a # xs @ ys) \<and>
    cache_list c' (a # xs @ ys) = info c a # cache_list c (xs @ ys)"
proof -
  note P = cache_rep_parts[OF rep]
  obtain c' where c': "lru_touch a c = Some c'" "relinked c c'" "lru_order c' (a # xs @ ys)"
    using lru_touch_old[OF P(1)] by blast
  have "set (a # xs @ ys) = set (xs @ a # ys)" by auto
  note R = cache_rep_relinked[OF rep c'(2,3) this]
  show ?thesis using c'(1) R relinked_fields(5)[OF c'(2)] by (simp add: cache_list_def)
qed

lemma get_refines:
  fixes now :: ms and name :: cstr and qt qc :: uint16_t
  assumes "cache_abs cap c L"
  defines "R \<equiv> lru_get now (cache_key_create name qt qc) L"
  shows "\<exists>c'. dns_cache_get now (Some name) qt qc (Some c) = Some (fst R, fst (snd R), Some c') \<and>
    cache_abs cap c' (snd (snd R))"
proof -
  let ?k = "cache_key_create name qt qc"
  obtain as where rep: "cache_rep c as" and L: "L = cache_list c as" and cap: "c_capacity c = cap"
    using assms(1) by (auto simp: cache_abs_def)
  from rep show ?thesis
  proof (cases rule: cache_lookup[where k = ?k, case_names miss hit])
    case miss
    then have "map_of L ?k = None" by (simp add: L map_of_eq_None_iff)
    then have "R = (1, None, L)" by (simp add: R_def lru_get_def)
    then show ?thesis using miss assms(1) by simp
  next
    case (hit a xs ys e)
    show ?thesis
    proof (cases "is_entry_expired e now")
      case True
      then have R: "R = (1, None, cache_list c (xs @ ys))"
        using hit by (simp add: R_def lru_get_def L is_entry_expired_spec)
      obtain c' where c': "cache_remove_entry a c = Some c'" "cache_rep c' (xs @ ys)"
        "c_capacity c' = c_capacity c" "\<forall>b \<in> set (xs @ ys). info c' b = info c b"
        using cache_remove_rep[of c xs a ys] rep hit(1) by blast
      have "cache_abs cap c' (cache_list c (xs @ ys))"
        unfolding cache_abs_def using c' cap cache_list_cong[of "xs @ ys" c' c] by metis
      then show ?thesis using True hit(2,3) c'(1) by (simp add: R)
    next
      case False
      then have R: "R = (0, Some (ce_value e), info c a # cache_list c (xs @ ys))"
        using hit by (simp add: R_def lru_get_def L is_entry_expired_spec)
      obtain c' where c': "lru_touch a c = Some c'" "c_capacity c' = c_capacity c"
        "cache_rep c' (a # xs @ ys)" "cache_list c' (a # xs @ ys) = info c a # cache_list c (xs @ ys)"
        using touch_abs[of c xs a ys] rep hit(1) by blast
      have "cache_abs cap c' (info c a # cache_list c (xs @ ys))"
        unfolding cache_abs_def using c' cap by metis
      then show ?thesis using False hit(2,3) c'(1) value_clone_exact[OF hit(7)] by (simp add: R)
    qed
  qed
qed

text \<open>An entry changed in place.\<close>

lemma update_rep:
  fixes now :: ms
  assumes rep: "cache_rep c (xs @ a # ys)" and e: "entries c a = Some e" and v: "value_ok v"
  defines "c1 \<equiv> c\<lparr>entries := (entries c)(a \<mapsto> e\<lparr>ce_value := v, created_at := now\<rparr>)\<rparr>"
  shows "cache_rep c1 (xs @ a # ys)" "info c1 a = (fst (info c a), v, now)"
    "\<forall>b \<in> set (xs @ ys). info c1 b = info c b"
proof -
  note P = cache_rep_parts[OF rep]
  have a: "a \<notin> set (xs @ ys)" using lru_order_members(1)[OF P(1)] by auto
  show i: "info c1 a = (fst (info c a), v, now)" using e by (simp add: info_def content_def c1_def)
  show r: "\<forall>b \<in> set (xs @ ys). info c1 b = info c b"
    using a by (auto simp: info_def content_def c1_def)
  have f: "fst (info c1 b) = fst (info c b)" if "b \<in> set (xs @ a # ys)" for b
    using that i r by (cases "b = a") auto
  have "hot_of (entries c1) = hot_of (entries c)" "cold_of (entries c1) = cold_of (entries c)"
    "dom (entries c1) = dom (entries c)"
    using e by (auto simp: c1_def hot_of_def cold_of_def fun_eq_iff)
  moreover have "c_head c1 = c_head c" "c_tail c1 = c_tail c" by (simp_all add: c1_def)
  ultimately have l: "lru_order c1 (xs @ a # ys)"
    using P(1) unfolding lru_order_def linked_def by (simp only:)
  have kv: "map (\<lambda>b. (fst (info c1 b), b)) (xs @ a # ys) = map (\<lambda>b. (fst (info c b), b)) (xs @ a # ys)"
    "map (\<lambda>b. fst (info c1 b)) (xs @ a # ys) = map (\<lambda>b. fst (info c b)) (xs @ a # ys)"
    by (rule map_cong[OF refl], use f in blast)+
  have c1: "table c1 = table c" "c_head c1 = c_head c" "c_tail c1 = c_tail c" "c_size c1 = c_size c"
    "c_capacity c1 = c_capacity c" "next_entry c1 = next_entry c" "dom (entries c1) = dom (entries c)"
    using e by (auto simp: c1_def)
  show "cache_rep c1 (xs @ a # ys)"
  proof (rule cache_repI[OF l])
    show "value_ok (fst (snd (info c1 b)))" if "b \<in> set (xs @ a # ys)" for b
      using that i r P(10) v by (cases "b = a") auto
  qed (use P(2-9) in \<open>simp_all only: c1 kv\<close>)
qed

text \<open>A new entry.\<close>

lemma insert_rep:
  assumes rep: "cache_rep c as" and room: "c_size c < c_capacity c"
    and k: "hm_map (table c) (ce_key e) = None" and v: "value_ok (ce_value e)"
    and e: "hotter e = None" "colder e = None"
  shows "\<exists>r t c'. hash_map_put (table c) (ce_key e) (next_entry c) = Some (r, t) \<and>
    lru_touch (next_entry c) (c\<lparr>entries := (entries c)(next_entry c \<mapsto> e), next_entry := next_entry c + 1,
      table := t\<rparr>) = Some c' \<and> cache_rep (c'\<lparr>c_size := c_size c' + 1\<rparr>) (next_entry c # as) \<and>
    cache_list (c'\<lparr>c_size := c_size c' + 1\<rparr>) (next_entry c # as) =
      (ce_key e, ce_value e, created_at e) # cache_list c as \<and> c_capacity c' = c_capacity c"
proof -
  note P = cache_rep_parts[OF rep]
  let ?a = "next_entry c"
  obtain r t where t: "hash_map_put (table c) (ce_key e) ?a = Some (r, t)" "hm_inv t"
    "hm_map t = (hm_map (table c))(ce_key e \<mapsto> ?a)"
    using hmap.put_law[OF P(4), of "ce_key e" ?a] by blast
  define c2 where "c2 = c\<lparr>entries := (entries c)(?a \<mapsto> e), next_entry := ?a + 1, table := t\<rparr>"
  have fresh: "?a \<notin> dom (entries c)" using P(3) by blast
  have h2: "hot_of (entries c2) = (hot_of (entries c))(?a := None)"
    "cold_of (entries c2) = (cold_of (entries c))(?a := None)"
    using e by (simp_all add: c2_def hot_of_def cold_of_def fun_eq_iff)
  have ends2: "c_head c2 = c_head c" "c_tail c2 = c_tail c" "dom (entries c2) = insert ?a (dom (entries c))"
    by (simp_all add: c2_def)
  have a: "?a \<notin> set (c_head c # as @ [c_tail c])" using fresh P(2) by simp
  have l2: "lru_order c2 as"
    using P(1) unfolding lru_order_def linked_def h2 ends2
    by (simp only: dchain_upd_pv[OF a] dchain_upd_nx[OF a] subset_insertI2 simp_thms)
  obtain c3 where c3: "lru_touch ?a c2 = Some c3" "relinked c2 c3" "lru_order c3 (?a # as)"
    using lru_touch_new[OF l2, of ?a e] e a by (auto simp: c2_def)
  note f3 = relinked_fields[OF c3(2)]
  define c4 where "c4 = c3\<lparr>c_size := c_size c3 + 1\<rparr>"
  have i4: "info c4 b = info c2 b" for b by (simp add: info_def c4_def f3(8))
  have ia: "info c4 ?a = (ce_key e, ce_value e, created_at e)"
    unfolding i4 by (simp add: info_def content_def c2_def)
  have ib: "info c4 b = info c b" if "b \<in> set as" for b
    using that a unfolding i4 by (auto simp: info_def content_def c2_def)
  have kv: "map (\<lambda>b. (fst (info c4 b), b)) as = map (\<lambda>b. (fst (info c b), b)) as"
    "map (\<lambda>b. fst (info c4 b)) as = map (\<lambda>b. fst (info c b)) as"
    by (rule map_cong[OF refl], use ib in simp)+
  have knew: "ce_key e \<notin> (\<lambda>b. fst (info c b)) ` set as"
    using k unfolding P(5) map_of_eq_None_iff by (simp add: image_image)
  have rep4: "cache_rep c4 (?a # as)"
  proof (rule cache_repI)
    show "lru_order c4 (?a # as)" using c3(3) by (simp add: lru_order_def c4_def)
    show "hm_map (table c4) = map_of (map (\<lambda>b. (fst (info c4 b), b)) (?a # as))"
      using t(3) P(5) by (simp add: ia kv) (simp add: c4_def f3 c2_def)
    show "distinct (map (\<lambda>b. fst (info c4 b)) (?a # as))"
      using P(6) knew by (simp add: ia kv)
    show "value_ok (fst (snd (info c4 b)))" if "b \<in> set (?a # as)" for b
      using that ia ib P(10) v by auto
    show "hm_inv (table c4)" using t(2) f3(1) by (simp add: c4_def c2_def)
    show "dom (entries c4) = set (c_head c4 # (?a # as) @ [c_tail c4])"
      using P(2) f3 by (auto simp: c4_def c2_def)
    show "b < next_entry c4" if "b \<in> dom (entries c4)" for b
      using that P(3) f3 by (auto simp: c4_def c2_def less_Suc_eq)
  qed (use P(7,8,9) room f3 in \<open>simp_all add: c4_def c2_def\<close>)
  have "cache_list c4 (?a # as) = (ce_key e, ce_value e, created_at e) # cache_list c as"
    using ia cache_list_cong[of as c4 c] ib by (simp add: cache_list_def)
  then show ?thesis using t(1) c3(1) rep4 f3(5) unfolding c4_def c2_def by auto
qed

lemma evict_abs:
  assumes rep: "cache_rep c as" and full: "c_size c \<ge> c_capacity c"
  obtains et victim c' where "entries c (c_tail c) = Some et" "hotter et = Some victim"
    "victim \<noteq> c_head c" "cache_remove_entry victim c = Some c'" "cache_rep c' (butlast as)"
    "cache_list c' (butlast as) = butlast (cache_list c as)" "c_capacity c' = c_capacity c"
    "c_size c' < c_capacity c'"
proof -
  note P = cache_rep_parts[OF rep]
  have "as \<noteq> []" using full P(7,9) by auto
  then obtain xs a where as: "as = xs @ [a]" by (metis append_butlast_last_id)
  obtain et where et: "entries c (c_tail c) = Some et" using lru_order_members(7)[OF P(1)] by blast
  have h: "hotter et = Some a"
    using entry_links[where es = "entries c" and a = "c_tail c" and e = et, OF et] lru_order_ends(2)[OF P(1)]
    by (simp add: as)
  obtain c' where c': "cache_remove_entry a c = Some c'" "cache_rep c' (xs @ [])"
    "c_capacity c' = c_capacity c" "\<forall>b \<in> set (xs @ []). info c' b = info c b"
    using cache_remove_rep[of c xs a "[]"] rep as by blast
  have "c_size c' < c_capacity c'" using cache_rep_parts(7)[OF c'(2)] P(7,8) c'(3) as by simp
  moreover have "cache_list c' (butlast as) = butlast (cache_list c as)"
    using cache_list_cong[of xs c' c] c'(4) by (simp add: as cache_list_def)
  ultimately show thesis
    using that[OF et h _ c'(1)] c'(2,3) lru_order_members(3)[OF P(1)] as by auto
qed

lemma put_new:
  assumes rep: "cache_rep c as" and room: "c_size c < c_capacity c"
    and k: "cache_key_create name qt qc \<notin> fst ` set (cache_list c as)" and v: "value_ok v"
  shows "\<exists>e r t c'. cache_entry_create name qt qc v now = Some e \<and>
    hash_map_put (table c) (ce_key e) (next_entry c) = Some (r, t) \<and>
    lru_touch (next_entry c) (c\<lparr>entries := (entries c)(next_entry c \<mapsto> e), next_entry := next_entry c + 1,
      table := t\<rparr>) = Some c' \<and>
    cache_abs (c_capacity c) (c'\<lparr>c_size := c_size c' + 1\<rparr>) ((cache_key_create name qt qc, v, now) # cache_list c as)"
proof -
  define e where "e = \<lparr>ce_key = cache_key_create name qt qc, ce_value = v, created_at = now,
    hotter = None, colder = None\<rparr>"
  have mk: "cache_entry_create name qt qc v now = Some e"
    using value_clone_exact[OF v] by (simp add: cache_entry_create_def e_def)
  have "hm_map (table c) (ce_key e) = None"
    unfolding cache_rep_parts(5)[OF rep] map_of_eq_None_iff
    using k by (auto simp: e_def cache_list_def)
  from insert_rep[OF rep room this] obtain r t c' where
    "hash_map_put (table c) (ce_key e) (next_entry c) = Some (r, t)"
    "lru_touch (next_entry c) (c\<lparr>entries := (entries c)(next_entry c \<mapsto> e), next_entry := next_entry c + 1,
      table := t\<rparr>) = Some c'" "cache_rep (c'\<lparr>c_size := c_size c' + 1\<rparr>) (next_entry c # as)"
    "cache_list (c'\<lparr>c_size := c_size c' + 1\<rparr>) (next_entry c # as) =
      (ce_key e, ce_value e, created_at e) # cache_list c as" "c_capacity c' = c_capacity c"
    using v by (auto simp: e_def)
  moreover have "c_capacity (c'\<lparr>c_size := c_size c' + 1\<rparr>) = c_capacity c'" by simp
  ultimately show ?thesis using mk unfolding cache_abs_def
    by (metis (no_types, lifting) e_def CacheEntry.select_convs(1,2,3))
qed

lemma put_refines:
  fixes now :: ms and name :: cstr and qt qc :: uint16_t
  assumes abs: "cache_abs cap c L" and v: "cv_rrs v \<noteq> None \<longrightarrow> value_ok v"
  defines "R \<equiv> lru_put cap now (cache_key_create name qt qc) v L"
  shows "\<exists>c'. dns_cache_put now (Some name) qt qc v (Some c) = Some (fst R, Some c') \<and> cache_abs cap c' (snd R)"
proof (cases "cv_rrs v = None")
  case True
  then show ?thesis using abs by (simp add: R_def lru_put_def)
next
  case False
  then have v: "value_ok v" using v by simp
  let ?k = "cache_key_create name qt qc"
  obtain as where rep: "cache_rep c as" and L: "L = cache_list c as" and cap: "c_capacity c = cap"
    using abs by (auto simp: cache_abs_def)
  from rep show ?thesis
  proof (cases rule: cache_lookup[where k = ?k, case_names miss hit])
    case (hit a xs ys e)
    have "?k \<in> fst ` set L" using hit(6) unfolding L by (metis domI dom_map_of_conv_image_fst)
    then have R: "R = (0, (?k, v, now) # cache_list c (xs @ ys))"
      using False hit(5) by (simp add: R_def lru_put_def L)
    define c1 where "c1 = c\<lparr>entries := (entries c)(a \<mapsto> e\<lparr>ce_value := v, created_at := now\<rparr>)\<rparr>"
    note U = update_rep[OF rep[unfolded hit(1)] hit(3) v, of now, folded c1_def]
    obtain c' where c': "lru_touch a c1 = Some c'" "c_capacity c' = c_capacity c1"
      "cache_rep c' (a # xs @ ys)" "cache_list c' (a # xs @ ys) = info c1 a # cache_list c1 (xs @ ys)"
      using touch_abs[OF U(1)] by blast
    have "cache_abs cap c' ((?k, v, now) # cache_list c (xs @ ys))"
      unfolding cache_abs_def
      using c' U(2) hit(4) cap cache_list_cong[of "xs @ ys" c1 c] U(3) c1_def
      by (intro exI[of _ "a # xs @ ys"]) simp
    then show ?thesis using False hit(2,3) c'(1) value_clone_exact[OF v] by (simp add: R Let_def c1_def)
  next
    case miss
    show ?thesis
    proof (cases "c_size c \<ge> c_capacity c")
      case True
      from rep True obtain et w c1 where w: "entries c (c_tail c) = Some et" "hotter et = Some w"
        "w \<noteq> c_head c" "cache_remove_entry w c = Some c1" "cache_rep c1 (butlast as)"
        "cache_list c1 (butlast as) = butlast L" "c_capacity c1 = cap" "c_size c1 < c_capacity c1"
        using L cap by (auto elim: evict_abs)
      have "?k \<notin> fst ` set (cache_list c1 (butlast as))"
        using miss(2) L by (auto simp: w(6) dest: in_set_butlastD)
      from put_new[OF w(5,8) this v, of now] show ?thesis
        using miss True False w(1-4,6,7) L cap cache_rep_parts(7)[OF rep]
        by (auto simp: R_def lru_put_def cache_list_def)
    next
      case room: False
      then have "c_size c < c_capacity c" by simp
      from put_new[OF rep this miss(2) v, of now] show ?thesis
        using miss room False L cap cache_rep_parts(7)[OF rep]
        by (auto simp: R_def lru_put_def cache_list_def)
    qed
  qed
qed

lemma prune_loop_rep:
  assumes "cache_rep c (xs @ ys)"
  shows "\<exists>c' zs. prune_loop clock i (the (first_or ys (Some (c_tail c)))) c = Some c' \<and> cache_rep c' (xs @ zs) \<and>
    cache_list c' (xs @ zs) = cache_list c xs @ lru_prune clock i (cache_list c ys) \<and>
    c_capacity c' = c_capacity c"
  using assms
proof (induction ys arbitrary: i c xs)
  case Nil
  then show ?case by (intro exI[of _ c] exI[of _ "[]"]) (simp add: prune_loop.simps cache_list_def)
next
  case (Cons a ys)
  note P = cache_rep_parts[OF Cons.prems]
  obtain e where e: "entries c a = Some e" using lru_order_members(5)[OF P(1)] by auto
  have nxt: "colder e = Some (the (first_or ys (Some (c_tail c))))"
    using entry_links[where es = "entries c" and a = a and e = e, OF e] lru_order_links(2)[OF P(1)]
      first_or_None[of ys "Some (c_tail c)"] by simp
  have ne: "a \<noteq> c_tail c" using lru_order_members(4)[OF P(1)] by auto
  have i: "info c a = (ce_key e, ce_value e, created_at e)" using e by (simp add: info_def content_def)
  show ?case
  proof (cases "is_entry_expired e (clock i)")
    case True
    obtain c1 where c1: "cache_remove_entry a c = Some c1" "cache_rep c1 (xs @ ys)"
      "c_capacity c1 = c_capacity c" "c_tail c1 = c_tail c" "\<forall>b \<in> set (xs @ ys). info c1 b = info c b"
      using cache_remove_rep[OF Cons.prems] by blast
    have same: "cache_list c1 xs = cache_list c xs" "cache_list c1 ys = cache_list c ys"
      using c1(5) by (auto intro!: cache_list_cong)
    obtain c' zs where c': "prune_loop clock (Suc i) (the (first_or ys (Some (c_tail c1)))) c1 = Some c'"
      "cache_rep c' (xs @ zs)" "c_capacity c' = c_capacity c1"
      "cache_list c' (xs @ zs) = cache_list c1 xs @ lru_prune clock (Suc i) (cache_list c1 ys)"
      using Cons.IH[OF c1(2), of "Suc i"] by blast
    have "prune_loop clock i a c = Some c'"
      by (subst prune_loop.simps) (use ne e nxt True c1(1,4) c'(1) in simp)
    moreover have "lru_prune clock i (cache_list c (a # ys)) = lru_prune clock (Suc i) (cache_list c ys)"
      using True i by (simp add: cache_list_def is_entry_expired_spec)
    ultimately show ?thesis using c'(2,3,4) c1(3) same by (intro exI[of _ c'] exI[of _ zs]) simp
  next
    case False
    have "cache_rep c ((xs @ [a]) @ ys)" using Cons.prems by simp
    then obtain c' zs where c': "prune_loop clock (Suc i) (the (first_or ys (Some (c_tail c)))) c = Some c'"
      "cache_rep c' ((xs @ [a]) @ zs)" "c_capacity c' = c_capacity c"
      "cache_list c' ((xs @ [a]) @ zs) = cache_list c (xs @ [a]) @ lru_prune clock (Suc i) (cache_list c ys)"
      using Cons.IH[of c "xs @ [a]" "Suc i"] by blast
    have "prune_loop clock i a c = Some c'"
      by (subst prune_loop.simps) (use ne e nxt False c'(1) in simp)
    moreover have "lru_prune clock i (cache_list c (a # ys)) = info c a # lru_prune clock (Suc i) (cache_list c ys)"
      using False i by (simp add: cache_list_def is_entry_expired_spec)
    ultimately show ?thesis using c'(2,3,4)
      by (intro exI[of _ c'] exI[of _ "a # zs"]) (simp add: cache_list_def)
  qed
qed

text \<open>The first entry, as read through the head sentinel.\<close>

lemma head_entry:
  assumes "lru_order c as"
  shows "\<exists>eh. entries c (c_head c) = Some eh \<and> colder eh = Some (the (first_or as (Some (c_tail c))))"
proof -
  obtain eh where eh: "entries c (c_head c) = Some eh" using lru_order_members(6)[OF assms] by blast
  then have "colder eh = first_or as (Some (c_tail c))"
    using entry_links[where es = "entries c" and a = "c_head c" and e = eh, OF eh] lru_order_ends(1)[OF assms]
    by simp
  then show ?thesis using eh first_or_None[of as "Some (c_tail c)"] by auto
qed

lemma prune_refines:
  assumes "cache_abs cap c L"
  shows "\<exists>c'. dns_cache_prune clock (Some c) = Some (0, Some c') \<and> cache_abs cap c' (lru_prune clock 0 L)"
proof -
  obtain as where rep: "cache_rep c as" and L: "L = cache_list c as" "c_capacity c = cap"
    using assms by (auto simp: cache_abs_def)
  have "cache_rep c ([] @ as)" using rep by simp
  then obtain c' zs where c': "prune_loop clock 0 (the (first_or as (Some (c_tail c)))) c = Some c'"
    "cache_rep c' ([] @ zs)" "c_capacity c' = c_capacity c"
    "cache_list c' ([] @ zs) = cache_list c [] @ lru_prune clock 0 (cache_list c as)"
    using prune_loop_rep by blast
  then have "cache_abs cap c' (lru_prune clock 0 L)"
    unfolding cache_abs_def using L by (intro exI[of _ zs]) (simp add: cache_list_def)
  then show ?thesis using head_entry[OF cache_rep_parts(1)[OF rep]] c'(1) by auto
qed

lemma init_abs:
  "\<exists>c. dns_cache_init None = Some (0, Some c) \<and> cache_abs DNS_CACHE_DEFAULT_CAPACITY c []"
proof -
  obtain m :: "(cstr, addr) HashMap" where m:
    "hash_map_create (Some hash_func_str) (Some (\<lambda>a b. compare_cstr (Some a) (Some b))) = Some (Some m)"
    "hm_rep m" "hm_map (Some m) = Map.empty"
    using create_hm_rep[of "\<lambda>a b. compare_cstr (Some a) (Some b)" hash_func_str]
    unfolding compare_cstr_zero option.inject by blast
  define c where "c = \<lparr>table = Some m, c_head = 0, c_tail = 1, c_size = 0,
       c_capacity = DNS_CACHE_DEFAULT_CAPACITY,
       entries = [0 \<mapsto> sentinel\<lparr>colder := Some 1\<rparr>, 1 \<mapsto> sentinel\<lparr>hotter := Some 0\<rparr>], next_entry = 2\<rparr>"
  have "lru_order c []"
    by (simp add: lru_order_def linked_def c_def hot_of_def cold_of_def sentinel_def)
  then have "cache_rep c []"
    using m by (intro cache_repI) (auto simp: c_def hm_inv_def DNS_CACHE_DEFAULT_CAPACITY_def)
  then have "cache_abs DNS_CACHE_DEFAULT_CAPACITY c []"
    unfolding cache_abs_def by (intro exI[of _ "[]"]) (simp add: cache_list_def c_def)
  then show ?thesis using m(1) by (simp add: c_def)
qed

section \<open>Sequences of calls\<close>

datatype CacheCall =
    CachePut ms cstr uint16_t uint16_t CacheValue
  | CacheGet ms cstr uint16_t uint16_t
  | CachePrune "nat \<Rightarrow> ms"

fun cache_step :: "CacheCall \<Rightarrow> DnsCache option \<Rightarrow> ((int \<times> CacheValue option) \<times> DnsCache option) option" where
  "cache_step (CachePut now name qt qc v) p = do {
     (r, p') \<leftarrow> dns_cache_put now (Some name) qt qc v p; Some ((r, None), p') }"
| "cache_step (CacheGet now name qt qc) p = do {
     (r, v, p') \<leftarrow> dns_cache_get now (Some name) qt qc p; Some ((r, v), p') }"
| "cache_step (CachePrune clock) p = do {
     (r, p') \<leftarrow> dns_cache_prune clock p; Some ((r, None), p') }"

fun cache_run :: "CacheCall list \<Rightarrow> DnsCache option \<Rightarrow> ((int \<times> CacheValue option) list \<times> DnsCache option) option" where
  "cache_run [] p = Some ([], p)"
| "cache_run (x # xs) p = do {
     (r, p1) \<leftarrow> cache_step x p;
     (rs, p2) \<leftarrow> cache_run xs p1;
     Some (r # rs, p2) }"

fun lru_step :: "int \<Rightarrow> CacheCall \<Rightarrow> lru \<Rightarrow> (int \<times> CacheValue option) \<times> lru" where
  "lru_step cap (CachePut now name qt qc v) L =
     (case lru_put cap now (cache_key_create name qt qc) v L of (r, L') \<Rightarrow> ((r, None), L'))"
| "lru_step cap (CacheGet now name qt qc) L =
     (case lru_get now (cache_key_create name qt qc) L of (r, v, L') \<Rightarrow> ((r, v), L'))"
| "lru_step cap (CachePrune clock) L = ((0, None), lru_prune clock 0 L)"

fun lru_run :: "int \<Rightarrow> CacheCall list \<Rightarrow> lru \<Rightarrow> (int \<times> CacheValue option) list \<times> lru" where
  "lru_run cap [] L = ([], L)"
| "lru_run cap (x # xs) L =
     (case lru_step cap x L of (r, L1) \<Rightarrow> case lru_run cap xs L1 of (rs, L2) \<Rightarrow> (r # rs, L2))"

text \<open>The values put have records of the lengths they state.\<close>

fun call_ok :: "CacheCall \<Rightarrow> bool" where
  "call_ok (CachePut now name qt qc v) \<longleftrightarrow> (cv_rrs v \<noteq> None \<longrightarrow> value_ok v)"
| "call_ok _ \<longleftrightarrow> True"

lemma step_refines:
  assumes "cache_abs cap c L" "call_ok x"
  shows "\<exists>c'. cache_step x (Some c) = Some (fst (lru_step cap x L), Some c') \<and> cache_abs cap c' (snd (lru_step cap x L))"
proof (cases x)
  case (CachePut now name qt qc v)
  then have "cv_rrs v \<noteq> None \<longrightarrow> value_ok v" using assms(2) by simp
  from put_refines[OF assms(1) this, of now name qt qc] show ?thesis
    unfolding CachePut by (auto simp: split_beta simp del: dns_cache_put.simps)
next
  case (CacheGet now name qt qc)
  from get_refines[OF assms(1), of now name qt qc] show ?thesis
    unfolding CacheGet by (auto simp: split_beta simp del: dns_cache_get.simps)
next
  case (CachePrune clock)
  from prune_refines[OF assms(1), of clock] show ?thesis
    unfolding CachePrune by (auto simp del: dns_cache_prune.simps)
qed

lemma run_refines:
  "cache_abs cap c L \<Longrightarrow> \<forall>x \<in> set xs. call_ok x \<Longrightarrow>
     \<exists>c'. cache_run xs (Some c) = Some (fst (lru_run cap xs L), Some c') \<and> cache_abs cap c' (snd (lru_run cap xs L))"
proof (induction xs arbitrary: c L)
  case (Cons x xs)
  obtain c1 where c1: "cache_step x (Some c) = Some (fst (lru_step cap x L), Some c1)"
    "cache_abs cap c1 (snd (lru_step cap x L))" using step_refines[OF Cons.prems(1), of x] Cons.prems(2) by auto
  obtain c2 where "cache_run xs (Some c1) = Some (fst (lru_run cap xs (snd (lru_step cap x L))), Some c2)"
    "cache_abs cap c2 (snd (lru_run cap xs (snd (lru_step cap x L))))"
    using Cons.IH[OF c1(2)] Cons.prems(2) by auto
  with c1 show ?case by (auto simp: split_beta)
qed simp

section \<open>Freeing\<close>

lemma free_loop_rep:
  assumes "dchain (hot_of (entries c)) (cold_of (entries c)) p (ys @ [c_tail c]) None"
    and "distinct (ys @ [c_tail c])" "set ys \<subseteq> dom (entries c)" "hm_inv (table c)"
    and "hm_map (table c) = map_of (map (\<lambda>a. (fst (info c a), a)) ys)" "distinct (map (\<lambda>a. fst (info c a)) ys)"
  shows "\<exists>c'. free_loop (the (first_or ys (Some (c_tail c)))) c = Some c' \<and> hm_inv (table c') \<and>
    hm_map (table c') = Map.empty \<and> entries c' = (\<lambda>b. if b \<in> set ys then None else entries c b) \<and>
    c_head c' = c_head c \<and> c_tail c' = c_tail c"
  using assms
proof (induction ys arbitrary: c p)
  case Nil
  then show ?case by (intro exI[of _ c]) (auto simp: free_loop.simps)
next
  case (Cons a ys)
  obtain e where e: "entries c a = Some e" using Cons.prems(3) by auto
  have nxt: "colder e = Some (the (first_or ys (Some (c_tail c))))"
    using entry_links[where es = "entries c" and a = a and e = e, OF e] Cons.prems(1)
      first_or_None[of ys "Some (c_tail c)"] by simp
  have key: "ce_key e = fst (info c a)" using e by (simp add: info_def content_def)
  obtain t where t: "hash_map_remove (table c) (ce_key e) = Some t" "hm_inv t"
    "hm_map t = (hm_map (table c))(ce_key e := None)" using hmap.remove_law[OF Cons.prems(4)] by blast
  define c1 where "c1 = c\<lparr>table := t, entries := (entries c)(a := None)\<rparr>"
  have links: "hot_of (entries c1) = (hot_of (entries c))(a := None)"
    "cold_of (entries c1) = (cold_of (entries c))(a := None)"
    by (auto simp: c1_def hot_of_def cold_of_def fun_eq_iff)
  have ends: "c_head c1 = c_head c" "c_tail c1 = c_tail c" "table c1 = t" by (simp_all add: c1_def)
  have a: "a \<notin> set (ys @ [c_tail c])" using Cons.prems(2) by simp
  have i: "info c1 b = info c b" if "b \<in> set ys" for b
    using that a by (auto simp: info_def content_def c1_def)
  have kv: "map (\<lambda>b. (fst (info c1 b), b)) ys = map (\<lambda>b. (fst (info c b), b)) ys"
    "map (\<lambda>b. fst (info c1 b)) ys = map (\<lambda>b. fst (info c b)) ys"
    by (rule map_cong[OF refl], use i in simp)+
  have "map_of (map (\<lambda>b. (fst (info c b), b)) ys) =
      (map_of (map (\<lambda>b. (fst (info c b), b)) (a # ys)))(fst (info c a) := None)"
    using map_of_mid_delete[of "[]" "fst (info c a)" a "map (\<lambda>b. (fst (info c b), b)) ys"] Cons.prems(6)
    by (simp add: comp_def)
  then have hm: "hm_map (table c1) = map_of (map (\<lambda>b. (fst (info c1 b), b)) ys)"
    unfolding ends kv t(3) Cons.prems(5) key by (rule sym)
  have ch: "dchain (hot_of (entries c1)) (cold_of (entries c1)) (Some a) (ys @ [c_tail c1]) None"
    using Cons.prems(1) unfolding links ends by (simp only: append_Cons dchain.simps dchain_upd_pv[OF a] dchain_upd_nx[OF a])
  have "set ys \<subseteq> dom (entries c1)" using Cons.prems(3) a by (auto simp: c1_def)
  then obtain c' where c': "free_loop (the (first_or ys (Some (c_tail c1)))) c1 = Some c'" "hm_inv (table c')"
    "hm_map (table c') = Map.empty" "entries c' = (\<lambda>b. if b \<in> set ys then None else entries c1 b)"
    "c_head c' = c_head c1" "c_tail c' = c_tail c1"
    using Cons.IH[OF ch _ _ _ hm] Cons.prems(2,6) t(2) by (auto simp: ends kv)
  have "free_loop a c = Some c'"
    by (subst free_loop.simps) (use a e nxt t(1) c'(1) ends in \<open>simp add: cache_entry_free_def c1_def\<close>)
  moreover have "entries c' = (\<lambda>b. if b \<in> set (a # ys) then None else entries c b)"
    unfolding c'(4) by (auto simp: c1_def fun_eq_iff)
  ultimately show ?case using c' ends by (intro exI[of _ c']) auto
qed

section \<open>Keys\<close>

lemma digit_value: "m < 10 \<Longrightarrow> unat (word_of_nat (48 + m) :: byte) = 48 + m"
  by (subst unat_of_nat) simp

lemma decimal_digits: "b \<in> set (decimal n) \<Longrightarrow> 48 \<le> unat b \<and> unat b \<le> 57"
proof (induction n rule: decimal.induct)
  case (1 n)
  have d: "48 \<le> unat (word_of_nat (48 + m) :: byte) \<and> unat (word_of_nat (48 + m) :: byte) \<le> 57" if "m < 10" for m
    using that digit_value[OF that] by simp
  show ?case
  proof (cases "n < 10")
    case True
    then show ?thesis using 1(2) d[of n] by (subst (asm) decimal.simps) auto
  next
    case False
    then show ?thesis using 1 d[of "n mod 10"] by (subst (asm) (2) decimal.simps) auto
  qed
qed

lemma decimal_inj: "decimal m = decimal n \<Longrightarrow> m = n"
proof (induction m arbitrary: n rule: decimal.induct)
  case (1 m)
  have ne: "decimal k \<noteq> []" for k by (subst decimal.simps) simp
  have dig: "(word_of_nat (48 + i) :: byte) = word_of_nat (48 + j) \<Longrightarrow> i < 10 \<Longrightarrow> j < 10 \<Longrightarrow> i = j" for i j
    by (metis add_left_cancel digit_value)
  show ?case
  proof (cases "m < 10")
    case m: True
    show ?thesis
    proof (cases "n < 10")
      case True
      then show ?thesis using 1(2) m dig[of m n] by (simp add: decimal.simps[of m] decimal.simps[of n])
    next
      case False
      then show ?thesis using 1(2) m ne[of "n div 10"]
        by (simp add: decimal.simps[of m] decimal.simps[of n] Cons_eq_append_conv)
    qed
  next
    case m: False
    show ?thesis
    proof (cases "n < 10")
      case True
      then show ?thesis using 1(2) m ne[of "m div 10"]
        by (simp add: decimal.simps[of m] decimal.simps[of n] append_eq_Cons_conv)
    next
      case n: False
      have "decimal (m div 10) = decimal (n div 10)"
        "(word_of_nat (48 + m mod 10) :: byte) = word_of_nat (48 + n mod 10)"
        using 1(2) m n by (simp_all add: decimal.simps[of m] decimal.simps[of n])
      then have "m div 10 = n div 10" "m mod 10 = n mod 10"
        using 1(1)[OF m] dig[of "m mod 10" "n mod 10"] by auto
      then show ?thesis by (metis div_mult_mod_eq)
    qed
  qed
qed

lemma BAR_not_digit: "BAR \<notin> set (decimal n)"
  using decimal_digits[of BAR n] by (auto simp: BAR_def)

lemma split_at_sep:
  "x \<notin> set as \<Longrightarrow> x \<notin> set bs \<Longrightarrow> as @ x # cs = bs @ x # ds \<Longrightarrow> as = bs \<and> cs = ds"
  by (simp add: append_eq_append_conv2 append_eq_Cons_conv Cons_eq_append_conv) (auto simp: Cons_eq_append_conv)

lemma cache_abs_size:
  assumes "cache_abs cap c L"
  shows "c_size c = int (length L)" "c_size c \<le> cap" "finite (dom (entries c))"
    "card (dom (entries c)) = length L + 2" "distinct (map fst L)" "hm_inv (table c)"
    "dom (hm_map (table c)) = fst ` set L"
proof -
  obtain as where rep: "cache_rep c as" and L: "L = cache_list c as" "c_capacity c = cap"
    using assms by (auto simp: cache_abs_def)
  note P = cache_rep_parts[OF rep] and m = lru_order_members[OF P(1)]
  show "c_size c = int (length L)" "c_size c \<le> cap" "finite (dom (entries c))"
    "distinct (map fst L)" "hm_inv (table c)"
    using P L by (auto simp: cache_list_def comp_def)
  show "card (dom (entries c)) = length L + 2"
    using P(2) m(1-4) L(1) by (simp add: cache_list_def card_insert_if distinct_card)
  show "dom (hm_map (table c)) = fst ` set L"
    unfolding P(5) dom_map_of_conv_image_fst by (simp add: L(1) cache_list_def image_image)
qed

lemma c_quot_ge:
  fixes n :: int
  assumes "0 \<le> d"
  shows "n \<le> c_quot d 1000 \<longleftrightarrow> 1000 * n \<le> d"
proof -
  have "0 \<le> d mod 1000" "d mod 1000 < 1000" "d = 1000 * (d div 1000) + d mod 1000" by simp_all
  then have "n \<le> d div 1000 \<longleftrightarrow> 1000 * n \<le> d" by linarith
  then show ?thesis using assms by (simp add: c_quot_def)
qed

lemma expired_iff:
  assumes "created \<le> now" "cv_rrs v = Some rs"
  shows "expired v created now \<longleftrightarrow>
    (\<exists>r \<in> set rs. ttl r \<noteq> UINT32_MAX \<and> 1000 * int (unat (ttl r)) \<le> now - created)"
  using assms c_quot_ge[of "now - created"] by (simp add: expired_def)

lemma lru_prune_subset: "set (lru_prune clock i L) \<subseteq> set L"
  by (induction clock i L rule: lru_prune.induct) (auto split: if_splits)

lemma lru_prune_filter:
  "lru_prune (\<lambda>_. now) i L = filter (\<lambda>(k, v, t). \<not> expired v t now) L"
  by (induction L arbitrary: i) auto

section \<open>Properties\<close>

definition value1 :: CacheValue where
  "value1 = \<lparr>cv_answer = 1, cv_authority = 0, cv_additional = 0,
     cv_rrs = Some [\<lparr>rr_name = [97], rr_type = 1, rr_class = 1, ttl = 60, rdata_length = 4,
       rdata = [10, 0, 0, 1]\<rparr>]\<rparr>"

lemma value1_ok: "value_ok value1"
  by (simp add: value1_def value_ok_def)





text \<open>
  A value put is returned unchanged by the next get of the same question until the time
  to live of one of its records, in milliseconds, has passed since the put, and never from
  then on; a record with the largest time to live never expires, nor does a value without
  records.
\<close>

theorem cache_serves_until_expiry:
  assumes "cache_rep c as" "cv_rrs v = Some rs" "\<forall>r \<in> set rs. unat (rdata_length r) = length (rdata r)"
    and "t \<le> now"
  shows "\<exists>c1 c2. dns_cache_put t (Some name) qt qc v (Some c) = Some (0, Some c1) \<and>
    dns_cache_get now (Some name) qt qc (Some c1) =
      (if \<exists>r \<in> set rs. ttl r \<noteq> UINT32_MAX \<and> 1000 * int (unat (ttl r)) \<le> now - t
       then Some (1, None, Some c2) else Some (0, Some v, Some c2))"
proof -
  let ?k = "cache_key_create name qt qc"
  have "cache_abs (c_capacity c) c (cache_list c as)" using assms(1) unfolding cache_abs_def by blast
  moreover have "value_ok v" using assms(2,3) by (simp add: value_ok_def)
  ultimately obtain c1 L where c1: "dns_cache_put t (Some name) qt qc v (Some c) = Some (0, Some c1)"
    "cache_abs (c_capacity c) c1 ((?k, v, t) # L)"
    using put_refines[of "c_capacity c" c "cache_list c as" v t name qt qc] assms(2)
    by (auto simp: lru_put_def simp del: dns_cache_put.simps)
  obtain c2 where "dns_cache_get now (Some name) qt qc (Some c1) =
      (if expired v t now then Some (1, None, Some c2) else Some (0, Some v, Some c2))"
    using get_refines[OF c1(2), of now name qt qc]
    by (auto simp: lru_get_def simp del: dns_cache_get.simps split: if_splits)
  then show ?thesis using c1(1) expired_iff[OF assms(4,2)] by auto
qed

theorem cache_serves_until_expiry_witness:
  "\<exists>c c1 c2. dns_cache_init None = Some (0, Some c) \<and>
    dns_cache_put 0 (Some [97]) 1 1 value1 (Some c) = Some (0, Some c1) \<and>
    dns_cache_get 59999 (Some [97]) 1 1 (Some c1) = Some (0, Some value1, Some c2)"
proof -
  obtain c as where c: "dns_cache_init None = Some (0, Some c)" "cache_rep c as"
    using init_abs unfolding cache_abs_def by blast
  from c(1) cache_serves_until_expiry[OF c(2), of value1 "the (cv_rrs value1)" 0 59999 "[97]" 1 1]
  show ?thesis by (auto simp: value1_def)
qed

lemma cache_key_inj:
  "cache_key_create n qt qc = cache_key_create n' qt' qc' \<longleftrightarrow> n = n' \<and> qt = qt' \<and> qc = qc'"
proof
  assume "cache_key_create n qt qc = cache_key_create n' qt' qc'"
  then have "decimal (unat qc) = decimal (unat qc') \<and> decimal (unat qt) @ BAR # n = decimal (unat qt') @ BAR # n'"
    unfolding cache_key_create_def by (rule split_at_sep[OF BAR_not_digit BAR_not_digit])
  then have "decimal (unat qc) = decimal (unat qc')" "decimal (unat qt) = decimal (unat qt') \<and> n = n'"
    by (auto dest: split_at_sep[OF BAR_not_digit BAR_not_digit])
  then show "n = n' \<and> qt = qt' \<and> qc = qc'" by (auto dest!: decimal_inj simp: word_unat_eq_iff)
qed simp

text \<open>
  \<open>dns_cache_prune\<close> keeps exactly the values that have not expired, in their order
  of use.
\<close>

theorem cache_prune_exact:
  assumes "cache_rep c as"
  shows "\<exists>c' as'. dns_cache_prune (\<lambda>_. now) (Some c) = Some (0, Some c') \<and> cache_rep c' as' \<and>
    cache_list c' as' = filter (\<lambda>(k, v, t). \<not> expired v t now) (cache_list c as)"
proof -
  have "cache_abs (c_capacity c) c (cache_list c as)" using assms unfolding cache_abs_def by blast
  from prune_refines[OF this, of "\<lambda>_. now"] show ?thesis
    unfolding cache_abs_def lru_prune_filter by metis
qed

theorem cache_prune_exact_witness:
  "\<exists>c c' as'. dns_cache_init None = Some (0, Some c) \<and>
    dns_cache_prune (\<lambda>_. 5) (Some c) = Some (0, Some c') \<and> cache_rep c' as' \<and> cache_list c' as' = []"
proof -
  obtain c as where "dns_cache_init None = Some (0, Some c)" "cache_rep c as" "cache_list c as = []"
    using init_abs unfolding cache_abs_def by (metis (no_types))
  then show ?thesis using cache_prune_exact[of c as 5] by (metis filter.simps(1))
qed

text \<open>
  \<open>dns_cache_free\<close> visits every entry once, leaves no entry in the table for
  \<open>hash_map_free\<close> to release, and leaves no memory behind.
\<close>

theorem cache_free_complete:
  assumes "cache_rep c as"
  shows "dns_cache_free (Some c) = Some (0, [], Map.empty, None)"
proof -
  note P = cache_rep_parts[OF assms]
  obtain eh where eh: "entries c (c_head c) = Some eh" "colder eh = Some (the (first_or as (Some (c_tail c))))"
    using head_entry[OF P(1)] by blast
  have "dchain (hot_of (entries c)) (cold_of (entries c)) (Some (c_head c)) (as @ [c_tail c]) None"
    "distinct (as @ [c_tail c])"
    using P(1) unfolding lru_order_def linked_def by auto
  from free_loop_rep[OF this lru_order_members(5)[OF P(1)] P(4,5,6)] obtain c' where
    c': "free_loop (the (first_or as (Some (c_tail c)))) c = Some c'" "hm_inv (table c')"
    "hm_map (table c') = Map.empty" "entries c' = (\<lambda>b. if b \<in> set as then None else entries c b)"
    "c_head c' = c_head c" "c_tail c' = c_tail c" by blast
  have "entries c b = None" if "b \<notin> set (c_head c # as @ [c_tail c])" for b
    using that unfolding P(2)[symmetric] by blast
  then have "(entries c')(c_head c' := None, c_tail c' := None) = Map.empty"
    unfolding c'(4,5,6) by (auto simp: fun_eq_iff)
  then show ?thesis using eh c'(1) hash_map_free_empty[OF c'(2,3)] by simp
qed

theorem cache_free_complete_witness:
  "\<exists>c. dns_cache_init None = Some (0, Some c) \<and> dns_cache_free (Some c) = Some (0, [], Map.empty, None)"
proof -
  obtain c as where c: "dns_cache_init None = Some (0, Some c)" "cache_rep c as"
    using init_abs unfolding cache_abs_def by blast
  from c(1) cache_free_complete[OF c(2)] show ?thesis by blast
qed

end
