(* ===== verification/Cache_Timed.thy ===== *)
theory Cache_Timed
  imports Dns_Cache
begin

text \<open>
  The cache of \<^verbatim>\<open>src/dns/dns_cache.c\<close> as its callers see it, without capacity, order of use
  and removal: a map from questions to the last value put and its time. What a get returns is then
  a function of the calls before it. The calls of \<open>dns_cache_prune\<close> that the thread of
  \<^verbatim>\<open>src/server/daemons.c\<close> makes under the lock, between any two other calls, cannot be
  observed as long as the questions fit into the cache; when they do not, a get can miss, but
  never return anything else.
\<close>

section \<open>The map of questions\<close>

type_synonym question_id = "cstr \<times> uint16_t \<times> uint16_t"
type_synonym history = "question_id \<Rightarrow> (CacheValue \<times> ms) option"

definition key_of :: "question_id \<Rightarrow> cstr" where
  "key_of q = (case q of (name, qt, qc) \<Rightarrow> cache_key_create name qt qc)"

lemma key_of_triple [simp]: "cache_key_create name qt qc = key_of (name, qt, qc)"
  by (simp add: key_of_def)

lemma key_of_inj [simp]: "key_of p = key_of q \<longleftrightarrow> p = q"
  using cache_key_inj by (cases p; cases q) (simp add: key_of_def del: key_of_triple)

definition fresh_answer :: "history \<Rightarrow> ms \<Rightarrow> question_id \<Rightarrow> int \<times> CacheValue option" where
  "fresh_answer m now q =
     (case m q of None \<Rightarrow> (1, None) | Some (v, t) \<Rightarrow> if expired v t now then (1, None) else (0, Some v))"

fun remember :: "CacheCall \<Rightarrow> history \<Rightarrow> history" where
  "remember (CachePut now name qt qc v) m = (if cv_rrs v = None then m else m((name, qt, qc) \<mapsto> (v, now)))"
| "remember (CacheGet now name qt qc) m = m"
| "remember (CachePrune clock) m = m"

fun ideal_answer :: "CacheCall \<Rightarrow> history \<Rightarrow> int \<times> CacheValue option" where
  "ideal_answer (CachePut now name qt qc v) m = (if cv_rrs v = None then 1 else 0, None)"
| "ideal_answer (CacheGet now name qt qc) m = fresh_answer m now (name, qt, qc)"
| "ideal_answer (CachePrune clock) m = (0, None)"

fun ideal_run :: "CacheCall list \<Rightarrow> history \<Rightarrow> (int \<times> CacheValue option) list" where
  "ideal_run [] m = []"
| "ideal_run (x # xs) m = ideal_answer x m # ideal_run xs (remember x m)"

text \<open>A call reads the clock between \<open>t\<close> and \<open>t'\<close>; the calls are made one after the other.\<close>

fun between :: "ms \<Rightarrow> ms \<Rightarrow> CacheCall \<Rightarrow> bool" where
  "between t t' (CachePut now name qt qc v) \<longleftrightarrow> t \<le> now \<and> now \<le> t'"
| "between t t' (CacheGet now name qt qc) \<longleftrightarrow> t \<le> now \<and> now \<le> t'"
| "between t t' (CachePrune clock) \<longleftrightarrow> t \<le> t' \<and> (\<forall>i. t \<le> clock i \<and> clock i \<le> t')"

fun in_order :: "ms \<Rightarrow> CacheCall list \<Rightarrow> bool" where
  "in_order t [] \<longleftrightarrow> True"
| "in_order t (x # xs) \<longleftrightarrow> (\<exists>t'. between t t' x \<and> in_order t' xs)"

fun put_question :: "CacheCall \<Rightarrow> question_id set" where
  "put_question (CachePut now name qt qc v) = {(name, qt, qc)}"
| "put_question _ = {}"

definition questions_put :: "CacheCall list \<Rightarrow> question_id set" where
  "questions_put xs = (\<Union>x \<in> set xs. put_question x)"

text \<open>A result as the map gives it, or a miss in the place of a hit.\<close>

definition same_or_miss :: "int \<times> CacheValue option \<Rightarrow> int \<times> CacheValue option \<Rightarrow> bool" where
  "same_or_miss r s \<longleftrightarrow> r = s \<or> r = (1, None) \<and> (\<exists>v. s = (0, Some v))"

section \<open>The cache against the map\<close>

text \<open>
  \<open>agrees\<close>: what the cache holds is what was put last. \<open>complete\<close>: what it does not hold has
  expired.
\<close>

definition agrees :: "ms \<Rightarrow> history \<Rightarrow> lru \<Rightarrow> bool" where
  "agrees t m L \<longleftrightarrow> distinct (map fst L) \<and>
     (\<forall>p \<in> set L. \<exists>q. fst p = key_of q \<and> m q = Some (snd p)) \<and> (\<forall>q v c. m q = Some (v, c) \<longrightarrow> c \<le> t)"

definition complete :: "ms \<Rightarrow> history \<Rightarrow> lru \<Rightarrow> bool" where
  "complete t m L \<longleftrightarrow> (\<forall>q v c. m q = Some (v, c) \<longrightarrow> key_of q \<in> fst ` set L \<or> expired v c t)"

lemma expired_later:
  assumes "expired v c t" "c \<le> t" "t \<le> t'"
  shows "expired v c t'"
proof (cases "cv_rrs v")
  case (Some rs)
  then show ?thesis using assms by (fastforce simp: expired_iff)
qed (simp add: expired_def)

lemma agrees_sub:
  assumes "agrees t m L" "distinct (map fst L')" "set L' \<subseteq> set L" "t \<le> t'"
  shows "agrees t' m L'"
  using assms unfolding agrees_def by fastforce

lemma agrees_lookup:
  assumes "agrees t m L"
  shows "map_of L (key_of q) = (if key_of q \<in> fst ` set L then m q else None)"
proof (cases "key_of q \<in> fst ` set L")
  case True
  then obtain p where p: "p \<in> set L" "fst p = key_of q" by auto
  have "(key_of q, snd p) \<in> set L" using p by (metis prod.collapse)
  then have "map_of L (key_of q) = Some (snd p)" using assms by (auto simp: agrees_def)
  moreover have "m q = Some (snd p)" using assms p unfolding agrees_def by (metis key_of_inj)
  ultimately show ?thesis using True by simp
qed (simp add: map_of_eq_None_iff)

lemma agrees_time: "agrees t m L \<Longrightarrow> m q = Some (v, c) \<Longrightarrow> c \<le> t"
  unfolding agrees_def by blast

lemma complete_gone: "complete t m L \<Longrightarrow> m q = Some (v, c) \<Longrightarrow> key_of q \<notin> fst ` set L \<Longrightarrow> expired v c t"
  unfolding complete_def by blast

lemma complete_later:
  assumes "complete t m L" "agrees t m L" "t \<le> t'"
  shows "complete t' m L"
  using assms agrees_time[OF assms(2)] expired_later unfolding complete_def by blast

lemma drop_key_set: "set (drop_key k L) = {p \<in> set L. fst p \<noteq> k}"
  by (auto simp: drop_key_def)

lemma drop_key_distinct: "distinct (map fst L) \<Longrightarrow> distinct (map fst (drop_key k L))"
  by (simp add: drop_key_def distinct_map_filter)

lemma butlast_distinct: "distinct (map fst L) \<Longrightarrow> distinct (map fst (butlast L))"
  by (metis distinct_butlast map_butlast)

lemma lru_prune_distinct: "distinct (map fst L) \<Longrightarrow> distinct (map fst (lru_prune clock i L))"
  using lru_prune_subset by (induction clock i L rule: lru_prune.induct) fastforce+

text \<open>A list with an entry for a question in front.\<close>

lemma agrees_front:
  assumes m: "agrees t m L" "set L' \<subseteq> set L" "distinct (map fst L')" "key_of q \<notin> fst ` set L'"
    and w: "snd w \<le> t'" "t \<le> t'"
  shows "agrees t' (m(q \<mapsto> w)) ((key_of q, w) # L')"
proof -
  have "\<exists>q'. fst p = key_of q' \<and> (m(q \<mapsto> w)) q' = Some (snd p)" if p: "p \<in> set L'" for p
  proof -
    obtain q' where q': "fst p = key_of q'" "m q' = Some (snd p)" using m(1,2) p unfolding agrees_def by blast
    with p m(4) have "q' \<noteq> q" by force
    with q' show ?thesis by (intro exI[of _ q']) simp
  qed
  moreover have "c \<le> t'" if "(m(q \<mapsto> w)) q' = Some (v, c)" for q' v c
    using that agrees_time[OF m(1), of q' v c] w by (cases "q' = q") auto
  moreover have "distinct (map fst ((key_of q, w) # L'))" using m(3,4) by simp
  ultimately show ?thesis unfolding agrees_def by (metis fun_upd_same set_ConsD fst_conv snd_conv)
qed

lemma complete_front:
  assumes "complete t m L" "agrees t m L" "t \<le> t'" "fst ` set L \<subseteq> insert (key_of q) (fst ` set L')"
  shows "complete t' (m(q \<mapsto> w)) ((key_of q, w) # L')"
  unfolding complete_def
proof (intro allI impI)
  fix q' v c assume v: "(m(q \<mapsto> w)) q' = Some (v, c)"
  show "key_of q' \<in> fst ` set ((key_of q, w) # L') \<or> expired v c t'"
  proof (cases "q' = q")
    case False
    with v have "key_of q' \<in> fst ` set L \<or> expired v c t'"
      using complete_later[OF assms(1-3)] unfolding complete_def by (metis fun_upd_other)
    moreover have "key_of q' \<in> fst ` set L'" if "key_of q' \<in> fst ` set L"
      using assms(4) that False by (metis insertE key_of_inj subsetD)
    ultimately show ?thesis by auto
  qed simp
qed

section \<open>One call\<close>

lemma put_agrees:
  assumes "agrees t m L" "t \<le> now"
  shows "agrees now (if cv_rrs v = None then m else m(q \<mapsto> (v, now))) (snd (lru_put cap now (key_of q) v L))"
proof (cases "cv_rrs v")
  case None
  then show ?thesis using agrees_sub[OF assms(1) _ order_refl assms(2)] assms(1) by (simp add: lru_put_def agrees_def)
next
  case (Some rs)
  have d: "distinct (map fst L)" using assms(1) by (simp add: agrees_def)
  let ?L = "if key_of q \<in> fst ` set L then drop_key (key_of q) L else if cap \<le> int (length L) then butlast L else L"
  have "set ?L \<subseteq> set L" by (auto simp: drop_key_set dest: in_set_butlastD)
  moreover have "distinct (map fst ?L)" using d by (simp add: drop_key_distinct butlast_distinct)
  moreover have "key_of q \<notin> fst ` set ?L" by (auto simp: drop_key_set dest: in_set_butlastD)
  ultimately have "agrees now (m(q \<mapsto> (v, now))) ((key_of q, v, now) # ?L)"
    by (rule agrees_front[OF assms(1)]) (simp_all add: assms(2))
  then show ?thesis using Some by (simp add: lru_put_def)
qed

lemma get_agrees:
  assumes a: "agrees t m L" "t \<le> now"
  shows "agrees now m (snd (snd (lru_get now (key_of q) L)))"
proof (cases "map_of L (key_of q)")
  case None
  then show ?thesis using agrees_sub[OF a(1) _ order_refl a(2)] a(1) by (simp add: lru_get_def agrees_def)
next
  case (Some w)
  have d: "distinct (map fst (drop_key (key_of q) L))" using a(1) by (simp add: agrees_def drop_key_distinct)
  have mq: "m q = Some w" using Some agrees_lookup[OF a(1)] by (simp split: if_splits)
  then have "snd w \<le> now" using agrees_time[OF a(1), of q "fst w" "snd w"] a(2) by simp
  then have "agrees now (m(q \<mapsto> w)) ((key_of q, w) # drop_key (key_of q) L)"
    using d a by (intro agrees_front[OF a(1)]) (auto simp: drop_key_set)
  then have "agrees now m ((key_of q, w) # drop_key (key_of q) L)" using mq by (simp add: fun_upd_idem)
  moreover have "agrees now m (drop_key (key_of q) L)" by (rule agrees_sub[OF a(1) d _ a(2)]) (auto simp: drop_key_set)
  ultimately show ?thesis using Some by (cases w) (simp add: lru_get_def)
qed

lemma get_answer:
  assumes "agrees t m L"
  shows "(fst (lru_get now (key_of q) L), fst (snd (lru_get now (key_of q) L))) =
    (if key_of q \<in> fst ` set L then fresh_answer m now q else (1, None))"
  using agrees_lookup[OF assms, of q]
  by (auto simp: lru_get_def fresh_answer_def map_of_eq_None_iff split: option.splits)

lemma step_agrees:
  assumes "agrees t m L" "between t t' x"
  shows "agrees t' (remember x m) (snd (lru_step cap x L))"
proof -
  have later: "agrees t' m' L'" if "agrees now m' L'" "now \<le> t'" for now m' L'
    using that agrees_sub[OF that(1) _ order_refl that(2)] by (simp add: agrees_def)
  show ?thesis
  proof (cases x)
    case (CachePut now name qt qc v)
    then show ?thesis using later[OF put_agrees[OF assms(1)]] assms(2) by (simp add: split_beta)
  next
    case (CacheGet now name qt qc)
    then show ?thesis using later[OF get_agrees[OF assms(1)]] assms(2) by (simp add: split_beta)
  next
    case (CachePrune clock)
    have "distinct (map fst (lru_prune clock 0 L))" using assms(1) by (simp add: agrees_def lru_prune_distinct)
    with CachePrune show ?thesis using agrees_sub[OF assms(1) _ lru_prune_subset] assms(2) by simp
  qed
qed

lemma step_same_or_miss:
  assumes "agrees t m L"
  shows "same_or_miss (fst (lru_step cap x L)) (ideal_answer x m)"
proof (cases x)
  case (CacheGet now name qt qc)
  then show ?thesis using get_answer[OF assms, of now "(name, qt, qc)"]
    by (auto simp: same_or_miss_def fresh_answer_def split_beta split: option.splits)
qed (auto simp: same_or_miss_def lru_put_def)

section \<open>One call when there is room\<close>

lemma no_eviction:
  assumes "agrees t m L" "fst ` set L \<subseteq> key_of ` Q" "q \<in> Q" "finite Q" "int (card Q) \<le> cap" "key_of q \<notin> fst ` set L"
  shows "\<not> cap \<le> int (length L)"
proof -
  have "length L = card (fst ` set L)" using assms(1) by (metis agrees_def distinct_card length_map list.set_map)
  moreover have "card (insert (key_of q) (fst ` set L)) \<le> card (key_of ` Q)"
    using assms(2-4) by (intro card_mono) auto
  moreover have "card (key_of ` Q) \<le> card Q" using assms(4) by (rule card_image_le)
  ultimately show ?thesis using assms(5,6) by simp
qed

lemma lru_prune_gone:
  "p \<in> set L \<Longrightarrow> p \<notin> set (lru_prune clock i L) \<Longrightarrow> \<exists>j. expired (fst (snd p)) (snd (snd p)) (clock j)"
  by (induction clock i L rule: lru_prune.induct) (auto split: if_splits)

lemma prune_complete:
  assumes "agrees t m L" "complete t m L" "between t t' (CachePrune clock)"
  shows "complete t' m (lru_prune clock 0 L)"
  unfolding complete_def
proof (intro allI impI)
  fix q v c assume q: "m q = Some (v, c)"
  have time: "c \<le> t" "t \<le> t'" "\<And>j. t \<le> clock j \<and> clock j \<le> t'"
    using agrees_time[OF assms(1) q] assms(3) by auto
  show "key_of q \<in> fst ` set (lru_prune clock 0 L) \<or> expired v c t'"
  proof (cases "key_of q \<in> fst ` set L")
    case True
    then have p: "(key_of q, v, c) \<in> set L"
      using agrees_lookup[OF assms(1), of q] q by (auto dest: map_of_SomeD)
    show ?thesis
    proof (cases "(key_of q, v, c) \<in> set (lru_prune clock 0 L)")
      case False
      then obtain j where "expired v c (clock j)" using lru_prune_gone[OF p] by auto
      then show ?thesis using expired_later time(1) time(3)[of j] by (metis order_trans)
    qed force
  next
    case False
    then show ?thesis using complete_later[OF assms(2,1) time(2)] q unfolding complete_def by blast
  qed
qed

lemma put_complete:
  assumes a: "agrees t m L" "complete t m L" "t \<le> now"
    and q: "fst ` set L \<subseteq> key_of ` Q" "q \<in> Q" "finite Q" "int (card Q) \<le> cap"
  shows "complete now (if cv_rrs v = None then m else m(q \<mapsto> (v, now))) (snd (lru_put cap now (key_of q) v L))"
    "fst ` set (snd (lru_put cap now (key_of q) v L)) \<subseteq> key_of ` Q"
proof -
  let ?L = "if key_of q \<in> fst ` set L then drop_key (key_of q) L else L"
  have put: "snd (lru_put cap now (key_of q) v L) = (if cv_rrs v = None then L else (key_of q, v, now) # ?L)"
    using no_eviction[OF a(1) q] by (simp add: lru_put_def)
  have "fst ` set L \<subseteq> insert (key_of q) (fst ` set ?L)" by (auto simp: drop_key_set)
  from complete_front[OF a(2,1,3) this] complete_later[OF a(2,1,3)]
  show "complete now (if cv_rrs v = None then m else m(q \<mapsto> (v, now))) (snd (lru_put cap now (key_of q) v L))"
    unfolding put by simp
  show "fst ` set (snd (lru_put cap now (key_of q) v L)) \<subseteq> key_of ` Q"
    unfolding put using q(1,2) by (auto simp: drop_key_set)
qed

lemma get_complete:
  assumes a: "agrees t m L" "complete t m L" "t \<le> now"
  shows "complete now m (snd (snd (lru_get now (key_of q) L)))"
    "fst ` set (snd (snd (lru_get now (key_of q) L))) \<subseteq> fst ` set L"
    "(fst (lru_get now (key_of q) L), fst (snd (lru_get now (key_of q) L))) = fresh_answer m now q"
proof -
  have later: "complete now m L" by (rule complete_later[OF a(2,1,3)])
  have look: "map_of L (key_of q) = (if key_of q \<in> fst ` set L then m q else None)" by (rule agrees_lookup[OF a(1)])
  show "fst ` set (snd (snd (lru_get now (key_of q) L))) \<subseteq> fst ` set L"
    using look by (auto simp: lru_get_def drop_key_set split: option.splits if_splits)
  show "(fst (lru_get now (key_of q) L), fst (snd (lru_get now (key_of q) L))) = fresh_answer m now q"
    using get_answer[OF a(1), of now q] complete_gone[OF later, of q]
    by (cases "m q") (auto simp: fresh_answer_def split: if_splits)
  have keep: "key_of p \<in> fst ` set (drop_key (key_of q) L)" if "key_of p \<in> fst ` set L" "p \<noteq> q" for p
    using that by (force simp: drop_key_set)
  show "complete now m (snd (snd (lru_get now (key_of q) L)))"
    unfolding complete_def
  proof (intro allI impI)
    fix p v c assume p: "m p = Some (v, c)"
    note gone = complete_gone[OF later p]
    show "key_of p \<in> fst ` set (snd (snd (lru_get now (key_of q) L))) \<or> expired v c now"
    proof (cases "map_of L (key_of q)")
      case None
      then show ?thesis using gone by (auto simp: lru_get_def)
    next
      case (Some w)
      then have w: "m q = Some w" using look by (simp split: if_splits)
      show ?thesis
      proof (cases "p = q")
        case True
        then show ?thesis using Some w p by (simp add: lru_get_def)
      next
        case False
        then have "key_of p \<in> fst ` set (drop_key (key_of q) L) \<or> expired v c now" using keep[of p] gone by blast
        then show ?thesis using Some by (cases w) (auto simp: lru_get_def)
      qed
    qed
  qed
qed

lemma step_complete:
  assumes a: "agrees t m L" "complete t m L" "between t t' x"
    and q: "fst ` set L \<subseteq> key_of ` Q" "put_question x \<subseteq> Q" "finite Q" "int (card Q) \<le> cap"
  shows "complete t' (remember x m) (snd (lru_step cap x L))"
    "fst ` set (snd (lru_step cap x L)) \<subseteq> key_of ` Q"
    "fst (lru_step cap x L) = ideal_answer x m"
proof -
  have "complete t' (remember x m) (snd (lru_step cap x L)) \<and> fst ` set (snd (lru_step cap x L)) \<subseteq> key_of ` Q \<and>
    fst (lru_step cap x L) = ideal_answer x m"
  proof (cases x)
    case (CachePut now name qt qc v)
    have now: "t \<le> now" "now \<le> t'" "(name, qt, qc) \<in> Q" using a(3) q(2) by (simp_all add: CachePut)
    note P = put_complete[OF a(1,2) now(1) q(1) now(3) q(3,4), of v] and A = put_agrees[OF a(1) now(1), where v = v and cap = cap]
    show ?thesis using complete_later[OF P(1) A now(2)] P(2)
      by (simp add: CachePut split_beta) (simp add: lru_put_def)
  next
    case (CacheGet now name qt qc)
    have now: "t \<le> now" "now \<le> t'" using a(3) by (simp_all add: CacheGet)
    note G = get_complete[OF a(1,2) now(1), of "(name, qt, qc)"] and A = get_agrees[OF a(1) now(1)]
    show ?thesis using complete_later[OF G(1) A now(2)] G(2,3) q(1)
      by (auto simp: CacheGet split_beta)
  next
    case (CachePrune clock)
    have "fst ` set (lru_prune clock 0 L) \<subseteq> fst ` set L" using lru_prune_subset by blast
    with prune_complete[OF a(1,2)] a(3) q(1) show ?thesis by (auto simp: CachePrune)
  qed
  then show "complete t' (remember x m) (snd (lru_step cap x L))"
    "fst ` set (snd (lru_step cap x L)) \<subseteq> key_of ` Q" "fst (lru_step cap x L) = ideal_answer x m" by blast+
qed

section \<open>Sequences of calls\<close>

lemma run_same_or_miss:
  "agrees t m L \<Longrightarrow> in_order t xs \<Longrightarrow> list_all2 same_or_miss (fst (lru_run cap xs L)) (ideal_run xs m)"
proof (induction xs arbitrary: t m L)
  case (Cons x xs)
  obtain t' where t': "between t t' x" "in_order t' xs" using Cons.prems(2) by auto
  from Cons.IH[OF step_agrees[OF Cons.prems(1) t'(1)] t'(2)] step_same_or_miss[OF Cons.prems(1), of cap x]
  show ?case by (simp add: split_beta)
qed simp

lemma run_complete:
  assumes "finite Q" "int (card Q) \<le> cap"
  shows "agrees t m L \<Longrightarrow> complete t m L \<Longrightarrow> in_order t xs \<Longrightarrow> fst ` set L \<subseteq> key_of ` Q \<Longrightarrow> questions_put xs \<subseteq> Q \<Longrightarrow>
    fst (lru_run cap xs L) = ideal_run xs m"
proof (induction xs arbitrary: t m L)
  case (Cons x xs)
  obtain t' where t': "between t t' x" "in_order t' xs" using Cons.prems(3) by auto
  have Q: "put_question x \<subseteq> Q" "questions_put xs \<subseteq> Q" using Cons.prems(5) by (auto simp: questions_put_def)
  note S = step_complete[OF Cons.prems(1,2) t'(1) Cons.prems(4) Q(1) assms]
  from Cons.IH[OF step_agrees[OF Cons.prems(1) t'(1)] S(1) t'(2) S(2) Q(2)] S(3)
  show ?case by (simp add: split_beta)
qed simp

lemma questions_put_finite: "finite (questions_put xs)"
proof -
  have "finite (put_question x)" for x by (cases x) simp_all
  then show ?thesis by (simp add: questions_put_def)
qed

lemma start_agrees: "agrees t Map.empty []" "complete t Map.empty []"
  by (simp_all add: agrees_def complete_def)

text \<open>The calls that are not the thread's, and their results.\<close>

fun is_prune :: "CacheCall \<Rightarrow> bool" where
  "is_prune (CachePrune clock) \<longleftrightarrow> True"
| "is_prune _ \<longleftrightarrow> False"

definition other_calls :: "CacheCall list \<Rightarrow> CacheCall list" where
  "other_calls xs = filter (\<lambda>x. \<not> is_prune x) xs"

definition other_results :: "CacheCall list \<Rightarrow> 'a list \<Rightarrow> 'a list" where
  "other_results xs rs = map snd (filter (\<lambda>p. \<not> is_prune (fst p)) (zip xs rs))"

lemma ideal_run_other: "other_results xs (ideal_run xs m) = ideal_run (other_calls xs) m"
proof (induction xs arbitrary: m)
  case (Cons x xs)
  then show ?case by (cases x) (simp_all add: other_results_def other_calls_def)
qed (simp add: other_results_def other_calls_def)

lemma other_calls_same:
  assumes "other_calls xs = other_calls ys"
  shows "questions_put ys = questions_put xs" "\<forall>x \<in> set xs. call_ok x \<Longrightarrow> \<forall>y \<in> set ys. call_ok y"
proof -
  have q: "put_question x = {}" "call_ok x" if "is_prune x" for x using that by (cases x; simp)+
  have m: "x \<in> set zs \<and> \<not> is_prune x \<longleftrightarrow> x \<in> set (other_calls zs)" for x zs by (simp add: other_calls_def)
  have "questions_put zs = (\<Union>x \<in> set (other_calls zs). put_question x)" for zs
    using q(1) by (fastforce simp: questions_put_def other_calls_def)
  then show "questions_put ys = questions_put xs" using assms by simp
  show "\<forall>y \<in> set ys. call_ok y" if "\<forall>x \<in> set xs. call_ok x" using q(2) m assms that by metis
qed

lemma fresh_run:
  assumes "\<forall>x \<in> set xs. call_ok x" "in_order t xs" "dns_cache_init None = Some (0, Some c)"
  obtains c' where "cache_run xs (Some c) = Some (fst (lru_run 1024 xs []), Some c')"
    "list_all2 same_or_miss (fst (lru_run 1024 xs [])) (ideal_run xs Map.empty)"
    "card (questions_put xs) \<le> 1024 \<Longrightarrow> fst (lru_run 1024 xs []) = ideal_run xs Map.empty"
proof -
  have "cache_abs 1024 c []" using init_abs assms(3) unfolding DNS_CACHE_DEFAULT_CAPACITY_def by auto
  then obtain c' where c': "cache_run xs (Some c) = Some (fst (lru_run 1024 xs []), Some c')"
    using run_refines[OF _ assms(1)] by blast
  from that[OF c' run_same_or_miss[OF start_agrees(1) assms(2)]
      run_complete[OF questions_put_finite _ start_agrees assms(2)]] show thesis by simp
qed

section \<open>Properties\<close>


definition calls_sample :: "CacheCall list" where
  "calls_sample = [CachePut 0 [97] 1 1 value1, CachePrune (\<lambda>i. 5), CacheGet 59999 [97] 1 1, CachePrune (\<lambda>i. 59999 + int (min i 1)),
     CacheGet 60000 [97] 1 1]"

lemma calls_sample_order: "in_order 0 calls_sample"
proof -
  have "between 0 0 (CachePut 0 [97] 1 1 value1)" "between 0 5 (CachePrune (\<lambda>i. 5))"
    "between 5 59999 (CacheGet 59999 [97] 1 1)" "between 59999 60000 (CachePrune (\<lambda>i. 59999 + int (min i 1)))"
    "between 60000 60000 (CacheGet 60000 [97] 1 1)" by simp_all
  then show ?thesis unfolding calls_sample_def in_order.simps by blast
qed


text \<open>
  C25. The thread that prunes the cache cannot be observed: two sequences with the same puts and
  gets, but with any prunes in any places between them, give the same results for these puts and
  gets, if they are for at most 1024 different questions.
\<close>

theorem prune_unobservable:
  assumes "\<forall>x \<in> set xs. call_ok x" and "in_order t xs" and "in_order t ys"
    and "other_calls xs = other_calls ys" and "card (questions_put xs) \<le> 1024"
  shows "\<exists>c rs c1 ss c2. dns_cache_init None = Some (0, Some c) \<and>
    cache_run xs (Some c) = Some (rs, Some c1) \<and> cache_run ys (Some c) = Some (ss, Some c2) \<and>
    other_results xs rs = other_results ys ss"
proof -
  note S = other_calls_same[OF assms(4)]
  obtain c where c: "dns_cache_init None = Some (0, Some c)" using init_abs by blast
  obtain c1 where "cache_run xs (Some c) = Some (ideal_run xs Map.empty, Some c1)"
    using fresh_run[OF assms(1,2) c] assms(5) by metis
  moreover obtain c2 where "cache_run ys (Some c) = Some (ideal_run ys Map.empty, Some c2)"
    using fresh_run[OF S(2)[OF assms(1)] assms(3) c] S(1) assms(5) by metis
  ultimately show ?thesis using c assms(4) by (auto simp: ideal_run_other)
qed

theorem prune_unobservable_witness:
  "\<exists>c rs c1 ss c2. dns_cache_init None = Some (0, Some c) \<and> cache_run calls_sample (Some c) = Some (rs, Some c1) \<and>
    cache_run (other_calls calls_sample) (Some c) = Some (ss, Some c2) \<and> other_results calls_sample rs = ss"
proof -
  let ?ys = "[CachePut 0 [97] 1 1 value1, CacheGet 59999 [97] 1 1, CacheGet 60000 [97] 1 1]"
  have ys: "other_calls calls_sample = ?ys" by (simp add: other_calls_def calls_sample_def)
  have "between 0 0 (CachePut 0 [97] 1 1 value1)" "between 0 59999 (CacheGet 59999 [97] 1 1)"
    "between 59999 60000 (CacheGet 60000 [97] 1 1)" by simp_all
  then have "in_order 0 ?ys" unfolding in_order.simps by blast
  moreover have "card (questions_put calls_sample) \<le> 1024" by (simp add: questions_put_def calls_sample_def)
  moreover have "\<forall>x \<in> set calls_sample. call_ok x" by (simp add: calls_sample_def value1_ok)
  moreover have "other_calls calls_sample = other_calls ?ys" by (simp add: ys) (simp add: other_calls_def)
  ultimately obtain c rs c1 ss c2 where r: "dns_cache_init None = Some (0, Some c)"
    "cache_run calls_sample (Some c) = Some (rs, Some c1)" "cache_run ?ys (Some c) = Some (ss, Some c2)"
    "other_results calls_sample rs = other_results ?ys ss"
    using prune_unobservable[OF _ calls_sample_order] by blast
  have "length ss = length ?ys" using r(3) by (auto simp: bind_eq_Some_conv simp del: dns_cache_put.simps dns_cache_get.simps)
  then have "other_results ?ys ss = ss" by (auto simp: other_results_def length_Suc_conv)
  with r ys show ?thesis by metis
qed

end
