(* ===== verification/Dns_Resolver.thy ===== *)
theory Dns_Resolver
  imports Dns_Cache
begin

text \<open>
  The decisions of the resolver in \<^verbatim>\<open>src/dns/dns_resolver.c\<close>: which queries are
  answered locally and how, the block list of names whose cached address is zero, and the
  packets relayed to the upstream servers and back. The operations take the cache and return
  it; \<open>clock i\<close> is the time of the \<open>i\<close>-th look-up in the cache, and \<open>use_cache\<close> the
  setting of that name. Log lines are left out.
\<close>

section \<open>Responses\<close>

datatype PacketDirection = UPSTREAM | CLIENT

definition setRcode :: "DnsPacket \<Rightarrow> Rcode \<Rightarrow> DnsPacket" where
  "setRcode p rcode =
     (let p1 = p\<lparr>header := (header p)\<lparr>flags := flags (header p) AND 0xfff0\<rparr>\<rparr>
      in p1\<lparr>header := (header p1)\<lparr>flags := flags (header p1) OR (0x000f AND rcode_num rcode)\<rparr>\<rparr>)"

definition make_response_empty :: "DnsPacket \<Rightarrow> DnsPacket" where
  "make_response_empty query =
     (let r1 = pack_create\<lparr>header := header query\<rparr>;
          r2 = r1\<lparr>header := (header r1)\<lparr>flags := RA_SET (flags (header r1))\<rparr>\<rparr>;
          r3 = r2\<lparr>header := (header r2)\<lparr>flags := QR_SET (flags (header r2))\<rparr>\<rparr>;
          r4 = setRcode r3 RCODE_NOERROR;
          r5 = r4\<lparr>header := (header r4)\<lparr>answer_RRs := 0, additional_RRs := 0, authority_RRs := 0\<rparr>\<rparr>
      in r5\<lparr>questions := questions_clone (questions query)\<rparr>)"

definition make_response_fail :: "DnsPacket \<Rightarrow> Rcode \<Rightarrow> DnsPacket" where
  "make_response_fail query rcode = setRcode (make_response_empty query) rcode"

definition make_response_status :: "DnsPacket \<Rightarrow> DnsPacket" where
  "make_response_status query = make_response_fail query RCODE_NOTIMP"

definition pack_make_inner_error :: "DnsPacket \<Rightarrow> DnsPacket" where
  "pack_make_inner_error query = make_response_fail query RCODE_SERVFAIL"

definition pack_make_std_response_local :: "DnsPacket \<Rightarrow> CacheValue \<Rightarrow> DnsPacket option" where
  "pack_make_std_response_local query v =
     (let pac = make_response_empty query;
          pac1 = pac\<lparr>header := (header pac)\<lparr>answer_RRs := cv_answer v, authority_RRs := cv_authority v,
            additional_RRs := cv_additional v\<rparr>\<rparr>
      in do { rs \<leftarrow> rrs_clone (rrs_or_nil v); Some (pac1\<lparr>rrs := rs\<rparr>) })"

section \<open>The block list\<close>

text \<open>The loop \<open>while (len > 0 && mem[--len] == 0)\<close>; the result is the final \<open>len\<close>.\<close>

fun memallz_loop :: "byte list \<Rightarrow> nat \<Rightarrow> nat option" where
  "memallz_loop mem 0 = Some 0"
| "memallz_loop mem (Suc n) = do {
     b \<leftarrow> arr_get mem (int n);
     if b = 0 then memallz_loop mem n else Some n }"

definition memallz :: "byte list \<Rightarrow> nat \<Rightarrow> bool option" where
  "memallz mem len = do { n \<leftarrow> memallz_loop mem len; Some (n = 0) }"

text \<open>
  The outer option is the access beyond the terminator of a name whose first length byte
  exceeds it, the inner one the null pointer.
\<close>

fun get_parent_qname :: "cstr \<Rightarrow> cstr option option" where
  "get_parent_qname [] = Some None"
| "get_parent_qname (b # bs) =
     (if b AND 0xC0 = 0xC0 then Some None
      else if unat b > length bs then None
      else if unat b = length bs then Some None
      else Some (Some (drop (unat b) bs)))"

definition zero_address :: "ResourceRecord \<Rightarrow> bool option" where
  "zero_address rr =
     (if rr_type rr = QTYPE_A \<or> rr_type rr = QTYPE_AAAA
      then memallz (rdata rr) (unat (rdata_length rr)) else Some False)"

fun any_zero_address :: "ResourceRecord list \<Rightarrow> bool option" where
  "any_zero_address [] = Some False"
| "any_zero_address (r # rs) = do {
     z \<leftarrow> zero_address r;
     if z then Some True else any_zero_address rs }"

partial_function (option) pre_loop ::
    "(nat \<Rightarrow> ms) \<Rightarrow> nat \<Rightarrow> uint16_t \<Rightarrow> uint16_t \<Rightarrow> cstr \<Rightarrow> DnsCache option
      \<Rightarrow> (Rcode \<times> nat \<times> DnsCache option) option" where
  "pre_loop clock i qt qc name c = do {
     (r, v, c1) \<leftarrow> dns_cache_get (clock i) (Some name) qt qc c;
     blocked \<leftarrow> (if r = 0 then do { value \<leftarrow> v; any_zero_address (rrs_or_nil value) } else Some False);
     if blocked then Some (RCODE_NXDOMAIN, Suc i, c1)
     else do {
       parent \<leftarrow> get_parent_qname name;
       (case parent of
          None \<Rightarrow> Some (RCODE_NOERROR, Suc i, c1)
        | Some p \<Rightarrow> pre_loop clock (Suc i) qt qc p c1) } }"

fun first_question :: "SectionQuestion list \<Rightarrow> SectionQuestion option" where
  "first_question [] = None"
| "first_question (q # qs) = Some q"

definition query_pre_validate :: "(nat \<Rightarrow> ms) \<Rightarrow> DnsPacket \<Rightarrow> DnsCache option
    \<Rightarrow> (Rcode \<times> nat \<times> DnsCache option) option" where
  "query_pre_validate clock p c =
     (case first_question (questions p) of
        None \<Rightarrow> Some (RCODE_NOERROR, 0, c)
      | Some q \<Rightarrow> pre_loop clock 0 (qtype q) (qclass q) (qname q) c)"

text \<open>The loop over the first \<open>n\<close> records, which must exist.\<close>

fun post_loop :: "nat \<Rightarrow> ResourceRecord list \<Rightarrow> Rcode option" where
  "post_loop 0 rs = Some RCODE_NOERROR"
| "post_loop (Suc n) [] = None"
| "post_loop (Suc n) (r # rs) = do {
     z \<leftarrow> zero_address r;
     if z then Some RCODE_NXDOMAIN else post_loop n rs }"

definition query_post_validate :: "DnsPacket \<Rightarrow> Rcode option" where
  "query_post_validate response = post_loop (unat (answer_RRs (header response))) (rrs response)"

section \<open>Local answers and relays\<close>

definition pack_try_response_local :: "(nat \<Rightarrow> ms) \<Rightarrow> DnsPacket \<Rightarrow> DnsCache option
    \<Rightarrow> (PacketDirection \<times> DnsPacket option \<times> DnsCache option) option" where
  "pack_try_response_local clock query c =
     (let op = OPCODE_GET (flags (header query)) in
      if op = opcode_num QUERY then
        (if qcount (header query) > 1 then Some (CLIENT, Some (make_response_fail query RCODE_NOTIMP), c)
         else if qcount (header query) = 0 then Some (CLIENT, Some (make_response_empty query), c)
         else do {
           (code, i, c1) \<leftarrow> query_pre_validate clock query c;
           if code \<noteq> RCODE_NOERROR then Some (CLIENT, Some (make_response_fail query code), c1)
           else do {
             q \<leftarrow> first_question (questions query);
             (miss, v, c2) \<leftarrow> dns_cache_get (clock i) (Some (qname q)) (qtype q) (qclass q) c1;
             if miss \<noteq> 0 then
               (if RD_GET (flags (header query)) \<noteq> 0 then Some (UPSTREAM, None, c2)
                else Some (CLIENT, Some (make_response_empty query), c2))
             else do {
               value \<leftarrow> v;
               response \<leftarrow> pack_make_std_response_local query value;
               code2 \<leftarrow> query_post_validate response;
               Some (CLIENT, Some (if code2 \<noteq> RCODE_NOERROR then make_response_fail query code2
                                   else response), c2) } } })
      else if op = opcode_num IQUERY then Some (CLIENT, Some (make_response_fail query RCODE_NOTIMP), c)
      else if op = opcode_num STATUS then Some (CLIENT, Some (make_response_status query), c)
      else Some (CLIENT, Some (make_response_empty query), c))"

definition pack_make_query_relay :: "DnsPacket \<Rightarrow> uint16_t \<Rightarrow> DnsPacket option" where
  "pack_make_query_relay query relay_id = do {
     p \<leftarrow> packet_clone query;
     Some (p\<lparr>header := (header p)\<lparr>hdr_id := relay_id\<rparr>\<rparr>) }"

definition pack_make_response_relay :: "bool \<Rightarrow> ms \<Rightarrow> DnsPacket \<Rightarrow> uint16_t \<Rightarrow> DnsCache option
    \<Rightarrow> (DnsPacket \<times> DnsCache option) option" where
  "pack_make_response_relay use_cache now recv client_id c = do {
     p \<leftarrow> packet_clone recv;
     let send = p\<lparr>header := (header p)\<lparr>hdr_id := client_id\<rparr>\<rparr>;
     if \<not> use_cache then Some (send, c)
     else do {
       q \<leftarrow> first_question (questions recv);
       (r, c') \<leftarrow> dns_cache_put now (Some (qname q)) (qtype q) (qclass q)
         \<lparr>cv_answer = answer_RRs (header send), cv_authority = authority_RRs (header send),
          cv_additional = additional_RRs (header send), cv_rrs = Some (rrs recv)\<rparr> c;
       Some (send, c') } }"

section \<open>Headers of responses\<close>

lemma bit_0xfff0: "bit (0xfff0 :: uint16_t) n \<longleftrightarrow> 4 \<le> n \<and> n < 16"
proof -
  have "(0xfff0 :: uint16_t) = NOT (mask 4)" by (simp add: mask_eq_exp_minus_1)
  then show ?thesis by (simp only: bit_not_iff bit_mask_iff possible_bit_word) auto
qed

lemma bit_pow2: "bit ((2 :: uint16_t) ^ k) n \<longleftrightarrow> n = k \<and> k < 16"
  by (simp add: bit_exp_iff) auto

lemma rcode_masked: "0x000f AND rcode_num rc = rcode_num rc"
  by (cases rc) simp_all

lemma bit_rcode: "bit (rcode_num rc) n \<Longrightarrow> n < 4"
proof -
  assume "bit (rcode_num rc) n"
  then have "bit (0x000f AND rcode_num rc) n" by (simp only: rcode_masked)
  moreover have "(0x000f :: uint16_t) = mask 4" by (simp add: mask_eq_exp_minus_1)
  ultimately show ?thesis by (simp only: bit_and_iff bit_mask_iff)
qed

lemma response_flags:
  "flags (header (make_response_fail query rc)) =
     (((flags (header query) OR 0x0080 OR 0x8000) AND 0xfff0) AND 0xfff0) OR rcode_num rc"
  by (simp add: make_response_fail_def make_response_empty_def setRcode_def RA_SET_def QR_SET_def
      rcode_masked Let_def or.assoc)

lemma response_bits:
  "bit (flags (header (make_response_fail query rc))) n \<longleftrightarrow>
     n = 15 \<or> n = 7 \<or> (if n < 4 then bit (rcode_num rc) n else bit (flags (header query)) n)"
proof -
  have p: "(0x0080 :: uint16_t) = 2 ^ 7" "(0x8000 :: uint16_t) = 2 ^ 15" by simp_all
  show ?thesis
    unfolding response_flags p bit_or_iff bit_and_iff bit_0xfff0 bit_pow2
    using bit_rcode[of rc n] bit_imp_le_length[of "flags (header query)" n] by auto
qed

lemma empty_is_noerror: "make_response_empty query = make_response_fail query RCODE_NOERROR"
proof -
  have z: "(0x000f :: uint16_t) AND 0 = 0" by simp
  have i: "(f AND 0xfff0) AND 0xfff0 = f AND (0xfff0 :: uint16_t)" for f by (simp add: and.assoc)
  show ?thesis
    by (simp add: make_response_fail_def make_response_empty_def setRcode_def Let_def i)
qed

lemma fail_fields [simp]:
  "hdr_id (header (make_response_fail query rc)) = hdr_id (header query)"
  "qcount (header (make_response_fail query rc)) = qcount (header query)"
  "answer_RRs (header (make_response_fail query rc)) = 0"
  "authority_RRs (header (make_response_fail query rc)) = 0"
  "additional_RRs (header (make_response_fail query rc)) = 0"
  "questions (make_response_fail query rc) = questions query"
  "rrs (make_response_fail query rc) = []"
  by (simp_all add: make_response_fail_def make_response_empty_def setRcode_def Let_def
      pack_create_def questions_clone_same)

section \<open>Zero addresses\<close>

lemma memallz_loop_spec:
  "n \<le> length mem \<Longrightarrow> \<exists>k. memallz_loop mem n = Some k \<and> (k = 0 \<longleftrightarrow> (\<forall>i. 1 \<le> i \<and> i < n \<longrightarrow> mem ! i = 0))"
proof (induction n)
  case (Suc n)
  have b: "arr_get mem (int n) = Some (mem ! n)" using Suc.prems by simp
  show ?case
  proof (cases "mem ! n = 0")
    case True
    with Suc obtain k where "memallz_loop mem n = Some k" "k = 0 \<longleftrightarrow> (\<forall>i. 1 \<le> i \<and> i < n \<longrightarrow> mem ! i = 0)"
      by auto
    then show ?thesis using b True by (auto simp: less_Suc_eq)
  next
    case False
    then show ?thesis using b by (cases n) auto
  qed
qed simp

lemma memallz_spec:
  "len \<le> length mem \<Longrightarrow> memallz mem len = Some (\<forall>i. 1 \<le> i \<and> i < len \<longrightarrow> mem ! i = 0)"
  using memallz_loop_spec[of len mem] by (auto simp: memallz_def)

text \<open>What the code takes for a zero address: every byte but the first is zero.\<close>

definition address_zero :: "ResourceRecord \<Rightarrow> bool" where
  "address_zero r \<longleftrightarrow> (rr_type r = QTYPE_A \<or> rr_type r = QTYPE_AAAA) \<and> (\<forall>b \<in> set (tl (rdata r)). b = 0)"

lemma zero_address_spec:
  assumes "unat (rdata_length r) = length (rdata r)"
  shows "zero_address r = Some (address_zero r)"
proof -
  have "(\<forall>i. 1 \<le> i \<and> i < length xs \<longrightarrow> xs ! i = 0) \<longleftrightarrow> (\<forall>b \<in> set (tl xs). b = 0)" for xs :: "byte list"
  proof (cases xs)
    case (Cons x ys)
    show ?thesis unfolding Cons by (force simp: all_set_conv_all_nth nth_Cons' )
  qed simp
  then show ?thesis using memallz_spec[of "length (rdata r)" "rdata r"] assms
    by (simp add: zero_address_def address_zero_def)
qed

lemma any_zero_spec:
  "\<forall>r \<in> set rs. unat (rdata_length r) = length (rdata r) \<Longrightarrow>
     any_zero_address rs = Some (\<exists>r \<in> set rs. address_zero r)"
  by (induction rs) (auto simp: zero_address_spec)

lemma post_loop_spec:
  "\<forall>r \<in> set rs. unat (rdata_length r) = length (rdata r) \<Longrightarrow> n \<le> length rs \<Longrightarrow>
     post_loop n rs = Some (if \<exists>r \<in> set (take n rs). address_zero r then RCODE_NXDOMAIN else RCODE_NOERROR)"
  by (induction n rs rule: post_loop.induct) (auto simp: zero_address_spec)

section \<open>Parents\<close>

text \<open>The names the block list is searched for: the name and its parents, without the root.\<close>

fun lineage :: "cstr list \<Rightarrow> cstr list" where
  "lineage [] = [[]]"
| "lineage [l] = [wire_name [l]]"
| "lineage (l # ls) = wire_name (l # ls) # lineage ls"

lemma parent_wire:
  assumes "wire_label l" "wire_labels ls"
  shows "get_parent_qname (wire_name (l # ls)) = Some (if ls = [] then None else Some (wire_name ls))"
  using label_len_small[OF assms(1)] by (cases ls) auto

section \<open>Look-ups that leave the live content alone\<close>

text \<open>The value of a key that has not expired.\<close>

definition live :: "ms \<Rightarrow> lru \<Rightarrow> cstr \<Rightarrow> CacheValue option" where
  "live now L k = (case map_of L k of None \<Rightarrow> None
     | Some (v, t) \<Rightarrow> if expired v t now then None else Some v)"

lemma map_of_drop_key: "map_of (drop_key k L) = (map_of L)(k := None)"
  by (induction L) (auto simp: drop_key_def fun_eq_iff)

lemma lru_get_live:
  "\<exists>L'. lru_get now k L = (case live now L k of None \<Rightarrow> (1, None, L') | Some v \<Rightarrow> (0, Some v, L')) \<and>
     live now L' = live now L \<and> set L' \<subseteq> set L"
proof -
  let ?L' = "snd (snd (lru_get now k L))"
  have "set (drop_key k L) \<subseteq> set L" by (auto simp: drop_key_def)
  then have "set ?L' \<subseteq> set L"
    by (auto simp: lru_get_def split: option.splits dest!: map_of_SomeD)
  moreover have "live now ?L' = live now L"
    by (auto simp: lru_get_def live_def map_of_drop_key fun_eq_iff split: option.splits)
  moreover have "lru_get now k L = (case live now L k of None \<Rightarrow> (1, None, ?L') | Some v \<Rightarrow> (0, Some v, ?L'))"
    by (auto simp: lru_get_def live_def split: option.splits)
  ultimately show ?thesis by blast
qed

lemma get_live:
  assumes "cache_abs cap c L"
  obtains c' L' where "dns_cache_get now (Some name) qt qc (Some c) =
      Some (case live now L (cache_key_create name qt qc) of
        None \<Rightarrow> (1, None, Some c') | Some v \<Rightarrow> (0, Some v, Some c'))"
    "cache_abs cap c' L'" "live now L' = live now L" "set L' \<subseteq> set L"
proof -
  obtain L' where L': "lru_get now (cache_key_create name qt qc) L =
      (case live now L (cache_key_create name qt qc) of None \<Rightarrow> (1, None, L') | Some v \<Rightarrow> (0, Some v, L'))"
    "live now L' = live now L" "set L' \<subseteq> set L" using lru_get_live by blast
  from get_refines[OF assms, of now name qt qc] obtain c' where
    "dns_cache_get now (Some name) qt qc (Some c) =
       Some (case live now L (cache_key_create name qt qc) of
         None \<Rightarrow> (1, None, Some c') | Some v \<Rightarrow> (0, Some v, Some c'))" "cache_abs cap c' L'"
    unfolding L'(1) by (auto split: option.splits simp del: dns_cache_get.simps)
  then show thesis using that L'(2,3) by blast
qed

lemma live_value_ok:
  assumes "cache_abs cap c L" "live now L k = Some v"
  shows "value_ok v" "\<exists>t. (k, v, t) \<in> set L" "rrs_clone (rrs_or_nil v) = Some (rrs_or_nil v)"
    "\<forall>r \<in> set (rrs_or_nil v). unat (rdata_length r) = length (rdata r)"
proof -
  obtain as where as: "cache_rep c as" "L = cache_list c as" using assms(1) by (auto simp: cache_abs_def)
  obtain t where t: "(k, v, t) \<in> set L"
    using assms(2) by (auto simp: live_def split: option.splits if_splits dest!: map_of_SomeD)
  then show "\<exists>t. (k, v, t) \<in> set L" by blast
  show ok: "value_ok v" using t as by (auto simp: cache_rep_def)
  then show r: "\<forall>r \<in> set (rrs_or_nil v). unat (rdata_length r) = length (rdata r)"
    by (auto simp: value_ok_def rrs_or_nil_def split: option.splits)
  show "rrs_clone (rrs_or_nil v) = Some (rrs_or_nil v)" by (rule rrs_clone_exact[OF r])
qed

text \<open>A cached value with a zero address blocks its name.\<close>

definition blocked_value :: "CacheValue \<Rightarrow> bool" where
  "blocked_value v \<longleftrightarrow> (\<exists>r \<in> set (rrs_or_nil v). address_zero r)"

definition blocked_name :: "ms \<Rightarrow> lru \<Rightarrow> uint16_t \<Rightarrow> uint16_t \<Rightarrow> cstr \<Rightarrow> bool" where
  "blocked_name now L qt qc name \<longleftrightarrow>
     (\<exists>v. live now L (cache_key_create name qt qc) = Some v \<and> blocked_value v)"

text \<open>One look-up of the block list.\<close>

lemma pre_loop_step:
  assumes abs: "cache_abs cap c L" and p: "get_parent_qname n = Some p"
  shows "\<exists>c' L'. pre_loop (\<lambda>_. now) i qt qc n (Some c) =
      (if blocked_name now L qt qc n then Some (RCODE_NXDOMAIN, Suc i, Some c')
       else case p of None \<Rightarrow> Some (RCODE_NOERROR, Suc i, Some c')
         | Some m \<Rightarrow> pre_loop (\<lambda>_. now) (Suc i) qt qc m (Some c')) \<and>
    cache_abs cap c' L' \<and> live now L' = live now L \<and> set L' \<subseteq> set L"
  using abs
proof (rule get_live[where now = now and name = n and qt = qt and qc = qc])
  fix c' L' assume c': "dns_cache_get now (Some n) qt qc (Some c) =
      Some (case live now L (cache_key_create n qt qc) of None \<Rightarrow> (1, None, Some c')
        | Some v \<Rightarrow> (0, Some v, Some c'))"
    "cache_abs cap c' L'" "live now L' = live now L" "set L' \<subseteq> set L"
  show ?thesis
  proof (cases "live now L (cache_key_create n qt qc)")
    case None
    then show ?thesis using c' p
      by (subst pre_loop.simps) (auto simp: blocked_name_def simp del: dns_cache_get.simps)
  next
    case (Some v)
    note z = any_zero_spec[OF live_value_ok(4)[OF abs Some]]
    show ?thesis using c' Some p
      by (subst pre_loop.simps)
         (auto simp: blocked_name_def blocked_value_def z simp del: dns_cache_get.simps)
  qed
qed

lemma pre_loop_rep:
  assumes "cache_abs cap c L" "wire_labels ls"
  shows "\<exists>i' c' L'. pre_loop (\<lambda>_. now) i qt qc (wire_name ls) (Some c) =
      Some (if \<exists>n \<in> set (lineage ls). blocked_name now L qt qc n then RCODE_NXDOMAIN else RCODE_NOERROR,
        i', Some c') \<and> cache_abs cap c' L' \<and> live now L' = live now L \<and> set L' \<subseteq> set L"
  using assms
proof (induction ls arbitrary: i c L rule: lineage.induct)
  case 1
  then show ?case using pre_loop_step[of cap c L "[]" None now i qt qc] by (auto split: if_splits)
next
  case (2 l)
  then have "get_parent_qname (wire_name [l]) = Some None" using parent_wire[of l "[]"] by simp
  from pre_loop_step[OF 2(1) this, of now i qt qc] show ?case
    by (auto simp del: wire_name.simps split: if_splits)
next
  case (3 l m ls)
  let ?n = "wire_name (l # m # ls)"
  have wl: "wire_labels (m # ls)" and p: "get_parent_qname ?n = Some (Some (wire_name (m # ls)))"
    using 3(3) parent_wire[of l "m # ls"] by simp_all
  obtain c' L' where c': "pre_loop (\<lambda>_. now) i qt qc ?n (Some c) =
      (if blocked_name now L qt qc ?n then Some (RCODE_NXDOMAIN, Suc i, Some c')
       else pre_loop (\<lambda>_. now) (Suc i) qt qc (wire_name (m # ls)) (Some c'))"
    "cache_abs cap c' L'" "live now L' = live now L" "set L' \<subseteq> set L"
    using pre_loop_step[OF 3(2) p, of now i qt qc] unfolding option.case by blast
  have same: "blocked_name now L' qt qc n = blocked_name now L qt qc n" for n
    by (simp add: blocked_name_def c'(3))
  show ?case
  proof (cases "blocked_name now L qt qc ?n")
    case True
    then show ?thesis using c' by (auto simp del: wire_name.simps)
  next
    case False
    have all: "(\<exists>n \<in> set (lineage (l # m # ls)). blocked_name now L qt qc n) =
        (\<exists>n \<in> set (lineage (m # ls)). blocked_name now L qt qc n)"
      using False by (simp del: wire_name.simps)
    from 3(1)[OF c'(2) wl, of "Suc i"] c'(1) False show ?thesis
      unfolding all same c'(3) using c'(4) by (metis (no_types, lifting) subset_trans)
  qed
qed

section \<open>Properties\<close>

text \<open>The local answer of a cached value: its records and counts under the query's header.\<close>

definition local_answer :: "DnsPacket \<Rightarrow> CacheValue \<Rightarrow> DnsPacket" where
  "local_answer query v =
     (let e = make_response_fail query RCODE_NOERROR
      in e\<lparr>header := (header e)\<lparr>answer_RRs := cv_answer v, authority_RRs := cv_authority v,
           additional_RRs := cv_additional v\<rparr>, rrs := rrs_or_nil v\<rparr>)"

lemma local_answer_make:
  assumes "rrs_clone (rrs_or_nil v) = Some (rrs_or_nil v)"
  shows "pack_make_std_response_local query v = Some (local_answer query v)"
  using assms by (simp add: pack_make_std_response_local_def local_answer_def empty_is_noerror Let_def)

text \<open>The answer to a well-formed standard query, over the live content of the cache.\<close>

definition local_decision :: "ms \<Rightarrow> lru \<Rightarrow> cstr list \<Rightarrow> DnsPacket \<Rightarrow> SectionQuestion \<Rightarrow> PacketDirection \<times> DnsPacket option" where
  "local_decision now L ls query q =
     (if \<exists>n \<in> set (lineage ls). blocked_name now L (qtype q) (qclass q) n
      then (CLIENT, Some (make_response_fail query RCODE_NXDOMAIN))
      else case live now L (cache_key_create (qname q) (qtype q) (qclass q)) of
          Some v \<Rightarrow> (CLIENT, Some (local_answer query v))
        | None \<Rightarrow> if bit (flags (header query)) 8 then (UPSTREAM, None)
                  else (CLIENT, Some (make_response_fail query RCODE_NOERROR)))"

lemma wire_name_in_lineage: "wire_name ls \<in> set (lineage ls)"
  by (induction ls rule: lineage.induct) auto

lemma RD_GET_bit: "RD_GET fl \<noteq> 0 \<longleftrightarrow> bit fl 8"
proof -
  have "RD_GET fl = of_bool (bit fl 8)"
    by (simp add: RD_GET_def and_one_eq mod_2_eq_odd bit_iff_odd_drop_bit)
  then show ?thesis by simp
qed

lemma try_response_lemma:
  assumes abs: "cache_abs cap c L" and counts: "\<forall>(k, v, t) \<in> set L. unat (cv_answer v) \<le> length (rrs_or_nil v)"
    and op: "OPCODE_GET (flags (header query)) = 0" and one: "qcount (header query) = 1" "questions query = [q]"
    and name: "qname q = wire_name ls" "wire_labels ls"
  shows "\<exists>c' L'. pack_try_response_local (\<lambda>_. now) query (Some c) =
      Some (fst (local_decision now L ls query q), snd (local_decision now L ls query q), Some c') \<and>
    cache_abs cap c' L' \<and> live now L' = live now L \<and> set L' \<subseteq> set L"
proof -
  let ?k = "cache_key_create (qname q) (qtype q) (qclass q)"
  let ?b = "\<exists>n \<in> set (lineage ls). blocked_name now L (qtype q) (qclass q) n"
  obtain i c1 L1 where pre: "query_pre_validate (\<lambda>_. now) query (Some c) =
      Some (if ?b then RCODE_NXDOMAIN else RCODE_NOERROR, i, Some c1)"
    "cache_abs cap c1 L1" "live now L1 = live now L" "set L1 \<subseteq> set L"
    using pre_loop_rep[OF abs name(2), of now 0 "qtype q" "qclass q"]
    by (auto simp: query_pre_validate_def one name(1))
  note run = pack_try_response_local_def[of "\<lambda>_. now" query "Some c"]
  show ?thesis
  proof (cases ?b)
    case True
    then have "pack_try_response_local (\<lambda>_. now) query (Some c) =
        Some (CLIENT, Some (make_response_fail query RCODE_NXDOMAIN), Some c1)"
      using pre(1) by (simp add: run op one(1))
    then show ?thesis using True pre by (auto simp: local_decision_def)
  next
    case False
    obtain c2 L2 where g: "dns_cache_get now (Some (qname q)) (qtype q) (qclass q) (Some c1) =
        Some (case live now L1 ?k of None \<Rightarrow> (1, None, Some c2) | Some v \<Rightarrow> (0, Some v, Some c2))"
      "cache_abs cap c2 L2" "live now L2 = live now L1" "set L2 \<subseteq> set L1"
      by (rule get_live[OF pre(2), where now = now and name = "qname q" and qt = "qtype q" and qc = "qclass q"])
    note get = g(1)[unfolded pre(3)] g(2) g(3)[unfolded pre(3)] subset_trans[OF g(4) pre(4)]
    show ?thesis
    proof (cases "live now L ?k")
      case None
      then have "pack_try_response_local (\<lambda>_. now) query (Some c) =
          Some (if bit (flags (header query)) 8 then (UPSTREAM, None, Some c2)
                else (CLIENT, Some (make_response_empty query), Some c2))"
        using pre(1) False get(1) by (simp add: run op one RD_GET_bit del: dns_cache_get.simps)
      then show ?thesis using False None get
        by (auto simp: local_decision_def empty_is_noerror)
    next
      case (Some v)
      obtain t where t: "(?k, v, t) \<in> set L" using live_value_ok(2)[OF abs Some] by blast
      note ok = live_value_ok(3,4)[OF abs Some]
      have "\<not> blocked_value v" using False Some wire_name_in_lineage[of ls] name(1)
        by (auto simp: blocked_name_def)
      moreover have "unat (cv_answer v) \<le> length (rrs_or_nil v)" using counts t by auto
      ultimately have "query_post_validate (local_answer query v) = Some RCODE_NOERROR"
        using post_loop_spec[OF ok(2), of "unat (cv_answer v)"]
        by (auto simp: query_post_validate_def local_answer_def Let_def blocked_value_def dest: in_set_takeD)
      then have "pack_try_response_local (\<lambda>_. now) query (Some c) =
          Some (CLIENT, Some (local_answer query v), Some c2)"
        using pre(1) False get(1) Some local_answer_make[OF ok(1), of query]
        by (simp add: run op one del: dns_cache_get.simps)
      then show ?thesis using False Some get by (auto simp: local_decision_def)
    qed
  qed
qed

text \<open>What a relayed answer leaves in the cache.\<close>

definition answer_value :: "DnsPacket \<Rightarrow> CacheValue" where
  "answer_value p = \<lparr>cv_answer = answer_RRs (header p), cv_authority = authority_RRs (header p),
     cv_additional = additional_RRs (header p), cv_rrs = Some (rrs p)\<rparr>"

lemma answer_value_rrs [simp]: "rrs_or_nil (answer_value p) = rrs p"
  by (simp add: answer_value_def rrs_or_nil_def)

lemma map_of_butlast: "map_of (butlast L) k = Some x \<Longrightarrow> map_of L k = Some x"
  by (induction L) (auto split: if_splits)

lemma relay_put:
  assumes abs: "cache_abs cap c L" and ok: "\<forall>r \<in> set (rrs recv). unat (rdata_length r) = length (rdata r)"
    and q: "questions recv = [q]"
  shows "\<exists>c1 L1. pack_make_response_relay True t recv client_id (Some c) =
      Some (recv\<lparr>header := (header recv)\<lparr>hdr_id := client_id\<rparr>\<rparr>, Some c1) \<and>
    cache_abs cap c1 ((cache_key_create (qname q) (qtype q) (qclass q), answer_value recv, t) # L1) \<and>
    set L1 \<subseteq> set L \<and> (\<forall>k x. map_of L1 k = Some x \<longrightarrow> map_of L k = Some x)"
proof -
  let ?k = "cache_key_create (qname q) (qtype q) (qclass q)"
  have "value_ok (answer_value recv)" using ok by (simp add: value_ok_def answer_value_def)
  then obtain c1 where c1: "dns_cache_put t (Some (qname q)) (qtype q) (qclass q) (answer_value recv) (Some c) =
      Some (fst (lru_put cap t ?k (answer_value recv) L), Some c1)"
    "cache_abs cap c1 (snd (lru_put cap t ?k (answer_value recv) L))"
    using put_refines[OF abs, of "answer_value recv" t "qname q" "qtype q" "qclass q"] by blast
  define L1 where "L1 = (if ?k \<in> fst ` set L then drop_key ?k L else if cap \<le> int (length L) then butlast L else L)"
  have "snd (lru_put cap t ?k (answer_value recv) L) = (?k, answer_value recv, t) # L1"
    by (simp add: lru_put_def L1_def answer_value_def)
  moreover have "set L1 \<subseteq> set L" by (auto simp: L1_def drop_key_def dest: in_set_butlastD)
  moreover have "map_of L1 k = Some x \<Longrightarrow> map_of L k = Some x" for k x
    by (auto simp: L1_def map_of_drop_key dest: map_of_butlast split: if_splits)
  moreover have "pack_make_response_relay True t recv client_id (Some c) =
      Some (recv\<lparr>header := (header recv)\<lparr>hdr_id := client_id\<rparr>\<rparr>, Some c1)"
    using c1(1) clone_exact[OF ok] q
    by (simp add: pack_make_response_relay_def answer_value_def Let_def del: dns_cache_put.simps)
  ultimately show ?thesis using c1(2) by metis
qed

text \<open>A query that opens a conversation about the question \<open>q\<close>.\<close>

definition plain_query :: "DnsPacket \<Rightarrow> SectionQuestion \<Rightarrow> cstr list \<Rightarrow> bool" where
  "plain_query query q ls \<longleftrightarrow> OPCODE_GET (flags (header query)) = 0 \<and> qcount (header query) = 1 \<and>
     questions query = [q] \<and> qname q = wire_name ls \<and> wire_labels ls"

definition counts_ok :: "lru \<Rightarrow> bool" where
  "counts_ok L \<longleftrightarrow> (\<forall>(k, v, t) \<in> set L. unat (cv_answer v) \<le> length (rrs_or_nil v))"

lemma relay_then_query:
  assumes abs: "cache_abs cap c L" and counts: "counts_ok L"
    and ok: "\<forall>r \<in> set (rrs recv). unat (rdata_length r) = length (rdata r)" and q: "questions recv = [q]"
    and n: "unat (answer_RRs (header recv)) \<le> length (rrs recv)" and query: "plain_query query q ls"
    and free: "\<forall>m \<in> set (lineage ls). \<not> blocked_name now L (qtype q) (qclass q) m"
    and fresh: "t \<le> now" "\<forall>r \<in> set (rrs recv). ttl r = UINT32_MAX \<or> now - t < 1000 * int (unat (ttl r))"
    and nz: "\<forall>r \<in> set (rrs recv). \<not> address_zero r"
  shows "\<exists>c1 c2. pack_make_response_relay True t recv client_id (Some c) =
      Some (recv\<lparr>header := (header recv)\<lparr>hdr_id := client_id\<rparr>\<rparr>, Some c1) \<and>
    pack_try_response_local (\<lambda>_. now) query (Some c1) =
      Some (CLIENT, Some (local_answer query (answer_value recv)), Some c2)"
proof -
  let ?k = "cache_key_create (qname q) (qtype q) (qclass q)"
  obtain c1 L1 where c1: "pack_make_response_relay True t recv client_id (Some c) =
      Some (recv\<lparr>header := (header recv)\<lparr>hdr_id := client_id\<rparr>\<rparr>, Some c1)"
    "cache_abs cap c1 ((?k, answer_value recv, t) # L1)" "set L1 \<subseteq> set L"
    "\<forall>k x. map_of L1 k = Some x \<longrightarrow> map_of L k = Some x"
    using relay_put[OF abs ok q] by blast
  let ?L = "(?k, answer_value recv, t) # L1"
  have "\<not> expired (answer_value recv) t now"
    using expired_iff[OF fresh(1), of "answer_value recv" "rrs recv"] fresh(2)
    by (auto simp: answer_value_def)
  then have live_k: "live now ?L ?k = Some (answer_value recv)" by (simp add: live_def)
  have live_m: "live now ?L k = Some v \<Longrightarrow> k \<noteq> ?k \<Longrightarrow> live now L k = Some v" for k v
    using c1(4) by (auto simp: live_def split: option.splits if_splits)
  have "\<not> blocked_value (answer_value recv)" using nz by (simp add: blocked_value_def)
  then have free': "\<not> blocked_name now ?L (qtype q) (qclass q) m" if "m \<in> set (lineage ls)" for m
    using that free live_k live_m unfolding blocked_name_def
    by (cases "cache_key_create m (qtype q) (qclass q) = ?k") auto
  have cnt: "\<forall>(k, v, t) \<in> set ?L. unat (cv_answer v) \<le> length (rrs_or_nil v)"
    using counts c1(3) n by (auto simp: counts_ok_def answer_value_def rrs_or_nil_def)
  have "local_decision now ?L ls query q = (CLIENT, Some (local_answer query (answer_value recv)))"
    using free' live_k by (auto simp: local_decision_def)
  then show ?thesis
    using try_response_lemma[OF c1(2) cnt, of query q ls now] query c1(1) unfolding plain_query_def by auto
qed

text \<open>A question for \<open>a.b\<close>, a query for it, and a cached zero address of \<open>b\<close>.\<close>

definition question_ab :: SectionQuestion where
  "question_ab = \<lparr>qname = wire_name [[97], [98]], qtype = QTYPE_A, qclass = QCLASS_IN\<rparr>"

definition query_ab :: DnsPacket where
  "query_ab = \<lparr>header = \<lparr>hdr_id = 7, flags = 0x0100, qcount = 1, answer_RRs = 0, authority_RRs = 0,
     additional_RRs = 0\<rparr>, questions = [question_ab], rrs = []\<rparr>"

definition zero_value :: CacheValue where
  "zero_value = \<lparr>cv_answer = 1, cv_authority = 0, cv_additional = 0, cv_rrs = Some [\<lparr>rr_name = wire_name [[98]],
     rr_type = QTYPE_A, rr_class = QCLASS_IN, ttl = UINT32_MAX, rdata_length = 4, rdata = [0, 0, 0, 0]\<rparr>]\<rparr>"

lemma plain_query_ab: "plain_query query_ab question_ab [[97], [98]]"
  by (simp add: plain_query_def query_ab_def question_ab_def OPCODE_GET_def wire_label_def)

lemma zero_value_state:
  "\<exists>c. cache_abs 1024 c [(cache_key_create (wire_name [[98]]) QTYPE_A QCLASS_IN, zero_value, 0)]"
proof -
  obtain c where "cache_abs DNS_CACHE_DEFAULT_CAPACITY c []" using init_abs by blast
  then have c: "cache_abs 1024 c []" by (simp add: DNS_CACHE_DEFAULT_CAPACITY_def)
  have "value_ok zero_value" by (simp add: value_ok_def zero_value_def)
  with put_refines[OF c, of zero_value 0 "wire_name [[98]]" QTYPE_A QCLASS_IN] show ?thesis
    by (auto simp: lru_put_def zero_value_def)
qed

lemma zero_value_live:
  "live now [(k, zero_value, 0)] k = Some zero_value" "blocked_value zero_value" "counts_ok [(k, zero_value, 0)]"
  by (simp_all add: live_def expired_def zero_value_def blocked_value_def rrs_or_nil_def address_zero_def
      counts_ok_def UINT32_MAX_def)

section \<open>Every query is decided\<close>

text \<open>
  With any clock, any opcode and any number of questions, and with or without a cache: the
  decision has a result, and the answer is a bare response or the records of a cached value.
\<close>

definition cache_opt :: "int \<Rightarrow> DnsCache option \<Rightarrow> lru \<Rightarrow> bool" where
  "cache_opt cap c L \<longleftrightarrow> (case c of None \<Rightarrow> L = [] | Some c \<Rightarrow> cache_abs cap c L)"

text \<open>Values whose records the sender can write, in \<open>room\<close> bytes.\<close>

definition value_sound :: "nat \<Rightarrow> CacheValue \<Rightarrow> bool" where
  "value_sound room v \<longleftrightarrow> unat (cv_answer v) + unat (cv_authority v) + unat (cv_additional v) = length (rrs_or_nil v) \<and>
     (\<forall>r \<in> set (rrs_or_nil v). rr_sound r) \<and> rrs_room (rrs_or_nil v) \<le> room"

definition cache_sound :: "nat \<Rightarrow> lru \<Rightarrow> bool" where
  "cache_sound room L \<longleftrightarrow> (\<forall>(k, v, t) \<in> set L. value_sound room v)"

lemma cache_sound_mono: "cache_sound room L \<Longrightarrow> set L' \<subseteq> set L \<Longrightarrow> cache_sound room L'"
  by (auto simp: cache_sound_def)

lemma value_sound_data:
  "value_sound room v \<Longrightarrow> \<forall>r \<in> set (rrs_or_nil v). unat (rdata_length r) = length (rdata r)"
  by (auto simp: value_sound_def rr_sound_def)

lemma get_any:
  assumes "cache_opt cap c L"
  shows "\<exists>v c' L'. dns_cache_get t (Some n) qt qc c = Some (if v = None then 1 else 0, v, c') \<and>
    cache_opt cap c' L' \<and> set L' \<subseteq> set L \<and> (\<forall>x. v = Some x \<longrightarrow> (\<exists>k s. (k, x, s) \<in> set L))"
proof (cases c)
  case None
  then show ?thesis using assms by (auto simp: cache_opt_def)
next
  case (Some d)
  then have abs: "cache_abs cap d L" using assms by (simp add: cache_opt_def)
  obtain d' L' where d': "dns_cache_get t (Some n) qt qc (Some d) =
      Some (case live t L (cache_key_create n qt qc) of
        None \<Rightarrow> (1, None, Some d') | Some v \<Rightarrow> (0, Some v, Some d'))"
    "cache_abs cap d' L'" "set L' \<subseteq> set L" using get_live[OF abs] by metis
  show ?thesis
  proof (cases "live t L (cache_key_create n qt qc)")
    case None
    then show ?thesis using Some d'
      by (intro exI[of _ "None :: CacheValue option"] exI[of _ "Some d'"] exI[of _ L'])
        (simp add: cache_opt_def del: dns_cache_get.simps)
  next
    case (Some v)
    then show ?thesis using \<open>c = Some d\<close> d' live_value_ok(2)[OF abs Some]
      by (intro exI[of _ "Some v"] exI[of _ "Some d'"] exI[of _ L'])
        (auto simp add: cache_opt_def simp del: dns_cache_get.simps)
  qed
qed

lemma pre_loop_any:
  assumes "cache_opt cap c L" "cache_sound room L" "wire_labels ls"
  shows "\<exists>rc i' c' L'. pre_loop clock i qt qc (wire_name ls) c = Some (rc, i', c') \<and>
    cache_opt cap c' L' \<and> set L' \<subseteq> set L"
  using assms
proof (induction ls arbitrary: i c L)
  case Nil
  obtain v c' L' where g: "dns_cache_get (clock i) (Some []) qt qc c = Some (if v = None then 1 else 0, v, c')"
    "cache_opt cap c' L'" "set L' \<subseteq> set L" "\<forall>x. v = Some x \<longrightarrow> (\<exists>k s. (k, x, s) \<in> set L)"
    using get_any[OF Nil(1)] by metis
  have "v = Some x \<Longrightarrow> \<exists>b. any_zero_address (rrs_or_nil x) = Some b" for x
    using g(4) Nil(2) any_zero_spec[OF value_sound_data] by (fastforce simp: cache_sound_def)
  then show ?case using g(1-3)
    by (subst pre_loop.simps, cases v) (fastforce simp del: dns_cache_get.simps)+
next
  case (Cons l ls)
  let ?n = "wire_name (l # ls)"
  obtain v c' L' where g: "dns_cache_get (clock i) (Some ?n) qt qc c = Some (if v = None then 1 else 0, v, c')"
    "cache_opt cap c' L'" "set L' \<subseteq> set L" "\<forall>x. v = Some x \<longrightarrow> (\<exists>k s. (k, x, s) \<in> set L)"
    using get_any[OF Cons.prems(1)] by metis
  have p: "get_parent_qname ?n = Some (if ls = [] then None else Some (wire_name ls))"
    using Cons.prems(3) by (intro parent_wire) auto
  have "v = Some x \<Longrightarrow> \<exists>b. any_zero_address (rrs_or_nil x) = Some b" for x
    using g(4) Cons.prems(2) any_zero_spec[OF value_sound_data] by (fastforce simp: cache_sound_def)
  then obtain b where b: "(if v = None then 1 else 0 :: int) = 0 \<longrightarrow>
      do { value \<leftarrow> v; any_zero_address (rrs_or_nil value) } = Some b" by (cases v) auto
  obtain rc i2 c2 L2 where rest: "pre_loop clock (Suc i) qt qc (wire_name ls) c' = Some (rc, i2, c2)"
    "cache_opt cap c2 L2" "set L2 \<subseteq> set L'"
    using Cons.IH[OF g(2) cache_sound_mono[OF Cons.prems(2) g(3)], of "Suc i"] Cons.prems(3) by auto
  show ?case
    using g b p rest
    by (subst pre_loop.simps, cases v; cases b; cases "ls = []")
      (auto simp del: dns_cache_get.simps wire_name.simps intro: subset_trans)
qed

definition names_ok :: "SectionQuestion list \<Rightarrow> bool" where
  "names_ok qs \<longleftrightarrow> (\<forall>q \<in> set qs. \<exists>ls. wire_labels ls \<and> qname q = wire_name ls)"

text \<open>A reply to a query: its identifier and questions, the response flag, and no overrun.\<close>

definition reply_to :: "nat \<Rightarrow> DnsPacket \<Rightarrow> DnsPacket \<Rightarrow> bool" where
  "reply_to room query r \<longleftrightarrow> hdr_id (header r) = hdr_id (header query) \<and> questions r = questions query \<and>
     bit (flags (header r)) 15 \<and> packet_sound r \<and> packet_room r \<le> packet_room query + room"

lemma fail_reply: "packet_sound query \<Longrightarrow> reply_to room query (make_response_fail query rc)"
  by (auto simp: reply_to_def packet_sound_def rr_count_def packet_room_def rrs_room_def response_bits)

lemma local_answer_reply:
  assumes "packet_sound query" "value_sound room v"
  shows "reply_to room query (local_answer query v)"
proof -
  have "flags (header (local_answer query v)) = flags (header (make_response_fail query RCODE_NOERROR))"
    by (simp add: local_answer_def Let_def)
  then have "bit (flags (header (local_answer query v))) 15" by (simp add: response_bits)
  then show ?thesis using assms
    by (auto simp: reply_to_def packet_sound_def local_answer_def Let_def rr_count_def packet_room_def
        value_sound_def)
qed

lemma try_response_any:
  assumes c: "cache_opt cap c L" "cache_sound room L" and q: "packet_sound query" "names_ok (questions query)"
  shows "\<exists>d p c' L'. pack_try_response_local clock query c = Some (d, p, c') \<and> cache_opt cap c' L' \<and>
    set L' \<subseteq> set L \<and> (case p of None \<Rightarrow> d = UPSTREAM | Some r \<Rightarrow> d = CLIENT \<and> reply_to room query r)"
proof -
  note run = pack_try_response_local_def[of clock query c]
  note fail = fail_reply[OF q(1)]
  show ?thesis
  proof (cases "OPCODE_GET (flags (header query)) = 0 \<and> qcount (header query) = 1")
    case False
    have "qcount (header query) = 0 \<or> qcount (header query) = 1 \<or> qcount (header query) > 1"
      by (metis linorder_neqE word_less_1)
    with False have "\<exists>rc. pack_try_response_local clock query c = Some (CLIENT, Some (make_response_fail query rc), c)"
      by (auto simp: run Let_def make_response_status_def empty_is_noerror)
    then show ?thesis using c(1) fail by fastforce
  next
    case one: True
    then have "length (questions query) = 1" using q(1) by (simp add: packet_sound_def)
    then obtain s where s: "questions query = [s]" by (cases "questions query") auto
    then obtain ls where ls: "wire_labels ls" "qname s = wire_name ls" using q(2) by (auto simp: names_ok_def)
    obtain rc i c1 L1 where pre: "query_pre_validate clock query c = Some (rc, i, c1)"
      "cache_opt cap c1 L1" "set L1 \<subseteq> set L"
      using pre_loop_any[OF c ls(1), of clock 0 "qtype s" "qclass s"] by (auto simp: query_pre_validate_def s ls(2))
    obtain v c2 L2 where get: "dns_cache_get (clock i) (Some (qname s)) (qtype s) (qclass s) c1 =
        Some (if v = None then 1 else 0, v, c2)" "cache_opt cap c2 L2" "set L2 \<subseteq> set L1"
      "\<forall>x. v = Some x \<longrightarrow> (\<exists>k t. (k, x, t) \<in> set L1)"
      using get_any[OF pre(2)] by metis
    show ?thesis
    proof (cases "rc = RCODE_NOERROR")
      case False
      then show ?thesis using one pre fail by (auto simp: run)
    next
      case ok: True
      note L2 = get(2) subset_trans[OF get(3) pre(3)]
      show ?thesis
      proof (cases v)
        case None
        then show ?thesis using one pre(1) get(1) ok s L2 fail
          by (auto simp: run empty_is_noerror simp del: dns_cache_get.simps split: option.split)
      next
        case (Some x)
        then have x: "value_sound room x" using get(4) pre(3) c(2) by (fastforce simp: cache_sound_def)
        note data = value_sound_data[OF x]
        obtain code where code: "query_post_validate (local_answer query x) = Some code"
          using post_loop_spec[OF data, of "unat (cv_answer x)"] x
          by (auto simp: query_post_validate_def local_answer_def Let_def value_sound_def)
        have "pack_try_response_local clock query c = Some (CLIENT,
            Some (if code \<noteq> RCODE_NOERROR then make_response_fail query code else local_answer query x), c2)"
          using one pre(1) get(1) ok s Some local_answer_make[OF rrs_clone_exact[OF data], of query] code
          by (simp add: run del: dns_cache_get.simps)
        then show ?thesis using L2 fail local_answer_reply[OF q(1) x] by auto
      qed
    qed
  qed
qed

text \<open>The same of a response that is relayed and cached.\<close>

lemma relay_any:
  assumes c: "cache_opt cap c L" "cache_sound room L" and p: "packet_sound recv" "rrs_room (rrs recv) \<le> room"
    and q: "use_cache \<Longrightarrow> questions recv \<noteq> []"
  shows "\<exists>c' L'. pack_make_response_relay use_cache t recv client_id c =
      Some (recv\<lparr>header := (header recv)\<lparr>hdr_id := client_id\<rparr>\<rparr>, c') \<and> cache_opt cap c' L' \<and> cache_sound room L'"
proof -
  note clone = clone_exact[OF packet_sound_data[OF p(1)]]
  show ?thesis
  proof (cases use_cache)
    case False
    then show ?thesis using c by (auto simp: pack_make_response_relay_def clone Let_def)
  next
    case True
    obtain s qs where s: "questions recv = s # qs" using q[OF True] by (cases "questions recv") auto
    let ?k = "cache_key_create (qname s) (qtype s) (qclass s)" and ?v = "answer_value recv"
    have v: "value_sound room ?v" using p
      by (auto simp: value_sound_def packet_sound_def rr_count_def) (auto simp: answer_value_def)
    have run: "pack_make_response_relay use_cache t recv client_id c =
        do { (r, c') \<leftarrow> dns_cache_put t (Some (qname s)) (qtype s) (qclass s) ?v c;
             Some (recv\<lparr>header := (header recv)\<lparr>hdr_id := client_id\<rparr>\<rparr>, c') }"
      using True s by (simp add: pack_make_response_relay_def clone Let_def answer_value_def del: dns_cache_put.simps)
    show ?thesis
    proof (cases c)
      case None
      then show ?thesis using run c by auto
    next
      case (Some d)
      then have abs: "cache_abs cap d L" using c(1) by (simp add: cache_opt_def)
      have "value_ok ?v" using packet_sound_data[OF p(1)] by (simp add: value_ok_def answer_value_def)
      then obtain d' where d': "dns_cache_put t (Some (qname s)) (qtype s) (qclass s) ?v (Some d) =
          Some (fst (lru_put cap t ?k ?v L), Some d')" "cache_abs cap d' (snd (lru_put cap t ?k ?v L))"
        using put_refines[OF abs, of ?v t "qname s" "qtype s" "qclass s"] by blast
      have "set (snd (lru_put cap t ?k ?v L)) \<subseteq> insert (?k, ?v, t) (set L)"
        by (auto simp: lru_put_def drop_key_def dest: in_set_butlastD split: if_splits)
      then have "cache_sound room (snd (lru_put cap t ?k ?v L))"
        using c(2) v by (fastforce simp: cache_sound_def)
      then show ?thesis using run Some d' by (auto simp: cache_opt_def simp del: dns_cache_put.simps)
    qed
  qed
qed




definition answer_ab :: DnsPacket where
  "answer_ab = \<lparr>header = \<lparr>hdr_id = 9, flags = 0x8180, qcount = 1, answer_RRs = 1, authority_RRs = 0,
     additional_RRs = 0\<rparr>, questions = [question_ab], rrs = [\<lparr>rr_name = wire_name [[97], [98]],
     rr_type = QTYPE_A, rr_class = QCLASS_IN, ttl = 60, rdata_length = 4, rdata = [10, 0, 0, 1]\<rparr>]\<rparr>"

lemma empty_unblocked: "\<not> blocked_name now [] qt qc n" "counts_ok []"
  by (simp_all add: blocked_name_def live_def counts_ok_def)


text \<open>
  C37. A negative answer loses its code: an upstream response without records, whatever its
  response code, NXDOMAIN included, is answered to every later query for the question as a
  success without records, and this never expires.
\<close>

theorem negative_answer_forgotten:
  assumes "cache_abs cap c L" and "counts_ok L" and "rrs recv = []" and "questions recv = [q]"
    and "answer_RRs (header recv) = 0" "authority_RRs (header recv) = 0" "additional_RRs (header recv) = 0"
    and "plain_query query q ls" and "t \<le> now"
    and "\<forall>m \<in> set (lineage ls). \<not> blocked_name now L (qtype q) (qclass q) m"
  shows "\<exists>c1 c2. pack_make_response_relay True t recv client_id (Some c) =
      Some (recv\<lparr>header := (header recv)\<lparr>hdr_id := client_id\<rparr>\<rparr>, Some c1) \<and>
    pack_try_response_local (\<lambda>_. now) query (Some c1) =
      Some (CLIENT, Some (make_response_fail query RCODE_NOERROR), Some c2)"
proof -
  have "local_answer query (answer_value recv) = make_response_fail query RCODE_NOERROR"
    using assms(3,5-7)
    by (simp add: local_answer_def answer_value_def rrs_or_nil_def make_response_fail_def
        make_response_empty_def setRcode_def pack_create_def Let_def)
  then show ?thesis
    using relay_then_query[OF assms(1,2) _ assms(4) _ assms(8,10,9), of client_id] assms(3,5) by simp
qed

definition nxdomain_ab :: DnsPacket where
  "nxdomain_ab = \<lparr>header = \<lparr>hdr_id = 9, flags = 0x8183, qcount = 1, answer_RRs = 0, authority_RRs = 0,
     additional_RRs = 0\<rparr>, questions = [question_ab], rrs = []\<rparr>"

theorem negative_answer_forgotten_witness:
  "\<exists>c c1 c2. RCODE (flags (header nxdomain_ab)) = rcode_num RCODE_NXDOMAIN \<and>
    pack_make_response_relay True 0 nxdomain_ab 7 (Some c) =
      Some (nxdomain_ab\<lparr>header := (header nxdomain_ab)\<lparr>hdr_id := 7\<rparr>\<rparr>, Some c1) \<and>
    pack_try_response_local (\<lambda>_. 10 ^ 12) query_ab (Some c1) =
      Some (CLIENT, Some (make_response_fail query_ab RCODE_NOERROR), Some c2)"
proof -
  obtain c where c: "cache_abs DNS_CACHE_DEFAULT_CAPACITY c []" using init_abs by blast
  have "RCODE (flags (header nxdomain_ab)) = rcode_num RCODE_NXDOMAIN"
    by (simp add: nxdomain_ab_def RCODE_def)
  then show ?thesis
    using negative_answer_forgotten[OF c empty_unblocked(2), of nxdomain_ab question_ab query_ab "[[97], [98]]" 0 "10 ^ 12" 7]
      plain_query_ab empty_unblocked(1) by (auto simp: nxdomain_ab_def)
qed

text \<open>
  The responses the relay builds itself carry the identifier, the questions and the
  opcode of the query, the response and recursion-available flags, the wanted code, and no
  records.
\<close>

theorem response_shape:
  "hdr_id (header (make_response_fail query rc)) = hdr_id (header query) \<and>
   questions (make_response_fail query rc) = questions query \<and>
   qcount (header (make_response_fail query rc)) = qcount (header query) \<and>
   rrs (make_response_fail query rc) = [] \<and> rr_count (header (make_response_fail query rc)) = 0 \<and>
   RCODE (flags (header (make_response_fail query rc))) = rcode_num rc \<and>
   bit (flags (header (make_response_fail query rc))) n =
     (n = 15 \<or> n = 7 \<or> (if n < 4 then bit (rcode_num rc) n else bit (flags (header query)) n)) \<and>
   make_response_empty query = make_response_fail query RCODE_NOERROR"
proof -
  have m: "(0xf :: uint16_t) = mask 4" by (simp add: mask_eq_exp_minus_1)
  have "RCODE (flags (header (make_response_fail query rc))) = rcode_num rc"
    unfolding RCODE_def m
    by (rule bit_eqI) (auto simp: bit_and_iff bit_mask_iff response_bits dest: bit_rcode)
  then show ?thesis using response_bits empty_is_noerror by (simp add: rr_count_def)
qed

text \<open>
  The test for a zero address looks at every byte but the first: \<open>10.0.0.0\<close> is judged
  to be zero, and so blocks its name like \<open>0.0.0.0\<close>.
\<close>

theorem zero_test_skips_first_byte:
  assumes "len \<le> length mem"
  shows "memallz mem len = Some (\<forall>i. 1 \<le> i \<and> i < len \<longrightarrow> mem ! i = 0)"
  by (rule memallz_spec[OF assms])

theorem zero_test_skips_first_byte_witness:
  "memallz [10, 0, 0, 0] 4 = Some True \<and> memallz [10, 0, 0, 1] 4 = Some False"
proof
  have "i = 1 \<or> i = 2 \<or> i = 3" if "1 \<le> i" "i < 4" for i :: nat using that by auto
  then have "\<forall>i. 1 \<le> i \<and> i < 4 \<longrightarrow> ([10, 0, 0, 0] :: byte list) ! i = 0" by fastforce
  then show "memallz [10, 0, 0, 0] 4 = Some True"
    using zero_test_skips_first_byte[of 4 "[10, 0, 0, 0]"] by simp
  have "\<not> (\<forall>i. 1 \<le> i \<and> i < 4 \<longrightarrow> ([10, 0, 0, 1] :: byte list) ! i = 0)"
    by (auto intro!: exI[of _ "3 :: nat"])
  then show "memallz [10, 0, 0, 1] 4 = Some False"
    using zero_test_skips_first_byte[of 4 "[10, 0, 0, 1]"] by simp
qed


section \<open>Well-formed packets\<close>

text \<open>The counts of the header are those of the lists, and names are C strings.\<close>

definition packet_typed :: "DnsPacket \<Rightarrow> bool" where
  "packet_typed p \<longleftrightarrow> unat (qcount (header p)) = length (questions p) \<and> rr_count (header p) = length (rrs p) \<and>
     (\<forall>q \<in> set (questions p). 0 \<notin> set (qname q)) \<and> (\<forall>r \<in> set (rrs p). 0 \<notin> set (rr_name r))"

definition value_typed :: "CacheValue \<Rightarrow> bool" where
  "value_typed v \<longleftrightarrow> unat (cv_answer v) + unat (cv_authority v) + unat (cv_additional v) = length (rrs_or_nil v) \<and>
     (\<forall>r \<in> set (rrs_or_nil v). 0 \<notin> set (rr_name r))"

lemma str_no_zero: "str_at buf i = Some s \<Longrightarrow> 0 \<notin> set s"
  by (auto simp: str_at_def c_str_def dest: set_takeWhileD split: if_splits)

lemma name_no_zero:
  assumes "name_deserialize buf cur = Some (n, s)"
  shows "0 \<notin> set s"
proof -
  obtain i b where "label_scan buf cur 0 = Some i" "arr_get buf (cur + i) = Some b"
    "(if b = 0 then do { s \<leftarrow> str_at buf cur; Some (int (length s) + 1, s) }
      else do {
        p \<leftarrow> arr_read buf (cur + i) 2;
        (l, suffix) \<leftarrow> name_deserialize buf (uint (from_be16 p XOR 0xC000));
        prefix \<leftarrow> (if i < 0 then None else arr_read buf cur (nat i));
        Some (i + 2, c_str (prefix @ suffix)) }) = Some (n, s)"
    using assms by (subst (asm) name_deserialize.simps) (auto simp: bind_eq_Some_conv)
  moreover have "0 \<notin> set (c_str xs)" for xs by (auto simp: c_str_def dest: set_takeWhileD)
  ultimately show ?thesis by (auto simp: bind_eq_Some_conv dest: str_no_zero split: if_splits)
qed

lemma question_read: "question_deserialize buf cur = Some (q, n) \<Longrightarrow> 0 \<notin> set (qname q)"
  by (auto simp: bind_eq_Some_conv question_deserialize_def Let_def dest: str_no_zero)

lemma questions_read:
  "questions_deserialize buf cur n = Some (qs, m) \<Longrightarrow> length qs = n \<and> (\<forall>q \<in> set qs. 0 \<notin> set (qname q))"
proof (induction n arbitrary: cur qs m)
  case (Suc n)
  then obtain q k qs' m' where "question_deserialize buf cur = Some (q, k)"
    "questions_deserialize buf (cur + k) n = Some (qs', m')" "qs = q # qs'" by (auto simp: bind_eq_Some_conv)
  then show ?case using Suc.IH question_read by auto
qed simp

lemma rr_read_name: "rr_deserialize buf cur = Some (r, n) \<Longrightarrow> 0 \<notin> set (rr_name r)"
  by (auto simp: bind_eq_Some_conv rr_deserialize_def rdata_deserialize_def Let_def dest: name_no_zero split: if_splits)

lemma rrs_read:
  "rrs_deserialize buf cur n = Some (rs, m) \<Longrightarrow> length rs = n \<and> (\<forall>r \<in> set rs. 0 \<notin> set (rr_name r))"
proof (induction n arbitrary: cur rs m)
  case (Suc n)
  then obtain r k rs' m' where "rr_deserialize buf cur = Some (r, k)"
    "rrs_deserialize buf (cur + k) n = Some (rs', m')" "rs = r # rs'" by (auto simp: bind_eq_Some_conv)
  then show ?case using Suc.IH rr_read_name by auto
qed simp

lemma rrs_clone_names:
  "rrs_clone rs = Some rs' \<Longrightarrow> length rs' = length rs \<and> ((\<forall>r \<in> set rs. 0 \<notin> set (rr_name r)) \<longrightarrow> (\<forall>r \<in> set rs'. 0 \<notin> set (rr_name r)))"
  by (induction rs arbitrary: rs') (auto simp: bind_eq_Some_conv rr_clone_def)

lemma clone_typed:
  assumes "packet_typed p" "packet_clone p = Some c"
  shows "packet_typed c" "header c = header p"
proof -
  obtain rs where rs: "rrs_clone (rrs p) = Some rs" "c = pack_create\<lparr>header := header p, questions := questions p, rrs := rs\<rparr>"
    using assms(2) by (auto simp: packet_clone_def bind_eq_Some_conv questions_clone_same)
  then show "packet_typed c" "header c = header p"
    using assms(1) rrs_clone_names[OF rs(1)] by (simp_all add: packet_typed_def)
qed

lemma typed_id: "packet_typed p \<Longrightarrow> packet_typed (p\<lparr>header := (header p)\<lparr>hdr_id := i\<rparr>\<rparr>)"
  by (simp add: packet_typed_def rr_count_def)

text \<open>
  C13. Packets stay well formed: in every packet that is read, whatever the bytes, and in every
  packet made of a well-formed one (a refusal or an empty response, the relayed query and response, an
  answer from a cached value with the right counts), the counts of the header are the numbers of questions and
  records, so that the loops over them end within the lists, and every name ends.
\<close>

theorem packets_typed:
  "(pack_deserialize raw len = Some (0, Some p) \<longrightarrow> packet_typed p) \<and>
   (packet_typed q \<longrightarrow> packet_typed (make_response_empty q) \<and> packet_typed (make_response_fail q rc) \<and>
     (pack_make_query_relay q rid = Some p \<longrightarrow> packet_typed p) \<and>
     (pack_make_response_relay caching now q cid c = Some (p, c') \<longrightarrow> packet_typed p) \<and>
     (value_typed v \<and> pack_make_std_response_local q v = Some p \<longrightarrow> packet_typed p))"
proof (intro conjI impI)
  show "packet_typed p" if "pack_deserialize raw len = Some (0, Some p)"
    using that by (auto simp: pack_deserialize_def bind_eq_Some_conv packet_typed_def pack_create_def
      dest: questions_read rrs_read split: if_splits)
next
  assume q: "packet_typed q"
  show "packet_typed (make_response_empty q)" "packet_typed (make_response_fail q rc)"
    using q by (simp_all add: packet_typed_def make_response_fail_def make_response_empty_def Let_def setRcode_def
      questions_clone_same pack_create_def rr_count_def)
  show "packet_typed p" if "pack_make_query_relay q rid = Some p"
    using that clone_typed(1)[OF q] typed_id by (auto simp: pack_make_query_relay_def bind_eq_Some_conv)
  show "packet_typed p" if "pack_make_response_relay caching now q cid c = Some (p, c')"
    using that clone_typed(1)[OF q] typed_id
    by (auto simp: pack_make_response_relay_def bind_eq_Some_conv Let_def simp del: dns_cache_put.simps split: if_splits)
  show "packet_typed p" if "value_typed v \<and> pack_make_std_response_local q v = Some p"
    using that q
    by (auto simp: pack_make_std_response_local_def bind_eq_Some_conv packet_typed_def value_typed_def rr_count_def Let_def
      make_response_empty_def setRcode_def questions_clone_same pack_create_def dest: rrs_clone_names)
qed

theorem packets_typed_witness:
  "packet_typed (make_response_fail query_ab RCODE_NXDOMAIN)"
proof -
  have "packet_typed query_ab" by (simp add: packet_typed_def query_ab_def question_ab_def rr_count_def label_len_def)
  then show ?thesis using packets_typed[of "[]" 0 query_ab query_ab RCODE_NXDOMAIN 0 True 0 0 None None] by simp
qed

end
