(* ===== verification/Heap_Memory.thy ===== *)
theory Heap_Memory
  imports Stl_Vector Dns_Packet
begin

text \<open>
  The heap of the process, for the functions that create, copy and release packets: blocks
  at addresses, \<open>malloc\<close>, \<open>realloc\<close>, \<open>free\<close> and \<open>strdup\<close> as operations on it, and the
  vector of \<^verbatim>\<open>src/infra/stl.c\<close> as two blocks, its structure and its element array. The
  elements of these vectors are pointers.

  An access to a block that is not allocated, and a second \<open>free\<close>, have no result
  (\<open>None\<close>). Addresses are never given out twice, so every use of a block behind its
  release is seen; a \<open>realloc\<close> always moves its block, so every use of the pointer from
  before it is seen, too. The locale \<open>owned_object\<close> says what a component promises of the
  objects it keeps behind pointers: how they are read, which blocks they own, and that
  releasing one removes these blocks. \<open>copied_object\<close> adds the deep copy. The loops over
  a vector that release or copy its elements are proved once, inside them.
\<close>

section \<open>Blocks\<close>

text \<open>
  One constructor for each type of block the sources allocate; \<open>Raw\<close> is a block that was
  never written. A field that was never written is \<open>None\<close>, as is an unused slot of an
  array. A pointer that may be \<open>NULL\<close> is an \<open>addr option\<close>.
\<close>

record question_struct =
  q_name :: "addr option"
  q_type :: "uint16_t option"
  q_class :: "uint16_t option"

record record_struct =
  r_name :: "addr option"
  r_type :: "uint16_t option"
  r_class :: "uint16_t option"
  r_ttl :: "uint32_t option"
  r_length :: "uint16_t"
  r_data :: "addr option"

record packet_struct =
  p_header :: SectionHeader
  p_questions :: addr
  p_rrs :: addr

datatype Block =
    Raw
  | Bytes "byte list"
  | Slots "addr option list"
  | VectorB addr int int
  | QuestionB question_struct
  | RecordB record_struct
  | PacketB packet_struct

record Memory =
  blocks :: "addr \<Rightarrow> Block option"
  fresh :: addr

definition mem_ok :: "Memory \<Rightarrow> bool" where
  "mem_ok m \<longleftrightarrow> (\<forall>a \<in> dom (blocks m). a < fresh m)"

definition empty_memory :: Memory where
  "empty_memory = \<lparr>blocks = Map.empty, fresh = 1\<rparr>"

section \<open>The allocator\<close>

definition store :: "addr \<Rightarrow> Block \<Rightarrow> Memory \<Rightarrow> Memory option" where
  "store a b m = (if blocks m a = None then None else Some (m\<lparr>blocks := (blocks m)(a \<mapsto> b)\<rparr>))"

definition malloc :: "Memory \<Rightarrow> addr \<times> Memory" where
  "malloc m = (fresh m, m\<lparr>blocks := (blocks m)(fresh m \<mapsto> Raw), fresh := fresh m + 1\<rparr>)"

fun mem_free :: "addr option \<Rightarrow> Memory \<Rightarrow> Memory option" where
  "mem_free None m = Some m"
| "mem_free (Some a) m =
     (if blocks m a = None then None else Some (m\<lparr>blocks := (blocks m)(a := None)\<rparr>))"

text \<open>A new block with known contents: \<open>malloc\<close> and the write behind it.\<close>

definition new_block :: "Block \<Rightarrow> Memory \<Rightarrow> (addr \<times> Memory) option" where
  "new_block b m = (let (a, m1) = malloc m in do { m2 \<leftarrow> store a b m1; Some (a, m2) })"

definition realloc :: "addr \<Rightarrow> Block \<Rightarrow> Memory \<Rightarrow> (addr \<times> Memory) option" where
  "realloc a b m = do { (a', m1) \<leftarrow> new_block b m; m2 \<leftarrow> mem_free (Some a) m1; Some (a', m2) }"

section \<open>Typed access\<close>

definition load_bytes :: "Memory \<Rightarrow> addr \<Rightarrow> byte list option" where
  "load_bytes m a = (case blocks m a of Some (Bytes bs) \<Rightarrow> Some bs | _ \<Rightarrow> None)"

definition load_question :: "Memory \<Rightarrow> addr \<Rightarrow> question_struct option" where
  "load_question m a = (case blocks m a of Some (QuestionB q) \<Rightarrow> Some q | _ \<Rightarrow> None)"

definition load_record :: "Memory \<Rightarrow> addr \<Rightarrow> record_struct option" where
  "load_record m a = (case blocks m a of Some (RecordB r) \<Rightarrow> Some r | _ \<Rightarrow> None)"

definition load_packet :: "Memory \<Rightarrow> addr \<Rightarrow> packet_struct option" where
  "load_packet m a = (case blocks m a of Some (PacketB p) \<Rightarrow> Some p | _ \<Rightarrow> None)"

text \<open>The structure of a vector with the array it points to.\<close>

definition load_vector :: "Memory \<Rightarrow> addr \<Rightarrow> (addr \<times> addr Vector) option" where
  "load_vector m v =
     (case blocks m v of
        Some (VectorB e n c) \<Rightarrow>
          (case blocks m e of
             Some (Slots es) \<Rightarrow> Some (e, \<lparr>elements = es, vec_size = n, capacity = c\<rparr>)
           | _ \<Rightarrow> None)
      | _ \<Rightarrow> None)"

text \<open>The C string behind a pointer: the bytes up to the first zero, which must be in the block.\<close>

definition load_cstr :: "Memory \<Rightarrow> addr \<Rightarrow> cstr option" where
  "load_cstr m a = do {
     bs \<leftarrow> load_bytes m a;
     if 0 \<in> set bs then Some (takeWhile (\<lambda>b. b \<noteq> 0) bs) else None }"

definition strdup :: "addr option \<Rightarrow> Memory \<Rightarrow> (addr \<times> Memory) option" where
  "strdup p m = do { a \<leftarrow> p; s \<leftarrow> load_cstr m a; new_block (Bytes (s @ [0])) m }"

section \<open>Vectors of pointers\<close>

definition vector_create_h :: "int \<Rightarrow> Memory \<Rightarrow> (addr \<times> Memory) option" where
  "vector_create_h init_capacity m =
     (let c = (if init_capacity \<le> 0 then 1 else init_capacity);
          (v, m1) = malloc m
      in do {
        (e, m2) \<leftarrow> new_block (Slots (replicate (nat c) None)) m1;
        m3 \<leftarrow> store v (VectorB e 0 c) m2;
        Some (v, m3) })"

definition vector_grow_h :: "addr \<Rightarrow> int \<Rightarrow> Memory \<Rightarrow> Memory option" where
  "vector_grow_h v min_capacity m = do {
     (e, V) \<leftarrow> load_vector m v;
     if min_capacity \<le> capacity V then Some m
     else do {
       let W = vector_grow V min_capacity;
       (e', m1) \<leftarrow> realloc e (Slots (elements W)) m;
       store v (VectorB e' (vec_size W) (capacity W)) m1 } }"

definition vector_add_h :: "addr \<Rightarrow> addr \<Rightarrow> Memory \<Rightarrow> Memory option" where
  "vector_add_h v x m0 = do {
     (_, V0) \<leftarrow> load_vector m0 v;
     m \<leftarrow> vector_grow_h v (vec_size V0 + 1) m0;
     (e, V) \<leftarrow> load_vector m v;
     es \<leftarrow> arr_set (elements V) (vec_size V) (Some x);
     m1 \<leftarrow> store e (Slots es) m;
     store v (VectorB e (vec_size V + 1) (capacity V)) m1 }"

definition vector_get_h :: "Memory \<Rightarrow> addr \<Rightarrow> int \<Rightarrow> addr option option" where
  "vector_get_h m v i = do { (_, V) \<leftarrow> load_vector m v; vector_get (Some V) i }"

definition vector_size_h :: "Memory \<Rightarrow> addr \<Rightarrow> int option" where
  "vector_size_h m v = do { (_, V) \<leftarrow> load_vector m v; Some (vector_size (Some V)) }"

definition vector_free_h :: "addr \<Rightarrow> Memory \<Rightarrow> Memory option" where
  "vector_free_h v m = do {
     (e, _) \<leftarrow> load_vector m v;
     m1 \<leftarrow> mem_free (Some e) m;
     mem_free (Some v) m1 }"

text \<open>
  The two loops the sources write over a vector of pointers to objects: release every
  element, and append a copy of every element to another vector. Each reads the size again
  in every round.
\<close>

partial_function (option) release_loop :: "(addr \<Rightarrow> Memory \<Rightarrow> Memory option) \<Rightarrow> addr \<Rightarrow> int
    \<Rightarrow> Memory \<Rightarrow> Memory option" where
  "release_loop free_one v i m = do {
     n \<leftarrow> vector_size_h m v;
     if i < n then do {
       p \<leftarrow> vector_get_h m v i;
       a \<leftarrow> p;
       m1 \<leftarrow> free_one a m;
       release_loop free_one v (i + 1) m1 }
     else Some m }"

partial_function (option) clone_loop :: "(addr \<Rightarrow> Memory \<Rightarrow> (addr \<times> Memory) option) \<Rightarrow> addr
    \<Rightarrow> addr \<Rightarrow> int \<Rightarrow> Memory \<Rightarrow> Memory option" where
  "clone_loop clone_one src dup i m = do {
     n \<leftarrow> vector_size_h m src;
     if i < n then do {
       p \<leftarrow> vector_get_h m src i;
       a \<leftarrow> p;
       (c, m1) \<leftarrow> clone_one a m;
       m2 \<leftarrow> vector_add_h dup c m1;
       clone_loop clone_one src dup (i + 1) m2 }
     else Some m }"

definition free_objects :: "(addr \<Rightarrow> Memory \<Rightarrow> Memory option) \<Rightarrow> addr \<Rightarrow> Memory \<Rightarrow> Memory option" where
  "free_objects free_one v m = do { m1 \<leftarrow> release_loop free_one v 0 m; vector_free_h v m1 }"

definition clone_into :: "int \<Rightarrow> (addr \<Rightarrow> Memory \<Rightarrow> (addr \<times> Memory) option) \<Rightarrow> addr \<Rightarrow> Memory
    \<Rightarrow> (addr \<times> Memory) option" where
  "clone_into init_capacity clone_one src m = do {
     (dup, m1) \<leftarrow> vector_create_h init_capacity m;
     m2 \<leftarrow> clone_loop clone_one src dup 0 m1;
     Some (dup, m2) }"

definition clone_objects :: "(addr \<Rightarrow> Memory \<Rightarrow> (addr \<times> Memory) option) \<Rightarrow> addr \<Rightarrow> Memory
    \<Rightarrow> (addr \<times> Memory) option" where
  "clone_objects clone_one src m = do { n \<leftarrow> vector_size_h m src; clone_into n clone_one src m }"

section \<open>Reading an object with the blocks it owns\<close>

text \<open>
  An object in memory is read through its pointer, together with the list of the blocks that
  belong to it.
\<close>

definition read_vector :: "Memory \<Rightarrow> addr \<Rightarrow> (addr list \<times> addr list) option" where
  "read_vector m v = do {
     (e, V) \<leftarrow> load_vector m v;
     xs \<leftarrow> those (take (nat (vec_size V)) (elements V));
     if 0 \<le> vec_size V \<and> vec_size V \<le> capacity V \<and> 1 \<le> capacity V \<and>
        int (length (elements V)) = capacity V
     then Some (xs, [v, e]) else None }"

fun read_each :: "(Memory \<Rightarrow> addr \<Rightarrow> ('x \<times> addr list) option) \<Rightarrow> Memory \<Rightarrow> addr list
    \<Rightarrow> ('x list \<times> addr list) option" where
  "read_each read m [] = Some ([], [])"
| "read_each read m (a # as) = do {
     (x, F) \<leftarrow> read m a;
     (xs, G) \<leftarrow> read_each read m as;
     Some (x # xs, F @ G) }"

definition read_objects :: "(Memory \<Rightarrow> addr \<Rightarrow> ('x \<times> addr list) option) \<Rightarrow> Memory \<Rightarrow> addr
    \<Rightarrow> ('x list \<times> addr list) option" where
  "read_objects read m v = do {
     (as, V) \<leftarrow> read_vector m v;
     (xs, F) \<leftarrow> read_each read m as;
     Some (xs, V @ F) }"

text \<open>The memory without some blocks, and the memory with some new ones.\<close>

definition without :: "addr list \<Rightarrow> Memory \<Rightarrow> Memory" where
  "without F m = m\<lparr>blocks := (\<lambda>a. if a \<in> set F then None else blocks m a)\<rparr>"

definition adds :: "Memory \<Rightarrow> addr set \<Rightarrow> Memory \<Rightarrow> bool" where
  "adds m F m' \<longleftrightarrow> mem_ok m' \<and> fresh m \<le> fresh m' \<and> (\<forall>a \<in> F. fresh m \<le> a) \<and>
     dom (blocks m') = dom (blocks m) \<union> F \<and> (\<forall>a < fresh m. blocks m' a = blocks m a)"

section \<open>Lemmas of the allocator\<close>

named_theorems memory_simps \<open>rewrite rules for memories\<close>

lemma without_simps [memory_simps]:
  "without [] m = m"
  "without F (without G m) = without (G @ F) m"
  "blocks (without F m) = (\<lambda>a. if a \<in> set F then None else blocks m a)"
  "fresh (without F m) = fresh m"
  by (auto simp: without_def fun_eq_iff)

lemma without_cong: "set F = set G \<Longrightarrow> without F m = without G m"
  by (simp add: without_def)

lemma mem_free_without: "blocks m a \<noteq> None \<Longrightarrow> mem_free (Some a) m = Some (without [a] m)"
  by (auto simp: without_def fun_upd_def)

lemma without_ok: "mem_ok m \<Longrightarrow> mem_ok (without F m)"
  by (auto simp: mem_ok_def without_def split: if_splits)

lemma new_block_eq:
  "new_block b m = Some (fresh m, m\<lparr>blocks := (blocks m)(fresh m \<mapsto> b), fresh := fresh m + 1\<rparr>)"
  by (simp add: new_block_def malloc_def store_def)

lemma mem_okD: "mem_ok m \<Longrightarrow> blocks m a = Some b \<Longrightarrow> a < fresh m"
  by (auto simp: mem_ok_def)

lemma mem_okI: "(\<And>a b. blocks m a = Some b \<Longrightarrow> a < fresh m) \<Longrightarrow> mem_ok m"
  by (auto simp: mem_ok_def)

lemma fresh_free: "mem_ok m \<Longrightarrow> fresh m \<le> a \<Longrightarrow> blocks m a = None"
  by (cases "blocks m a") (auto dest: mem_okD)

lemma addsD:
  assumes "adds m F m'"
  shows "mem_ok m'" "fresh m \<le> fresh m'" "\<And>a. a \<in> F \<Longrightarrow> fresh m \<le> a"
    "dom (blocks m') = dom (blocks m) \<union> F" "\<And>a. a < fresh m \<Longrightarrow> blocks m' a = blocks m a"
  using assms by (auto simp: adds_def)

lemma adds_refl: "mem_ok m \<Longrightarrow> adds m {} m"
  by (simp add: adds_def)

lemma adds_trans:
  assumes "adds m F m1" "adds m1 G m2"
  shows "adds m (F \<union> G) m2"
proof -
  note A = addsD[OF assms(1)] and B = addsD[OF assms(2)]
  have "fresh m \<le> a" if "a \<in> G" for a using B(3)[OF that] A(2) by simp
  moreover have "blocks m2 a = blocks m a" if "a < fresh m" for a
    using A(5)[OF that] B(5)[of a] A(2) that by simp
  ultimately show ?thesis using A B by (auto simp: adds_def)
qed

lemma adds_fresh:
  assumes "adds m F m1" "adds m1 G m2"
  shows "F \<inter> G = {}"
proof -
  have "a < fresh m1" if "a \<in> F" for a
    using addsD(4)[OF assms(1)] addsD(1)[OF assms(1)] that by (auto simp: mem_ok_def)
  then show ?thesis using addsD(3)[OF assms(2)] by (meson disjoint_iff not_less)
qed

lemma adds_new_block:
  "mem_ok m \<Longrightarrow> new_block b m = Some (a, m') \<Longrightarrow>
     a = fresh m \<and> blocks m' a = Some b \<and> adds m {a} m'"
  by (auto simp: new_block_eq adds_def less_Suc_eq intro!: mem_okI dest: mem_okD)

lemma adds_store:
  "adds m F m' \<Longrightarrow> a \<in> F \<Longrightarrow>
     \<exists>m''. store a b m' = Some m'' \<and> adds m F m'' \<and> blocks m'' = (blocks m')(a \<mapsto> b) \<and>
       fresh m'' = fresh m'"
  by (auto simp: store_def adds_def intro!: mem_okI dest: mem_okD split: if_splits)

text \<open>A reader of the whole heap is determined by the blocks the object owns.\<close>

lemma those_map_Some [simp]: "those (map Some xs) = Some xs"
  by (induction xs) auto

lemma those_Some: "those xs = Some ys \<longleftrightarrow> xs = map Some ys"
  by (induction xs arbitrary: ys) (auto split: option.splits)

lemma load_vector_iff:
  "load_vector m v = Some (e, V) \<longleftrightarrow>
     blocks m v = Some (VectorB e (vec_size V) (capacity V)) \<and> blocks m e = Some (Slots (elements V))"
  by (auto simp: load_vector_def split: option.splits Block.splits)

lemma read_vector_iff:
  "read_vector m v = Some (xs, F) \<longleftrightarrow>
     (\<exists>e V. load_vector m v = Some (e, V) \<and> vec_rep V xs \<and> F = [v, e])"
proof
  assume "read_vector m v = Some (xs, F)"
  then obtain e V where V: "load_vector m v = Some (e, V)" "F = [v, e]"
    "take (nat (vec_size V)) (elements V) = map Some xs"
    "0 \<le> vec_size V" "vec_size V \<le> capacity V" "1 \<le> capacity V" "int (length (elements V)) = capacity V"
    by (auto simp: read_vector_def those_Some split: bind_splits if_splits)
  then have "length xs = min (length (elements V)) (nat (vec_size V))"
    by (metis length_map length_take)
  with V have "vec_rep V xs"
    by (auto simp: vec_rep_def intro!: exI[of _ "drop (nat (vec_size V)) (elements V)"])
      (metis append_take_drop_id)
  with V show "\<exists>e V. load_vector m v = Some (e, V) \<and> vec_rep V xs \<and> F = [v, e]" by blast
next
  assume "\<exists>e V. load_vector m v = Some (e, V) \<and> vec_rep V xs \<and> F = [v, e]"
  then show "read_vector m v = Some (xs, F)"
    by (auto simp: read_vector_def vec_rep_def those_Some)
qed

lemma load_vector_cong:
  "load_vector m v = Some (e, V) \<Longrightarrow> blocks m' v = blocks m v \<Longrightarrow> blocks m' e = blocks m e \<Longrightarrow>
     load_vector m' v = Some (e, V)"
  by (simp add: load_vector_iff)

lemma read_vector_cong:
  "read_vector m v = Some (xs, F) \<Longrightarrow> (\<And>b. b \<in> set F \<Longrightarrow> blocks m' b = blocks m b) \<Longrightarrow>
     read_vector m' v = Some (xs, F)"
  unfolding read_vector_iff
  by (elim exE conjE, intro exI conjI, rule load_vector_cong) auto

lemma read_vector_access:
  assumes "read_vector m v = Some (xs, F)"
  shows "vector_size_h m v = Some (int (length xs))"
    "i < length xs \<Longrightarrow> vector_get_h m v (int i) = Some (Some (xs ! i))"
  using assms vector_get_rep
  by (auto simp: read_vector_iff vector_size_h_def vector_get_h_def vec_rep_def nth_append)

lemma read_vector_own:
  assumes "read_vector m v = Some (xs, F)"
  shows "set F \<subseteq> dom (blocks m)" "distinct F" "\<exists>e. F = [v, e]"
  using assms by (auto simp: read_vector_iff load_vector_iff)

lemma vector_free_law:
  assumes "read_vector m v = Some (xs, F)"
  shows "vector_free_h v m = Some (without F m)"
proof -
  from assms obtain e V where L: "load_vector m v = Some (e, V)" "F = [v, e]"
    by (auto simp: read_vector_iff)
  then have V: "load_vector m v = Some (e, V)" "F = [v, e]" "v \<noteq> e"
    "blocks m v \<noteq> None" "blocks m e \<noteq> None"
    by (auto simp: load_vector_iff)
  then have "blocks (without [e] m) v \<noteq> None" by (simp add: without_simps)
  with V show ?thesis
    by (simp add: vector_free_h_def mem_free_without without_simps del: mem_free.simps)
      (simp add: without_def insert_commute)
qed

lemma vector_create_law:
  assumes "mem_ok m"
  shows "\<exists>v e m'. vector_create_h n m = Some (v, m') \<and> read_vector m' v = Some ([], [v, e]) \<and>
    v \<noteq> e \<and> adds m {v, e} m'"
proof -
  define c where "c = (if n \<le> 0 then 1 else n)"
  have c: "1 \<le> c" by (simp add: c_def)
  have "vector_create_h n m = Some (fresh m, m\<lparr>blocks := (blocks m)(fresh m \<mapsto> VectorB (fresh m + 1) 0 c,
      fresh m + 1 \<mapsto> Slots (replicate (nat c) None)), fresh := fresh m + 2\<rparr>)"
    by (auto simp: vector_create_h_def c_def Let_def malloc_def new_block_eq store_def fun_upd_twist)
  then show ?thesis
    using assms c by (auto simp: read_vector_iff load_vector_iff vec_rep_def adds_def less_Suc_eq
        intro!: mem_okI dest: mem_okD intro!: exI[of _ "fresh m"] exI[of _ "fresh m + 1"]
        exI[of _ "\<lparr>elements = replicate (nat c) None, vec_size = 0, capacity = c\<rparr>"])
qed

text \<open>
  Appending to a vector: only its own blocks change, and when it grows the old array is
  released and a new one takes its place.
\<close>

lemma vector_grow_law:
  assumes "mem_ok m" "read_vector m v = Some (xs, [v, d])"
  shows "\<exists>m' d' V'. vector_grow_h v n m = Some m' \<and> load_vector m' v = Some (d', V') \<and>
    vec_rep V' xs \<and> n \<le> capacity V' \<and> mem_ok m' \<and> fresh m \<le> fresh m' \<and>
    (d' = d \<or> fresh m \<le> d') \<and> dom (blocks m') = dom (blocks m) - {d} \<union> {d'} \<and>
    (\<forall>b. b \<notin> {v, d, d'} \<longrightarrow> blocks m' b = blocks m b)"
proof -
  from assms(2) obtain V where V: "load_vector m v = Some (d, V)" "vec_rep V xs"
    by (auto simp: read_vector_iff)
  note B = V(1)[unfolded load_vector_iff]
  show ?thesis
  proof (cases "n \<le> capacity V")
    case True
    with V B assms(1) show ?thesis
      by (intro exI[of _ m] exI[of _ d] exI[of _ V]) (auto simp: vector_grow_h_def)
  next
    case False
    let ?W = "vector_grow V n" and ?e = "fresh m"
    let ?m = "\<lparr>blocks = (blocks m)(?e \<mapsto> Slots (elements ?W), d := None,
      v \<mapsto> VectorB ?e (vec_size ?W) (capacity ?W)), fresh = fresh m + 1\<rparr>"
    have lt: "v < ?e" "d < ?e" "v \<noteq> d" using B mem_okD[OF assms(1)] by auto
    have "vector_grow_h v n m = Some ?m"
      using False V(1) B lt
      by (simp add: vector_grow_h_def Let_def realloc_def new_block_eq store_def)
    moreover have "load_vector ?m v = Some (?e, ?W)" using lt by (simp add: load_vector_iff)
    moreover have "vec_rep ?W xs" "n \<le> capacity ?W" using vector_grow_rep[OF V(2)] by auto
    moreover have "mem_ok ?m"
      using lt mem_okD[OF assms(1)] by (auto intro!: mem_okI simp: less_Suc_eq split: if_splits)
    moreover have "dom (blocks ?m) = dom (blocks m) - {d} \<union> {?e}" using B lt by auto
    ultimately show ?thesis by (intro exI[of _ ?m] exI[of _ ?e] exI[of _ ?W]) auto
  qed
qed

lemma vector_add_law:
  assumes "mem_ok m" "read_vector m v = Some (xs, [v, d])"
  shows "\<exists>m' d'. vector_add_h v x m = Some m' \<and> read_vector m' v = Some (xs @ [x], [v, d']) \<and>
    mem_ok m' \<and> fresh m \<le> fresh m' \<and> (d' = d \<or> fresh m \<le> d') \<and>
    dom (blocks m') = dom (blocks m) - {d} \<union> {d'} \<and>
    (\<forall>b. b \<notin> {v, d, d'} \<longrightarrow> blocks m' b = blocks m b)"
proof -
  from assms(2) obtain V0 where V0: "load_vector m v = Some (d, V0)" "vec_rep V0 xs"
    by (auto simp: read_vector_iff)
  obtain m1 d' V where G: "vector_grow_h v (vec_size V0 + 1) m = Some m1"
    "load_vector m1 v = Some (d', V)" "vec_rep V xs" "vec_size V0 + 1 \<le> capacity V"
    "mem_ok m1" "fresh m \<le> fresh m1" "d' = d \<or> fresh m \<le> d'"
    "dom (blocks m1) = dom (blocks m) - {d} \<union> {d'}"
    "\<forall>b. b \<notin> {v, d, d'} \<longrightarrow> blocks m1 b = blocks m b"
    using vector_grow_law[OF assms, of "vec_size V0 + 1"] by (elim exE conjE) (rule that)
  note B = G(2)[unfolded load_vector_iff]
  have sz: "vec_size V = int (length xs)" "vec_size V0 = int (length xs)"
    using G(3) V0(2) by (auto simp: vec_rep_def)
  from vector_add_rep[OF G(3), of x] G(4) sz obtain V' where
    V': "vector_add (Some V) x = Some (Some V')" "vec_rep V' (xs @ [x])" by blast
  have noop: "vector_grow V (vec_size V + 1) = V" using G(4) sz by (simp add: vector_grow_def)
  from V'(1) noop obtain es where es: "arr_set (elements V) (vec_size V) (Some x) = Some es"
    "V' = V\<lparr>elements := es, vec_size := vec_size V + 1\<rparr>"
    by (auto simp: Let_def split: bind_splits)
  let ?m = "m1\<lparr>blocks := (blocks m1)(d' \<mapsto> Slots es, v \<mapsto> VectorB d' (vec_size V + 1) (capacity V))\<rparr>"
  have ne: "v \<noteq> d'" using B by auto
  have "vector_add_h v x m = Some ?m"
    using V0(1) G(1,2) es(1) B ne by (simp add: vector_add_h_def store_def)
  moreover have "read_vector ?m v = Some (xs @ [x], [v, d'])"
    using V'(2) es(2) ne by (auto simp: read_vector_iff load_vector_iff intro!: exI[of _ V'])
  moreover have "mem_ok ?m" using G(5) B by (auto simp: mem_ok_def)
  moreover have "dom (blocks ?m) = dom (blocks m) - {d} \<union> {d'}" using G(8) B by auto
  ultimately show ?thesis using G(6,7,9) by (intro exI[of _ ?m] exI[of _ d']) auto
qed

section \<open>Objects behind pointers\<close>

lemma read_each_Cons:
  "read_each read m (a # as) = Some (xs, F) \<longleftrightarrow>
     (\<exists>x G ys H. read m a = Some (x, G) \<and> read_each read m as = Some (ys, H) \<and> xs = x # ys \<and> F = G @ H)"
  by (auto split: bind_splits)

lemma read_objects_iff:
  "read_objects read m v = Some (xs, F) \<longleftrightarrow>
     (\<exists>as V G. read_vector m v = Some (as, V) \<and> read_each read m as = Some (xs, G) \<and> F = V @ G)"
  by (auto simp: read_objects_def split: bind_splits)

locale owned_object =
  fixes read :: "Memory \<Rightarrow> addr \<Rightarrow> ('x \<times> addr list) option"
    and free_one :: "addr \<Rightarrow> Memory \<Rightarrow> Memory option"
  assumes read_local: "read m a = Some (x, F) \<Longrightarrow> (\<And>b. b \<in> set F \<Longrightarrow> blocks m' b = blocks m b) \<Longrightarrow>
      read m' a = Some (x, F)"
    and read_owns: "read m a = Some (x, F) \<Longrightarrow> set F \<subseteq> dom (blocks m)"
    and free_law: "read m a = Some (x, F) \<Longrightarrow> distinct F \<Longrightarrow> free_one a m = Some (without F m)"
begin

lemma read_each_local:
  assumes "read_each read m as = Some (xs, F)" "\<And>b. b \<in> set F \<Longrightarrow> blocks m' b = blocks m b"
  shows "read_each read m' as = Some (xs, F)"
  using assms
proof (induction as arbitrary: xs F)
  case (Cons a as)
  from Cons.prems(1) obtain x G ys H where R: "read m a = Some (x, G)"
    "read_each read m as = Some (ys, H)" "xs = x # ys" "F = G @ H"
    unfolding read_each_Cons by blast
  have "read m' a = Some (x, G)" by (rule read_local[OF R(1)]) (simp add: Cons.prems(2) R(4))
  moreover have "read_each read m' as = Some (ys, H)"
    by (rule Cons.IH[OF R(2)]) (simp add: Cons.prems(2) R(4))
  ultimately show ?case by (simp add: R)
qed simp

lemma read_each_owns: "read_each read m as = Some (xs, F) \<Longrightarrow> set F \<subseteq> dom (blocks m)"
proof (induction as arbitrary: xs F)
  case (Cons a as)
  then obtain x G ys H where R: "read m a = Some (x, G)"
    "read_each read m as = Some (ys, H)" "F = G @ H"
    unfolding read_each_Cons by blast
  with read_owns[OF R(1)] Cons.IH[OF R(2)] show ?case by simp
qed simp

lemma read_objects_local:
  assumes "read_objects read m v = Some (xs, F)" "\<And>b. b \<in> set F \<Longrightarrow> blocks m' b = blocks m b"
  shows "read_objects read m' v = Some (xs, F)"
proof -
  from assms(1) obtain as V G where R: "read_vector m v = Some (as, V)"
    "read_each read m as = Some (xs, G)" "F = V @ G"
    by (auto simp: read_objects_iff)
  have "read_vector m' v = Some (as, V)" by (rule read_vector_cong[OF R(1)]) (simp add: assms(2) R(3))
  moreover have "read_each read m' as = Some (xs, G)"
    by (rule read_each_local[OF R(2)]) (simp add: assms(2) R(3))
  ultimately show ?thesis by (auto simp: R(3) read_objects_iff)
qed

lemma read_objects_owns: "read_objects read m v = Some (xs, F) \<Longrightarrow> set F \<subseteq> dom (blocks m)"
  using read_each_owns read_vector_own(1) by (fastforce simp: read_objects_iff)

text \<open>The loop releases exactly the blocks of the elements that are still to come.\<close>

lemma release_loop_law:
  assumes "read_vector m v = Some (as, V)" "read_each read m (drop i as) = Some (xs, F)"
    and "distinct F" "set F \<inter> set V = {}" "i \<le> length as"
  shows "release_loop free_one v (int i) m = Some (without F m)"
  using assms
proof (induction "length as - i" arbitrary: i m xs F)
  case 0
  then show ?case
    by (subst release_loop.simps) (simp add: read_vector_access[OF 0(2)] memory_simps)
next
  case (Suc n)
  then have i: "i < length as" "drop i as = as ! i # drop (Suc i) as"
    by (auto simp: Cons_nth_drop_Suc)
  with Suc.prems(2) obtain x G ys H where R: "read m (as ! i) = Some (x, G)"
    "read_each read m (drop (Suc i) as) = Some (ys, H)" "xs = x # ys" "F = G @ H"
    by (auto split: bind_splits)
  have fr: "free_one (as ! i) m = Some (without G m)" using R Suc.prems(3) by (auto intro: free_law)
  have "release_loop free_one v (int (Suc i)) (without G m) = Some (without H (without G m))"
  proof (rule Suc.hyps(1))
    show "read_vector (without G m) v = Some (as, V)"
      by (rule read_vector_cong[OF Suc.prems(1)]) (use Suc.prems(4) R in \<open>auto simp: memory_simps\<close>)
    show "read_each read (without G m) (drop (Suc i) as) = Some (ys, H)"
      by (rule read_each_local[OF R(2)]) (use Suc.prems(3) R in \<open>auto simp: memory_simps\<close>)
  qed (use Suc R i in auto)
  then show ?case
    using i(1) R(4) fr read_vector_access[OF Suc.prems(1)]
    by (subst release_loop.simps) (simp add: memory_simps add.commute)
qed

lemma free_objects_law:
  assumes "read_objects read m v = Some (xs, F)" "distinct F"
  shows "free_objects free_one v m = Some (without F m)"
proof -
  from assms(1) obtain as V G where R: "read_vector m v = Some (as, V)"
    "read_each read m as = Some (xs, G)" "F = V @ G"
    by (auto simp: read_objects_def split: bind_splits)
  have loop: "release_loop free_one v (int 0) m = Some (without G m)"
    by (rule release_loop_law[OF R(1), of 0]) (use R assms(2) in auto)
  have "read_vector (without G m) v = Some (as, V)"
    by (rule read_vector_cong[OF R(1)]) (use R assms(2) in \<open>auto simp: memory_simps\<close>)
  from vector_free_law[OF this] loop have "free_objects free_one v m = Some (without (G @ V) m)"
    by (simp add: free_objects_def memory_simps)
  also have "without (G @ V) m = without F m" by (rule without_cong) (auto simp: R(3))
  finally show ?thesis .
qed

text \<open>What later allocations leave as it is.\<close>

lemma read_objects_kept:
  assumes "mem_ok m" "read_objects read m v = Some (xs, F)" "adds m G m'"
  shows "read_objects read m' v = Some (xs, F)"
proof (rule read_objects_local[OF assms(2)])
  fix b assume "b \<in> set F"
  then have "b < fresh m" using read_objects_owns[OF assms(2)] mem_okD[OF assms(1)] by auto
  then show "blocks m' b = blocks m b" by (rule addsD(5)[OF assms(3)])
qed

lemma read_each_snoc:
  "read_each read m as = Some (xs, F) \<Longrightarrow> read m a = Some (x, G) \<Longrightarrow>
     read_each read m (as @ [a]) = Some (xs @ [x], F @ G)"
  by (induction as arbitrary: xs F) (auto split: bind_splits)

text \<open>
  Appending an object built from new blocks to a vector that is new itself; other new
  blocks \<open>E\<close> stay as they are.
\<close>

lemma append_object:
  assumes "mem_ok m0" "adds m0 (E \<union> set H) m" "read_objects read m dup = Some (zs, H)" "distinct H"
    and "E \<inter> set H = {}" and "adds m (set G) m1" "read m1 c = Some (y, G)" "distinct G"
  shows "\<exists>m2 K. vector_add_h dup c m1 = Some m2 \<and> read_objects read m2 dup = Some (zs @ [y], K) \<and>
    distinct K \<and> E \<inter> set K = {} \<and> adds m0 (E \<union> set K) m2 \<and> (\<forall>b \<in> E. blocks m2 b = blocks m b)"
proof -
  note A = adds_trans[OF assms(2,6)] adds_fresh[OF assms(2,6)]
  have "read_objects read m1 dup = Some (zs, H)"
    by (rule read_objects_kept[OF addsD(1)[OF assms(2)] assms(3,6)])
  then obtain ds d F where R: "read_vector m1 dup = Some (ds, [dup, d])"
    "read_each read m1 ds = Some (zs, F)" "H = [dup, d] @ F"
    using read_vector_own(3) by (fastforce simp: read_objects_def split: bind_splits)
  obtain m2 d' where V: "vector_add_h dup c m1 = Some m2" "read_vector m2 dup = Some (ds @ [c], [dup, d'])"
    "mem_ok m2" "fresh m1 \<le> fresh m2" "d' = d \<or> fresh m1 \<le> d'"
    "dom (blocks m2) = dom (blocks m1) - {d} \<union> {d'}" "\<forall>b. b \<notin> {dup, d, d'} \<longrightarrow> blocks m2 b = blocks m1 b"
    using vector_add_law[OF addsD(1)[OF assms(6)] R(1), of c] by (elim exE conjE) (rule that)
  let ?X = "E \<union> set F \<union> set G \<union> {dup}"
  have old: "b < fresh m1" and new: "fresh m0 \<le> b" if "b \<in> insert d ?X" for b
    using that addsD(1,3,4)[OF A(1)] R(3) by (auto simp: mem_ok_def)
  have d: "d \<notin> ?X" "d \<notin> dom (blocks m0)"
    using A(2) assms(4,5) R(3) new[of d] fresh_free[OF assms(1), of d] by auto
  have d': "d' \<notin> ?X" using V(5) old[of d'] d(1) by auto
  have d0: "fresh m0 \<le> d'" using V(5) new[of d] addsD(2)[OF A(1)] by auto
  have same: "blocks m2 b = blocks m1 b" if "b \<in> ?X - {dup}" for b using that V(7) d(1) d' by auto
  let ?K = "[dup, d'] @ F @ G"
  have "read_each read m2 (ds @ [c]) = Some (zs @ [y], F @ G)"
    by (rule read_each_local[OF read_each_snoc[OF R(2) assms(7)]])
      (use same A(2) assms(4) R(3) in auto)
  with V(2) have "read_objects read m2 dup = Some (zs @ [y], ?K)" by (simp add: read_objects_def)
  moreover have "distinct ?K" "E \<inter> set ?K = {}" using d' assms(4,5,8) A(2) R(3) by auto
  moreover have "adds m0 (E \<union> set ?K) m2"
  proof -
    have "dom (blocks m2) = dom (blocks m0) \<union> (E \<union> set ?K)"
      using V(6) addsD(4)[OF A(1)] R(3) d by auto
    moreover have "blocks m2 a = blocks m0 a" if "a < fresh m0" for a
      using that addsD(5)[OF A(1)] V(7) new[of dup] new[of d] d0 by fastforce
    ultimately show ?thesis using V(3,4) addsD(2)[OF A(1)] new d0 by (auto simp: adds_def)
  qed
  moreover have "\<forall>b \<in> E. blocks m2 b = blocks m b"
  proof
    fix b assume b: "b \<in> E"
    then have "b < fresh m" using addsD(1,4)[OF assms(2)] by (auto simp: mem_ok_def)
    with same[of b] b assms(5) R(3) show "blocks m2 b = blocks m b" by (auto simp: addsD(5)[OF assms(6)])
  qed
  ultimately show ?thesis using V(1) by blast
qed

lemma read_kept:
  assumes "mem_ok m" "read m a = Some (x, F)" "adds m G m'"
  shows "read m' a = Some (x, F)"
proof (rule read_local[OF assms(2)])
  fix b assume "b \<in> set F"
  then have "b < fresh m" using read_owns[OF assms(2)] mem_okD[OF assms(1)] by auto
  then show "blocks m' b = blocks m b" by (rule addsD(5)[OF assms(3)])
qed

lemma read_vector_kept:
  assumes "mem_ok m" "read_vector m v = Some (as, V)" "adds m G m'"
  shows "read_vector m' v = Some (as, V)"
proof (rule read_vector_cong[OF assms(2)])
  fix b assume "b \<in> set V"
  then have "b < fresh m" using read_vector_own(1)[OF assms(2)] mem_okD[OF assms(1)] by auto
  then show "blocks m' b = blocks m b" by (rule addsD(5)[OF assms(3)])
qed

lemma read_each_nth:
  assumes "read_each read m as = Some (xs, F)"
  shows "length xs = length as" "i < length as \<Longrightarrow> \<exists>G. read m (as ! i) = Some (xs ! i, G)"
proof -
  have "length xs = length as \<and> (\<forall>i < length as. \<exists>G. read m (as ! i) = Some (xs ! i, G))"
    using assms
  proof (induction as arbitrary: xs F)
    case (Cons a as)
    from Cons.prems obtain x G ys H where R: "read m a = Some (x, G)"
      "read_each read m as = Some (ys, H)" "xs = x # ys"
      unfolding read_each_Cons by blast
    with Cons.IH[OF R(2)] show ?case by (auto simp: nth_Cons split: nat.split)
  qed simp
  then show "length xs = length as" "i < length as \<Longrightarrow> \<exists>G. read m (as ! i) = Some (xs ! i, G)"
    by auto
qed

end

text \<open>
  A deep copy: the copy is built from new blocks only, and the value it holds is the one
  \<open>copy\<close> gives for the source.
\<close>

locale copied_object = owned_object +
  fixes clone_one :: "addr \<Rightarrow> Memory \<Rightarrow> (addr \<times> Memory) option"
    and copy :: "'a \<Rightarrow> 'a option"
  assumes clone_law: "mem_ok m \<Longrightarrow> read m a = Some (x, F) \<Longrightarrow> copy x = Some y \<Longrightarrow>
      \<exists>a' m' G. clone_one a m = Some (a', m') \<and> read m' a' = Some (y, G) \<and> distinct G \<and>
        adds m (set G) m'"
begin

lemma clone_loop_law:
  assumes src: "mem_ok m0" "read_vector m0 src = Some (as, V)" "read_each read m0 as = Some (xs, F)"
  shows "adds m0 (set H) m \<Longrightarrow> read_objects read m dup = Some (zs, H) \<Longrightarrow> distinct H \<Longrightarrow>
    i \<le> length as \<Longrightarrow> those (map copy (drop i xs)) = Some ys \<Longrightarrow>
    \<exists>m' K. clone_loop clone_one src dup (int i) m = Some m' \<and>
      read_objects read m' dup = Some (zs @ ys, K) \<and> distinct K \<and> adds m0 (set K) m'"
proof (induction "length as - i" arbitrary: i m zs ys H)
  case 0
  note V = read_vector_kept[OF src(1,2) 0(2)]
  have "ys = []" using 0 read_each_nth(1)[OF src(3)] by simp
  with 0 show ?case
    by (subst clone_loop.simps) (auto simp: read_vector_access(1)[OF V])
next
  case (Suc n)
  note V = read_vector_kept[OF src(1,2) Suc.prems(1)] and N = read_each_nth[OF src(3)]
  from Suc(2) have i: "i < length as" by simp
  then have dr: "drop i xs = xs ! i # drop (Suc i) xs" by (simp add: N(1) Cons_nth_drop_Suc)
  with Suc.prems(5) obtain y ys' where y: "copy (xs ! i) = Some y"
    "those (map copy (drop (Suc i) xs)) = Some ys'" "ys = y # ys'"
    by (auto split: option.splits)
  from N(2)[OF i] obtain G0 where "read m0 (as ! i) = Some (xs ! i, G0)" by blast
  from read_kept[OF src(1) this Suc.prems(1)] have rd: "read m (as ! i) = Some (xs ! i, G0)" .
  from clone_law[OF addsD(1)[OF Suc.prems(1)] rd y(1)] obtain c m1 G where C:
    "clone_one (as ! i) m = Some (c, m1)" "read m1 c = Some (y, G)" "distinct G" "adds m (set G) m1"
    by (elim exE conjE) (rule that)
  from append_object[of m0 "{}", unfolded Un_empty_left, OF src(1) Suc.prems(1-3) _ C(4,2,3)]
  obtain m2 K where A: "vector_add_h dup c m1 = Some m2"
    "read_objects read m2 dup = Some (zs @ [y], K)" "distinct K" "adds m0 (set K) m2" by blast
  have "n = length as - Suc i" "Suc i \<le> length as" using Suc(2) by auto
  from Suc.hyps(1)[OF this(1) A(4,2,3) this(2) y(2)] obtain m' L where
    "clone_loop clone_one src dup (int (Suc i)) m2 = Some m'"
    "read_objects read m' dup = Some ((zs @ [y]) @ ys', L)" "distinct L" "adds m0 (set L) m'"
    by (elim exE conjE) (rule that)
  with C(1) A(1) y(3) i show ?case
    by (subst clone_loop.simps) (auto simp: read_vector_access[OF V] add.commute)
qed

lemma clone_into_law:
  assumes "mem_ok m" "read_objects read m v = Some (xs, F)" "those (map copy xs) = Some ys"
  shows "\<exists>v' m' G. clone_into c clone_one v m = Some (v', m') \<and>
    read_objects read m' v' = Some (ys, G) \<and> distinct G \<and> adds m (set G) m'"
proof -
  from assms(2) obtain as V H where R: "read_vector m v = Some (as, V)"
    "read_each read m as = Some (xs, H)" by (auto simp: read_objects_iff)
  obtain d e m1 where C: "vector_create_h c m = Some (d, m1)"
    "read_vector m1 d = Some ([], [d, e])" "d \<noteq> e" "adds m {d, e} m1"
    using vector_create_law[OF assms(1), of c] by (elim exE conjE) (rule that)
  have "read_objects read m1 d = Some ([], [d, e])" using C(2) by (simp add: read_objects_def)
  from clone_loop_law[OF assms(1) R, of "[d, e]" m1 d "[]" 0 ys] this C(3,4) assms(3)
  show ?thesis
    using C(1) by (auto simp: clone_into_def)
qed

lemma clone_objects_law:
  assumes "mem_ok m" "read_objects read m v = Some (xs, F)" "those (map copy xs) = Some ys"
  shows "\<exists>v' m' G. clone_objects clone_one v m = Some (v', m') \<and>
    read_objects read m' v' = Some (ys, G) \<and> distinct G \<and> adds m (set G) m'"
proof -
  from assms(2) obtain as V where "read_vector m v = Some (as, V)" by (auto simp: read_objects_iff)
  with clone_into_law[OF assms] read_vector_access(1) show ?thesis by (simp add: clone_objects_def)
qed

end

text \<open>A vector of owned objects is an owned object, and it is copied element by element.\<close>

locale copied_vector = copied_object

sublocale copied_vector \<subseteq> vectors: copied_object "read_objects read" "free_objects free_one"
  "clone_objects clone_one" "\<lambda>xs. those (map copy xs)"
proof
  show "read_objects read m a = Some (x, F) \<Longrightarrow> (\<And>b. b \<in> set F \<Longrightarrow> blocks m' b = blocks m b) \<Longrightarrow>
      read_objects read m' a = Some (x, F)" for m m' a x F
    by (rule read_objects_local)
  show "read_objects read m a = Some (x, F) \<Longrightarrow> set F \<subseteq> dom (blocks m)" for m a x F
    by (rule read_objects_owns)
  show "read_objects read m a = Some (x, F) \<Longrightarrow> distinct F \<Longrightarrow>
      free_objects free_one a m = Some (without F m)" for m a x F
    by (rule free_objects_law)
  show "mem_ok m \<Longrightarrow> read_objects read m a = Some (x, F) \<Longrightarrow> those (map copy x) = Some y \<Longrightarrow>
      \<exists>a' m' G. clone_objects clone_one a m = Some (a', m') \<and> read_objects read m' a' = Some (y, G) \<and>
        distinct G \<and> adds m (set G) m'" for m a x F y
    by (rule clone_objects_law)
qed

end
