(* ===== verification/Packet_Memory.thy ===== *)
theory Packet_Memory
  imports Heap_Memory Dns_Resolver
begin

text \<open>
  The packets of \<^verbatim>\<open>src/dns/dns_resolver.c\<close> on the heap of \<open>Heap_Memory\<close>: every
  structure is a block, every pointer an address, and the functions that create, copy and
  release packets are the sequences of allocations, writes and releases the sources
  perform. \<open>Dns_Packet\<close> and \<open>Dns_Resolver\<close> model the same functions on packets as
  values; the laws here say that each of them computes that value, which blocks the new
  packet owns, and which blocks nobody owns any more.
\<close>

section \<open>Operations\<close>

definition rr_create_h :: "Memory \<Rightarrow> (addr \<times> Memory) option" where
  "rr_create_h m = new_block (RecordB \<lparr>r_name = None, r_type = None, r_class = None, r_ttl = None,
     r_length = 0, r_data = None\<rparr>) m"

definition rr_free_h :: "addr \<Rightarrow> Memory \<Rightarrow> Memory option" where
  "rr_free_h rr m = do {
     r \<leftarrow> load_record m rr;
     m1 \<leftarrow> mem_free (r_name r) m;
     r1 \<leftarrow> load_record m1 rr;
     m2 \<leftarrow> mem_free (r_data r1) m1;
     mem_free (Some rr) m2 }"

definition question_create_h :: "Memory \<Rightarrow> (addr \<times> Memory) option" where
  "question_create_h m = new_block (QuestionB \<lparr>q_name = None, q_type = None, q_class = None\<rparr>) m"

definition question_free_h :: "addr \<Rightarrow> Memory \<Rightarrow> Memory option" where
  "question_free_h q m = do {
     s \<leftarrow> load_question m q;
     m1 \<leftarrow> mem_free (q_name s) m;
     mem_free (Some q) m1 }"

definition questions_free_h :: "addr \<Rightarrow> Memory \<Rightarrow> Memory option" where
  "questions_free_h v m = free_objects question_free_h v m"

definition free_rrs_h :: "addr \<Rightarrow> Memory \<Rightarrow> Memory option" where
  "free_rrs_h v m = free_objects rr_free_h v m"

definition pack_free_h :: "addr \<Rightarrow> Memory \<Rightarrow> Memory option" where
  "pack_free_h a m = do {
     p \<leftarrow> load_packet m a;
     m1 \<leftarrow> questions_free_h (p_questions p) m;
     p1 \<leftarrow> load_packet m1 a;
     m2 \<leftarrow> free_rrs_h (p_rrs p1) m1;
     mem_free (Some a) m2 }"

definition question_clone_h :: "addr \<Rightarrow> Memory \<Rightarrow> (addr \<times> Memory) option" where
  "question_clone_h orig m = do {
     (q, m1) \<leftarrow> question_create_h m;
     s \<leftarrow> load_question m1 orig;
     (n, m2) \<leftarrow> strdup (q_name s) m1;
     m3 \<leftarrow> store q (QuestionB \<lparr>q_name = Some n, q_type = q_type s, q_class = q_class s\<rparr>) m2;
     Some (q, m3) }"

definition questions_clone_h :: "addr \<Rightarrow> Memory \<Rightarrow> (addr \<times> Memory) option" where
  "questions_clone_h v m = clone_objects question_clone_h v m"

definition pack_create_h :: "Memory \<Rightarrow> (addr \<times> Memory) option" where
  "pack_create_h m =
     (let (a, m1) = malloc m
      in do {
        (q, m2) \<leftarrow> vector_create_h 5 m1;
        (r, m3) \<leftarrow> vector_create_h 5 m2;
        m4 \<leftarrow> store a (PacketB \<lparr>p_header = header pack_create, p_questions = q, p_rrs = r\<rparr>) m3;
        Some (a, m4) })"

text \<open>The two ways to copy a record: \<open>rr_clone\<close>, and the body of the loop of \<open>rrs_clone\<close>.\<close>

definition data_clone_h :: "record_struct \<Rightarrow> Memory \<Rightarrow> (addr \<times> Memory) option" where
  "data_clone_h r m = do {
     d \<leftarrow> r_data r;
     bs \<leftarrow> load_bytes m d;
     copy \<leftarrow> arr_read bs 0 (unat (r_length r));
     new_block (Bytes copy) m }"

definition rr_clone_h :: "addr \<Rightarrow> Memory \<Rightarrow> (addr \<times> Memory) option" where
  "rr_clone_h record m = do {
     (c, m1) \<leftarrow> rr_create_h m;
     r \<leftarrow> load_record m1 record;
     (n, m2) \<leftarrow> strdup (r_name r) m1;
     (d, m3) \<leftarrow> data_clone_h r m2;
     m4 \<leftarrow> store c (RecordB \<lparr>r_name = Some n, r_type = r_type r, r_class = r_class r, r_ttl = r_ttl r,
       r_length = r_length r, r_data = Some d\<rparr>) m3;
     Some (c, m4) }"

definition rr_dup_h :: "addr \<Rightarrow> Memory \<Rightarrow> (addr \<times> Memory) option" where
  "rr_dup_h src m =
     (let (item, m0) = malloc m
      in do {
        r \<leftarrow> load_record m0 src;
        m1 \<leftarrow> store item (RecordB r) m0;
        (n, m2) \<leftarrow> strdup (r_name r) m1;
        (d, m3) \<leftarrow> data_clone_h r m2;
        m4 \<leftarrow> store item (RecordB (r\<lparr>r_name := Some n, r_data := Some d\<rparr>)) m3;
        Some (item, m4) })"

definition rrs_clone_h :: "addr \<Rightarrow> Memory \<Rightarrow> (addr \<times> Memory) option" where
  "rrs_clone_h v m = clone_objects rr_dup_h v m"

text \<open>An assignment to fields of the structure of a packet.\<close>

definition set_packet :: "addr \<Rightarrow> (packet_struct \<Rightarrow> packet_struct) \<Rightarrow> Memory \<Rightarrow> Memory option" where
  "set_packet a f m = do { p \<leftarrow> load_packet m a; store a (PacketB (f p)) m }"

definition packet_clone_h :: "addr \<Rightarrow> Memory \<Rightarrow> (addr \<times> Memory) option" where
  "packet_clone_h source m = do {
     (a, m1) \<leftarrow> pack_create_h m;
     s \<leftarrow> load_packet m1 source;
     m2 \<leftarrow> set_packet a (\<lambda>p. p\<lparr>p_header := p_header s\<rparr>) m1;
     (qs, m3) \<leftarrow> questions_clone_h (p_questions s) m2;
     m4 \<leftarrow> set_packet a (\<lambda>p. p\<lparr>p_questions := qs\<rparr>) m3;
     (rs, m5) \<leftarrow> rrs_clone_h (p_rrs s) m4;
     m6 \<leftarrow> set_packet a (\<lambda>p. p\<lparr>p_rrs := rs\<rparr>) m5;
     Some (a, m6) }"

definition set_header :: "addr \<Rightarrow> (DnsPacket \<Rightarrow> DnsPacket) \<Rightarrow> Memory \<Rightarrow> Memory option" where
  "set_header a f m =
     set_packet a (\<lambda>p. p\<lparr>p_header := header (f (pack_create\<lparr>header := p_header p\<rparr>))\<rparr>) m"

definition pack_make_query_relay_h :: "addr \<Rightarrow> uint16_t \<Rightarrow> Memory \<Rightarrow> (addr \<times> Memory) option" where
  "pack_make_query_relay_h query relay_id m = do {
     (a, m1) \<leftarrow> packet_clone_h query m;
     m2 \<leftarrow> set_packet a (\<lambda>p. p\<lparr>p_header := (p_header p)\<lparr>hdr_id := relay_id\<rparr>\<rparr>) m1;
     Some (a, m2) }"

text \<open>
  The header of an answer without records is the one of \<open>make_response_empty\<close> in
  \<open>Dns_Resolver\<close>, which is a function of the header of the query.
\<close>

definition make_response_empty_h :: "addr \<Rightarrow> Memory \<Rightarrow> (addr \<times> Memory) option" where
  "make_response_empty_h query m = do {
     (a, m1) \<leftarrow> pack_create_h m;
     s \<leftarrow> load_packet m1 query;
     m2 \<leftarrow> set_packet a (\<lambda>p. p\<lparr>p_header := header (make_response_empty (pack_create\<lparr>header := p_header s\<rparr>))\<rparr>) m1;
     (qs, m3) \<leftarrow> questions_clone_h (p_questions s) m2;
     m4 \<leftarrow> set_packet a (\<lambda>p. p\<lparr>p_questions := qs\<rparr>) m3;
     Some (a, m4) }"

definition make_response_fail_h :: "addr \<Rightarrow> Rcode \<Rightarrow> Memory \<Rightarrow> (addr \<times> Memory) option" where
  "make_response_fail_h query rcode m = do {
     (a, m1) \<leftarrow> make_response_empty_h query m;
     m2 \<leftarrow> set_header a (\<lambda>p. setRcode p rcode) m1;
     Some (a, m2) }"

text \<open>A value of the cache with its vector of records.\<close>

record value_struct =
  v_answer :: uint16_t
  v_authority :: uint16_t
  v_additional :: uint16_t
  v_rrs :: "addr option"

definition pack_make_std_response_local_h :: "addr \<Rightarrow> value_struct \<Rightarrow> Memory \<Rightarrow> (addr \<times> Memory) option" where
  "pack_make_std_response_local_h query cache m = do {
     (a, m1) \<leftarrow> make_response_empty_h query m;
     m2 \<leftarrow> set_packet a (\<lambda>p. p\<lparr>p_header := (p_header p)\<lparr>answer_RRs := v_answer cache,
       authority_RRs := v_authority cache, additional_RRs := v_additional cache\<rparr>\<rparr>) m1;
     (rs, m3) \<leftarrow> (case v_rrs cache of None \<Rightarrow> vector_create_h 0 m2 | Some v \<Rightarrow> rrs_clone_h v m2);
     m4 \<leftarrow> set_packet a (\<lambda>p. p\<lparr>p_rrs := rs\<rparr>) m3;
     Some (a, m4) }"

text \<open>Copying and releasing a value of the cache (\<^verbatim>\<open>src/dns/dns_cache.c\<close>).\<close>

definition cache_value_clone_h :: "value_struct \<Rightarrow> Memory \<Rightarrow> (value_struct \<times> Memory) option" where
  "cache_value_clone_h src m = do {
     (d, m1) \<leftarrow> (case v_rrs src of
         None \<Rightarrow> vector_create_h 4 m
       | Some v \<Rightarrow> do { n \<leftarrow> vector_size_h m v; clone_into (if 0 < n then n else 4) rr_clone_h v m });
     Some (src\<lparr>v_rrs := Some d\<rparr>, m1) }"

definition free_cache_value_h :: "value_struct \<Rightarrow> Memory \<Rightarrow> (value_struct \<times> Memory) option" where
  "free_cache_value_h value m =
     (case v_rrs value of
        None \<Rightarrow> Some (value, m)
      | Some v \<Rightarrow> do {
          m1 \<leftarrow> free_objects rr_free_h v m;
          Some (\<lparr>v_answer = 0, v_authority = 0, v_additional = 0, v_rrs = None\<rparr>, m1) })"

section \<open>Packets in memory\<close>

definition read_question :: "Memory \<Rightarrow> addr \<Rightarrow> (SectionQuestion \<times> addr list) option" where
  "read_question m a = do {
     q \<leftarrow> load_question m a;
     n \<leftarrow> q_name q;
     s \<leftarrow> load_cstr m n;
     t \<leftarrow> q_type q;
     c \<leftarrow> q_class q;
     Some (\<lparr>qname = s, qtype = t, qclass = c\<rparr>, [a, n]) }"

definition read_rr :: "Memory \<Rightarrow> addr \<Rightarrow> (ResourceRecord \<times> addr list) option" where
  "read_rr m a = do {
     r \<leftarrow> load_record m a;
     n \<leftarrow> r_name r;
     s \<leftarrow> load_cstr m n;
     t \<leftarrow> r_type r;
     c \<leftarrow> r_class r;
     l \<leftarrow> r_ttl r;
     d \<leftarrow> r_data r;
     bs \<leftarrow> load_bytes m d;
     Some (\<lparr>rr_name = s, rr_type = t, rr_class = c, ttl = l, rdata_length = r_length r, rdata = bs\<rparr>,
       [a, n, d]) }"

definition read_packet :: "Memory \<Rightarrow> addr \<Rightarrow> (DnsPacket \<times> addr list) option" where
  "read_packet m a = do {
     p \<leftarrow> load_packet m a;
     (qs, Q) \<leftarrow> read_objects read_question m (p_questions p);
     (rs, R) \<leftarrow> read_objects read_rr m (p_rrs p);
     Some (\<lparr>header = p_header p, questions = qs, rrs = rs\<rparr>, a # Q @ R) }"

section \<open>Questions and records\<close>

lemma load_cstr_iff:
  "load_cstr m a = Some s \<longleftrightarrow>
     (\<exists>bs. blocks m a = Some (Bytes bs) \<and> 0 \<in> set bs \<and> s = takeWhile (\<lambda>b. b \<noteq> 0) bs)"
  by (auto simp: load_cstr_def load_bytes_def split: option.splits Block.splits if_splits)

lemma load_bytes_iff: "load_bytes m a = Some bs \<longleftrightarrow> blocks m a = Some (Bytes bs)"
  by (auto simp: load_bytes_def split: option.splits Block.splits)

lemma load_question_iff: "load_question m a = Some q \<longleftrightarrow> blocks m a = Some (QuestionB q)"
  by (auto simp: load_question_def split: option.splits Block.splits)

lemma load_record_iff: "load_record m a = Some r \<longleftrightarrow> blocks m a = Some (RecordB r)"
  by (auto simp: load_record_def split: option.splits Block.splits)

lemma load_packet_iff: "load_packet m a = Some p \<longleftrightarrow> blocks m a = Some (PacketB p)"
  by (auto simp: load_packet_def split: option.splits Block.splits)

lemmas load_iffs = load_cstr_iff load_bytes_iff load_question_iff load_record_iff load_packet_iff

lemma read_question_iff:
  "read_question m a = Some (x, F) \<longleftrightarrow>
     (\<exists>n. blocks m a = Some (QuestionB \<lparr>q_name = Some n, q_type = Some (qtype x), q_class = Some (qclass x)\<rparr>) \<and>
        load_cstr m n = Some (qname x) \<and> F = [a, n])"
  (is "?l \<longleftrightarrow> ?r")
proof
  assume ?l
  then show ?r by (auto simp: read_question_def load_question_iff split: bind_splits)
next
  assume ?r
  then show ?l by (auto simp: read_question_def load_question_def)
qed

lemma read_rr_iff:
  "read_rr m a = Some (x, F) \<longleftrightarrow>
     (\<exists>n d. blocks m a = Some (RecordB \<lparr>r_name = Some n, r_type = Some (rr_type x),
          r_class = Some (rr_class x), r_ttl = Some (ttl x), r_length = rdata_length x, r_data = Some d\<rparr>) \<and>
        load_cstr m n = Some (rr_name x) \<and> blocks m d = Some (Bytes (rdata x)) \<and> F = [a, n, d])"
  (is "?l \<longleftrightarrow> ?r")
proof
  assume ?l
  then show ?r by (auto simp: read_rr_def load_record_iff load_bytes_iff split: bind_splits)
next
  assume ?r
  then show ?l by (auto simp: read_rr_def load_record_def load_bytes_def)
qed

lemma takeWhile_zero: "0 \<notin> set s \<Longrightarrow> takeWhile (\<lambda>b. b \<noteq> 0) (s @ 0 # ws) = (s :: byte list)"
  by (induction s) auto

lemma cstr_no_zero: "load_cstr m a = Some s \<Longrightarrow> 0 \<notin> set s"
  by (auto simp: load_cstr_iff dest: set_takeWhileD)

lemma load_cstr_cong: "blocks m' a = blocks m a \<Longrightarrow> load_cstr m' a = load_cstr m a"
  by (simp add: load_cstr_def load_bytes_def)

lemma load_cstr_block: "0 \<notin> set s \<Longrightarrow> blocks m a = Some (Bytes (s @ [0])) \<Longrightarrow> load_cstr m a = Some s"
  by (auto simp: load_cstr_iff takeWhile_zero)

lemma strdup_eq:
  "load_cstr m a = Some s \<Longrightarrow> blocks m' a = blocks m a \<Longrightarrow>
     strdup (Some a) m' = new_block (Bytes (s @ [0])) m'"
  by (simp add: strdup_def load_cstr_cong[of m' a m])

lemma question_free_law:
  assumes "read_question m a = Some (x, F)" "distinct F"
  shows "question_free_h a m = Some (without F m)"
  using assms
  by (auto simp: read_question_iff question_free_h_def load_question_def load_cstr_iff without_def
      fun_eq_iff intro!: arg_cong[of _ _ "\<lambda>b. m\<lparr>blocks := b\<rparr>"])

lemma rr_free_law:
  assumes "read_rr m a = Some (x, F)" "distinct F"
  shows "rr_free_h a m = Some (without F m)"
  using assms
  by (auto simp: read_rr_iff rr_free_h_def load_record_def load_cstr_iff without_def
      fun_eq_iff intro!: arg_cong[of _ _ "\<lambda>b. m\<lparr>blocks := b\<rparr>"])

lemma question_clone_law:
  assumes "mem_ok m" "read_question m a = Some (x, F)"
  shows "\<exists>a' m' G. question_clone_h a m = Some (a', m') \<and>
    read_question m' a' = Some (question_clone x, G) \<and> distinct G \<and> adds m (set G) m'"
proof -
  from assms(2) obtain n where R:
    "blocks m a = Some (QuestionB \<lparr>q_name = Some n, q_type = Some (qtype x), q_class = Some (qclass x)\<rparr>)"
    "load_cstr m n = Some (qname x)" by (auto simp: read_question_iff)
  let ?q = "fresh m" and ?n = "fresh m + 1"
  let ?m = "\<lparr>blocks = (blocks m)(?q \<mapsto> QuestionB \<lparr>q_name = Some ?n, q_type = Some (qtype x),
    q_class = Some (qclass x)\<rparr>, ?n \<mapsto> Bytes (qname x @ [0])), fresh = fresh m + 2\<rparr>"
  have lt: "a < fresh m" "n < fresh m" using R mem_okD[OF assms(1)] by (auto simp: load_cstr_iff)
  have "question_clone_h a m = Some (?q, ?m)"
    using R(1) lt by (simp add: question_clone_h_def question_create_h_def new_block_eq load_question_def
        strdup_eq[OF R(2)] store_def fun_upd_twist)
  moreover have "read_question ?m ?q = Some (question_clone x, [?q, ?n])"
    using cstr_no_zero[OF R(2)]
    by (auto simp: read_question_iff question_clone_def intro: load_cstr_block)
  moreover have "adds m (set [?q, ?n]) ?m"
    by (auto simp: adds_def less_Suc_eq intro!: mem_okI dest: mem_okD[OF assms(1)] split: if_splits)
  ultimately show ?thesis by (intro exI[of _ ?q] exI[of _ ?m] exI[of _ "[?q, ?n]"]) auto
qed

text \<open>
  Both ways to copy a record end in the same memory: three new blocks, for the structure,
  the name and the data.
\<close>

definition copied_record :: "ResourceRecord \<Rightarrow> Memory \<Rightarrow> Memory" where
  "copied_record y m = \<lparr>blocks = (blocks m)(
     fresh m \<mapsto> RecordB \<lparr>r_name = Some (fresh m + 1), r_type = Some (rr_type y),
       r_class = Some (rr_class y), r_ttl = Some (ttl y), r_length = rdata_length y,
       r_data = Some (fresh m + 2)\<rparr>,
     fresh m + 1 \<mapsto> Bytes (rr_name y @ [0]), fresh m + 2 \<mapsto> Bytes (rdata y)), fresh = fresh m + 3\<rparr>"

lemma copied_record_law:
  assumes "mem_ok m" "0 \<notin> set (rr_name y)"
  shows "\<exists>G. read_rr (copied_record y m) (fresh m) = Some (y, G) \<and> distinct G \<and>
    adds m (set G) (copied_record y m)"
proof (intro exI conjI)
  show "read_rr (copied_record y m) (fresh m) = Some (y, [fresh m, fresh m + 1, fresh m + 2])"
    using assms(2) by (auto simp: read_rr_iff copied_record_def intro: load_cstr_block)
  show "adds m (set [fresh m, fresh m + 1, fresh m + 2]) (copied_record y m)"
    by (auto simp: adds_def less_Suc_eq copied_record_def eval_nat_numeral intro!: mem_okI dest: mem_okD[OF assms(1)]
        split: if_splits)
qed simp

lemma rr_source:
  assumes "mem_ok m" "read_rr m a = Some (x, F)" "rr_clone x = Some y"
  obtains n d where "blocks m a = Some (RecordB \<lparr>r_name = Some n, r_type = Some (rr_type y),
      r_class = Some (rr_class y), r_ttl = Some (ttl y), r_length = rdata_length y, r_data = Some d\<rparr>)"
    "load_cstr m n = Some (rr_name y)" "blocks m d = Some (Bytes (rdata x))"
    "arr_read (rdata x) 0 (unat (rdata_length y)) = Some (rdata y)"
    "a < fresh m" "n < fresh m" "d < fresh m"
proof -
  have y: "rr_name y = rr_name x" "rr_type y = rr_type x" "rr_class y = rr_class x" "ttl y = ttl x"
    "rdata_length y = rdata_length x" "arr_read (rdata x) 0 (unat (rdata_length x)) = Some (rdata y)"
    using assms(3) by (auto simp: rr_clone_def split: bind_splits)
  from assms(2) obtain n d where R: "blocks m a = Some (RecordB \<lparr>r_name = Some n, r_type = Some (rr_type x),
      r_class = Some (rr_class x), r_ttl = Some (ttl x), r_length = rdata_length x, r_data = Some d\<rparr>)"
    "load_cstr m n = Some (rr_name x)" "blocks m d = Some (Bytes (rdata x))"
    by (auto simp: read_rr_iff)
  show thesis
    by (rule that[of n d]) (use R y mem_okD[OF assms(1)] in \<open>auto simp: load_cstr_iff\<close>)
qed

lemma rr_clone_eq:
  assumes "mem_ok m" "read_rr m a = Some (x, F)" "rr_clone x = Some y"
  shows "rr_clone_h a m = Some (fresh m, copied_record y m)"
proof -
  from assms obtain n d where R: "blocks m a = Some (RecordB \<lparr>r_name = Some n, r_type = Some (rr_type y),
      r_class = Some (rr_class y), r_ttl = Some (ttl y), r_length = rdata_length y, r_data = Some d\<rparr>)"
    "load_cstr m n = Some (rr_name y)" "blocks m d = Some (Bytes (rdata x))"
    "arr_read (rdata x) 0 (unat (rdata_length y)) = Some (rdata y)"
    "a < fresh m" "n < fresh m" "d < fresh m" by (rule rr_source)
  then show ?thesis
    by (simp add: rr_clone_h_def rr_create_h_def new_block_eq load_record_def strdup_eq[OF R(2)]
        data_clone_h_def load_bytes_def store_def copied_record_def)
      (simp add: fun_eq_iff eval_nat_numeral)
qed

lemma rr_dup_eq:
  assumes "mem_ok m" "read_rr m a = Some (x, F)" "rr_clone x = Some y"
  shows "rr_dup_h a m = Some (fresh m, copied_record y m)"
proof -
  from assms obtain n d where R: "blocks m a = Some (RecordB \<lparr>r_name = Some n, r_type = Some (rr_type y),
      r_class = Some (rr_class y), r_ttl = Some (ttl y), r_length = rdata_length y, r_data = Some d\<rparr>)"
    "load_cstr m n = Some (rr_name y)" "blocks m d = Some (Bytes (rdata x))"
    "arr_read (rdata x) 0 (unat (rdata_length y)) = Some (rdata y)"
    "a < fresh m" "n < fresh m" "d < fresh m" by (rule rr_source)
  then show ?thesis
    by (simp add: rr_dup_h_def malloc_def new_block_eq load_record_def strdup_eq[OF R(2)]
        data_clone_h_def load_bytes_def store_def copied_record_def Let_def)
      (simp add: fun_eq_iff eval_nat_numeral)
qed

lemma rr_clone_laws:
  assumes "mem_ok m" "read_rr m a = Some (x, F)" "rr_clone x = Some y"
  shows "\<exists>a' m' G. rr_clone_h a m = Some (a', m') \<and> read_rr m' a' = Some (y, G) \<and> distinct G \<and>
      adds m (set G) m'"
    "\<exists>a' m' G. rr_dup_h a m = Some (a', m') \<and> read_rr m' a' = Some (y, G) \<and> distinct G \<and>
      adds m (set G) m'"
proof -
  have "0 \<notin> set (rr_name y)"
    using assms(2,3) by (auto simp: read_rr_iff rr_clone_def split: bind_splits dest: cstr_no_zero)
  from copied_record_law[OF assms(1) this] rr_clone_eq[OF assms] rr_dup_eq[OF assms]
  show "\<exists>a' m' G. rr_clone_h a m = Some (a', m') \<and> read_rr m' a' = Some (y, G) \<and> distinct G \<and>
      adds m (set G) m'"
    "\<exists>a' m' G. rr_dup_h a m = Some (a', m') \<and> read_rr m' a' = Some (y, G) \<and> distinct G \<and>
      adds m (set G) m'"
    by auto
qed

lemma those_clone:
  "those (map (\<lambda>x. Some (question_clone x)) qs) = Some (questions_clone qs)"
  "those (map rr_clone rs) = rrs_clone rs"
  by (induction qs) (auto simp: questions_clone_def, induction rs, auto split: option.splits bind_splits)

lemma read_question_local:
  assumes "read_question m a = Some (x, F)" "\<And>b. b \<in> set F \<Longrightarrow> blocks m' b = blocks m b"
  shows "read_question m' a = Some (x, F)"
  using assms by (auto simp: read_question_iff load_cstr_iff)

lemma read_rr_local:
  assumes "read_rr m a = Some (x, F)" "\<And>b. b \<in> set F \<Longrightarrow> blocks m' b = blocks m b"
  shows "read_rr m' a = Some (x, F)"
  using assms by (auto simp: read_rr_iff load_cstr_iff)

interpretation question_mem: copied_vector read_question question_free_h question_clone_h
  "\<lambda>x. Some (question_clone x)"
proof
  show "read_question m a = Some (x, F) \<Longrightarrow> (\<And>b. b \<in> set F \<Longrightarrow> blocks m' b = blocks m b) \<Longrightarrow>
      read_question m' a = Some (x, F)" for m m' a x F by (rule read_question_local)
  show "read_question m a = Some (x, F) \<Longrightarrow> set F \<subseteq> dom (blocks m)" for m a x F
    by (auto simp: read_question_iff load_cstr_iff)
  show "read_question m a = Some (x, F) \<Longrightarrow> distinct F \<Longrightarrow> question_free_h a m = Some (without F m)"
    for m a x F by (rule question_free_law)
  show "mem_ok m \<Longrightarrow> read_question m a = Some (x, F) \<Longrightarrow> Some (question_clone x) = Some y \<Longrightarrow>
      \<exists>a' m' G. question_clone_h a m = Some (a', m') \<and> read_question m' a' = Some (y, G) \<and>
        distinct G \<and> adds m (set G) m'" for m a x F y
    using question_clone_law by auto
qed

interpretation rr_mem: copied_vector read_rr rr_free_h rr_dup_h rr_clone
proof
  show "read_rr m a = Some (x, F) \<Longrightarrow> (\<And>b. b \<in> set F \<Longrightarrow> blocks m' b = blocks m b) \<Longrightarrow>
      read_rr m' a = Some (x, F)" for m m' a x F by (rule read_rr_local)
  show "read_rr m a = Some (x, F) \<Longrightarrow> set F \<subseteq> dom (blocks m)" for m a x F
    by (auto simp: read_rr_iff load_cstr_iff)
  show "read_rr m a = Some (x, F) \<Longrightarrow> distinct F \<Longrightarrow> rr_free_h a m = Some (without F m)" for m a x F
    by (rule rr_free_law)
  show "mem_ok m \<Longrightarrow> read_rr m a = Some (x, F) \<Longrightarrow> rr_clone x = Some y \<Longrightarrow>
      \<exists>a' m' G. rr_dup_h a m = Some (a', m') \<and> read_rr m' a' = Some (y, G) \<and>
        distinct G \<and> adds m (set G) m'" for m a x F y
    by (rule rr_clone_laws(2))
qed

interpretation cached_mem: copied_object read_rr rr_free_h rr_clone_h rr_clone
proof
  show "mem_ok m \<Longrightarrow> read_rr m a = Some (x, F) \<Longrightarrow> rr_clone x = Some y \<Longrightarrow>
      \<exists>a' m' G. rr_clone_h a m = Some (a', m') \<and> read_rr m' a' = Some (y, G) \<and>
        distinct G \<and> adds m (set G) m'" for m a x F y
    by (rule rr_clone_laws(1))
qed

section \<open>Packets\<close>

lemma read_packet_iff:
  "read_packet m a = Some (p, F) \<longleftrightarrow>
     (\<exists>q r Q R. load_packet m a = Some \<lparr>p_header = header p, p_questions = q, p_rrs = r\<rparr> \<and>
        read_objects read_question m q = Some (questions p, Q) \<and>
        read_objects read_rr m r = Some (rrs p, R) \<and> F = a # Q @ R)"
  (is "?l \<longleftrightarrow> ?r")
proof
  assume ?l
  then obtain s Q R where "load_packet m a = Some s"
    "read_objects read_question m (p_questions s) = Some (questions p, Q)"
    "read_objects read_rr m (p_rrs s) = Some (rrs p, R)" "F = a # Q @ R" "p_header s = header p"
    unfolding read_packet_def by (auto split: bind_splits)
  then show ?r by (cases s) auto
next
  assume ?r
  then show ?l unfolding read_packet_def by auto
qed

lemma read_packet_local:
  assumes "read_packet m a = Some (p, F)" "\<And>b. b \<in> set F \<Longrightarrow> blocks m' b = blocks m b"
  shows "read_packet m' a = Some (p, F)"
proof -
  from assms(1) obtain q r Q R where R: "load_packet m a = Some \<lparr>p_header = header p, p_questions = q, p_rrs = r\<rparr>"
    "read_objects read_question m q = Some (questions p, Q)"
    "read_objects read_rr m r = Some (rrs p, R)" "F = a # Q @ R" by (auto simp: read_packet_iff)
  have "load_packet m' a = load_packet m a" using assms(2)[of a] R(4) by (simp add: load_packet_def)
  moreover have "read_objects read_question m' q = Some (questions p, Q)"
    by (rule question_mem.read_objects_local[OF R(2)]) (simp add: assms(2) R(4))
  moreover have "read_objects read_rr m' r = Some (rrs p, R)"
    by (rule rr_mem.read_objects_local[OF R(3)]) (simp add: assms(2) R(4))
  ultimately show ?thesis using R by (auto simp: read_packet_iff)
qed

lemma read_packet_owns: "read_packet m a = Some (p, F) \<Longrightarrow> set F \<subseteq> dom (blocks m)"
  using question_mem.read_objects_owns rr_mem.read_objects_owns
  by (fastforce simp: read_packet_iff load_packet_iff)

lemma pack_free_law:
  assumes "read_packet m a = Some (p, F)" "distinct F"
  shows "pack_free_h a m = Some (without F m)"
proof -
  from assms(1) obtain q r Q R where R: "load_packet m a = Some \<lparr>p_header = header p, p_questions = q, p_rrs = r\<rparr>"
    "read_objects read_question m q = Some (questions p, Q)"
    "read_objects read_rr m r = Some (rrs p, R)" "F = a # Q @ R" by (auto simp: read_packet_iff)
  have d: "distinct Q" "distinct R" "a \<notin> set Q" "a \<notin> set R" "set Q \<inter> set R = {}" using assms(2) R(4) by auto
  have q: "questions_free_h q m = Some (without Q m)"
    unfolding questions_free_h_def by (rule question_mem.free_objects_law[OF R(2) d(1)])
  have "read_objects read_rr (without Q m) r = Some (rrs p, R)"
    by (rule rr_mem.read_objects_local[OF R(3)]) (use d in \<open>auto simp: memory_simps\<close>)
  from rr_mem.free_objects_law[OF this d(2)]
  have r: "free_rrs_h r (without Q m) = Some (without (Q @ R) m)"
    by (simp add: free_rrs_h_def memory_simps)
  have b: "blocks (without G m) a = blocks m a" if "a \<notin> set G" for G using that by (simp add: memory_simps)
  have l: "load_packet (without Q m) a = load_packet m a" using b[OF d(3)] by (simp add: load_packet_def)
  have "blocks (without (Q @ R) m) a \<noteq> None" using R(1) b[of "Q @ R"] d by (simp add: load_packet_iff)
  from mem_free_without[OF this]
  have "pack_free_h a m = Some (without ((Q @ R) @ [a]) m)"
    using R(1) q l r by (simp add: pack_free_h_def memory_simps)
  also have "without ((Q @ R) @ [a]) m = without F m" by (rule without_cong) (auto simp: R(4))
  finally show ?thesis .
qed

interpretation packet_mem: owned_object read_packet pack_free_h
  by unfold_locales (rule read_packet_local read_packet_owns pack_free_law; assumption)+

section \<open>Creating and cloning packets\<close>

lemma load_packet_blocks: "blocks m' a = blocks m a \<Longrightarrow> load_packet m' a = load_packet m a"
  by (simp add: load_packet_def)

lemma set_packet_law:
  assumes "adds m F m1" "a \<in> F" "load_packet m1 a = Some p"
  shows "\<exists>m2. set_packet a f m1 = Some m2 \<and> adds m F m2 \<and> load_packet m2 a = Some (f p) \<and>
    (\<forall>b. b \<noteq> a \<longrightarrow> blocks m2 b = blocks m1 b)"
proof -
  have "set_packet a f m1 = store a (PacketB (f p)) m1" using assms(3) by (simp add: set_packet_def)
  with adds_store[OF assms(1,2), of "PacketB (f p)"] show ?thesis by (auto simp: load_packet_iff)
qed

lemma pack_create_law:
  assumes "mem_ok m"
  shows "\<exists>a q e r d m'. pack_create_h m = Some (a, m') \<and> adds m (set [a, q, e, r, d]) m' \<and>
    distinct [a, q, e, r, d] \<and>
    load_packet m' a = Some \<lparr>p_header = header pack_create, p_questions = q, p_rrs = r\<rparr> \<and>
    read_vector m' q = Some ([], [q, e]) \<and> read_vector m' r = Some ([], [r, d])"
proof -
  define a m1 where a: "a = fresh m" and m1: "m1 = snd (malloc m)"
  have M: "malloc m = (a, m1)" "adds m {a} m1"
    using assms by (auto simp: a m1 malloc_def adds_def less_Suc_eq intro!: mem_okI dest: mem_okD split: if_splits)
  obtain q e m2 where Q: "vector_create_h 5 m1 = Some (q, m2)" "read_vector m2 q = Some ([], [q, e])"
    "q \<noteq> e" "adds m1 {q, e} m2"
    using vector_create_law[OF addsD(1)[OF M(2)], of 5] by (elim exE conjE) (rule that)
  obtain r d m3 where R: "vector_create_h 5 m2 = Some (r, m3)" "read_vector m3 r = Some ([], [r, d])"
    "r \<noteq> d" "adds m2 {r, d} m3"
    using vector_create_law[OF addsD(1)[OF Q(4)], of 5] by (elim exE conjE) (rule that)
  note A = adds_trans[OF adds_trans[OF M(2) Q(4)] R(4)]
  have F: "distinct [a, q, e, r, d]"
    using adds_fresh[OF M(2) Q(4)] adds_fresh[OF adds_trans[OF M(2) Q(4)] R(4)] Q(3) R(3) by auto
  let ?p = "PacketB \<lparr>p_header = header pack_create, p_questions = q, p_rrs = r\<rparr>"
  obtain m4 where S: "store a ?p m3 = Some m4" "adds m ({a} \<union> {q, e} \<union> {r, d}) m4"
    "blocks m4 = (blocks m3)(a \<mapsto> ?p)"
    using adds_store[OF A, of a ?p] by auto
  have "read_vector m3 q = Some ([], [q, e])"
    by (rule rr_mem.read_vector_kept[OF addsD(1)[OF Q(4)] Q(2) R(4)])
  then have "read_vector m4 q = Some ([], [q, e])" by (rule read_vector_cong) (use F S(3) in auto)
  moreover have "read_vector m4 r = Some ([], [r, d])" by (rule read_vector_cong[OF R(2)]) (use F S(3) in auto)
  moreover have "load_packet m4 a = Some \<lparr>p_header = header pack_create, p_questions = q, p_rrs = r\<rparr>"
    by (simp add: load_packet_def S(3))
  moreover have "pack_create_h m = Some (a, m4)"
    using M(1) Q(1) R(1) S(1) by (simp add: pack_create_h_def)
  moreover have "adds m (set [a, q, e, r, d]) m4" using S(2) by (simp add: insert_commute)
  ultimately show ?thesis using F
    by (intro exI[of _ a] exI[of _ q] exI[of _ e] exI[of _ r] exI[of _ d] exI[of _ m4]) simp
qed

text \<open>The step all functions share: copy a vector of the source and hang it into the new packet.\<close>

context copied_object begin

lemma attach_law:
  assumes "mem_ok m" "read_objects read m v = Some (xs, X)" "those (map copy xs) = Some ys"
    and "adds m F m1" "a \<in> F" "load_packet m1 a = Some p"
  shows "\<exists>w m2 m3 G. clone_objects clone_one v m1 = Some (w, m2) \<and> set_packet a (f w) m2 = Some m3 \<and>
    adds m (F \<union> set G) m3 \<and> F \<inter> set G = {} \<and> distinct G \<and> load_packet m3 a = Some (f w p) \<and>
    read_objects read m3 w = Some (ys, G) \<and> (\<forall>b \<in> F. b \<noteq> a \<longrightarrow> blocks m3 b = blocks m1 b)"
proof -
  have "read_objects read m1 v = Some (xs, X)" by (rule read_objects_kept[OF assms(1,2,4)])
  from clone_objects_law[OF addsD(1)[OF assms(4)] this assms(3)] obtain w m2 G where
    C: "clone_objects clone_one v m1 = Some (w, m2)" "read_objects read m2 w = Some (ys, G)"
      "distinct G" "adds m1 (set G) m2" by (elim exE conjE) (rule that)
  have lt: "b < fresh m1" if "b \<in> F" for b
    using that addsD(1,4)[OF assms(4)] by (auto simp: mem_ok_def)
  have "load_packet m2 a = Some p"
    using load_packet_blocks[OF addsD(5)[OF C(4) lt[OF assms(5)]]] assms(6) by simp
  from set_packet_law[OF adds_trans[OF assms(4) C(4)] _ this, of "f w"] assms(5) obtain m3 where
    S: "set_packet a (f w) m2 = Some m3" "adds m (F \<union> set G) m3" "load_packet m3 a = Some (f w p)"
      "\<forall>b. b \<noteq> a \<longrightarrow> blocks m3 b = blocks m2 b" by auto
  have dj: "F \<inter> set G = {}" by (rule adds_fresh[OF assms(4) C(4)])
  have "read_objects read m3 w = Some (ys, G)"
    by (rule read_objects_local[OF C(2)]) (use S(4) dj assms(5) in auto)
  moreover have "\<forall>b \<in> F. b \<noteq> a \<longrightarrow> blocks m3 b = blocks m1 b"
    using S(4) addsD(5)[OF C(4) lt] by simp
  ultimately show ?thesis using C S dj by blast
qed

end

text \<open>
  How \<open>packet_clone\<close> and \<open>make_response_empty\<close> begin: a new packet, a header, and a copy of
  the questions in place of the vector \<open>v\<close> that \<open>pack_create\<close> had made for them.
\<close>

lemma questions_law:
  assumes "mem_ok m" "load_packet m a = Some s"
    and "read_objects read_question m (p_questions s) = Some (xs, X)"
  shows "\<exists>b v e w d m1 m2 qs m3 m4 Q. pack_create_h m = Some (b, m1) \<and> load_packet m1 a = Some s \<and>
    set_packet b (\<lambda>p. p\<lparr>p_header := h\<rparr>) m1 = Some m2 \<and>
    questions_clone_h (p_questions s) m2 = Some (qs, m3) \<and>
    set_packet b (\<lambda>p. p\<lparr>p_questions := qs\<rparr>) m3 = Some m4 \<and>
    adds m (set ([b, v, e, w, d] @ Q)) m4 \<and> distinct ([b, v, e, w, d] @ Q) \<and>
    load_packet m4 b = Some \<lparr>p_header = h, p_questions = qs, p_rrs = w\<rparr> \<and>
    read_objects read_question m4 qs = Some (questions_clone xs, Q) \<and>
    read_vector m4 v = Some ([], [v, e]) \<and> read_vector m4 w = Some ([], [w, d])"
proof -
  obtain b v e w d m1 where C: "pack_create_h m = Some (b, m1)" "adds m (set [b, v, e, w, d]) m1"
    "distinct [b, v, e, w, d]"
    "load_packet m1 b = Some \<lparr>p_header = header pack_create, p_questions = v, p_rrs = w\<rparr>"
    "read_vector m1 v = Some ([], [v, e])" "read_vector m1 w = Some ([], [w, d])"
    using pack_create_law[OF assms(1)] by (elim exE conjE) (rule that)
  have "a < fresh m" using assms(2) mem_okD[OF assms(1)] by (auto simp: load_packet_iff)
  then have s: "load_packet m1 a = Some s"
    using assms(2) load_packet_blocks[OF addsD(5)[OF C(2)]] by simp
  obtain m2 where S: "set_packet b (\<lambda>p'. p'\<lparr>p_header := h\<rparr>) m1 = Some m2"
    "adds m (set [b, v, e, w, d]) m2" "load_packet m2 b = Some \<lparr>p_header = h, p_questions = v, p_rrs = w\<rparr>"
    "\<forall>c. c \<noteq> b \<longrightarrow> blocks m2 c = blocks m1 c"
    using set_packet_law[OF C(2) _ C(4), of "\<lambda>p'. p'\<lparr>p_header := h\<rparr>"] by auto
  obtain qs m3 m4 Q where A: "questions_clone_h (p_questions s) m2 = Some (qs, m3)"
    "set_packet b (\<lambda>p. p\<lparr>p_questions := qs\<rparr>) m3 = Some m4" "adds m (set [b, v, e, w, d] \<union> set Q) m4"
    "set [b, v, e, w, d] \<inter> set Q = {}" "distinct Q"
    "load_packet m4 b = Some \<lparr>p_header = h, p_questions = qs, p_rrs = w\<rparr>"
    "read_objects read_question m4 qs = Some (questions_clone xs, Q)"
    "\<forall>c \<in> set [b, v, e, w, d]. c \<noteq> b \<longrightarrow> blocks m4 c = blocks m2 c"
    using question_mem.attach_law[OF assms(1,3) those_clone(1) S(2) _ S(3), where f = "\<lambda>w p. p\<lparr>p_questions := w\<rparr>"]
    unfolding questions_clone_h_def by auto
  have k: "blocks m4 c = blocks m1 c" if "c \<in> {v, e, w, d}" for c using that A(8) S(4) C(3) by auto
  have "read_vector m4 v = Some ([], [v, e])" by (rule read_vector_cong[OF C(5)]) (auto simp: k)
  moreover have "read_vector m4 w = Some ([], [w, d])" by (rule read_vector_cong[OF C(6)]) (auto simp: k)
  moreover have "distinct ([b, v, e, w, d] @ Q)" using C(3) A(4,5) by auto
  moreover have "adds m (set ([b, v, e, w, d] @ Q)) m4" using A(3) by (simp only: set_append)
  ultimately show ?thesis
    by (intro exI conjI) (rule C(1) s S(1) A(1) A(2) A(6) A(7) | assumption)+
qed

text \<open>
  Blocks \<open>L\<close> that are still allocated although nothing refers to them: whole vectors
  without elements, one after the other.
\<close>

definition lost_vectors :: "Memory \<Rightarrow> nat \<Rightarrow> addr list \<Rightarrow> bool" where
  "lost_vectors m n L \<longleftrightarrow> distinct L \<and>
     (\<exists>vs. length vs = n \<and> L = concat vs \<and> (\<forall>V \<in> set vs. \<exists>v. read_vector m v = Some ([], V)))"

lemma lost_vectors_kept:
  assumes "lost_vectors m n L" "\<And>b. b \<in> set L \<Longrightarrow> blocks m' b = blocks m b"
  shows "lost_vectors m' n L"
proof -
  from assms(1) obtain vs where vs: "length vs = n" "L = concat vs" "distinct L"
    "\<forall>V \<in> set vs. \<exists>v. read_vector m v = Some ([], V)" by (auto simp: lost_vectors_def)
  have "\<exists>v. read_vector m' v = Some ([], V)" if V: "V \<in> set vs" for V
  proof -
    from vs(4) V obtain v where "read_vector m v = Some ([], V)" by blast
    then have "read_vector m' v = Some ([], V)"
      by (rule read_vector_cong) (use assms(2) V vs(2) in auto)
    then show ?thesis by blast
  qed
  with vs show ?thesis unfolding lost_vectors_def by blast
qed

lemma lost_vectors_snoc:
  assumes "lost_vectors m n L" "read_vector m v = Some ([], V)" "set L \<inter> set V = {}" "distinct V"
  shows "lost_vectors m (Suc n) (L @ V)"
proof -
  from assms(1) obtain vs where "length vs = n" "L = concat vs" "distinct L"
    "\<forall>V \<in> set vs. \<exists>v. read_vector m v = Some ([], V)" by (auto simp: lost_vectors_def)
  with assms(2-4) show ?thesis
    unfolding lost_vectors_def by (intro conjI exI[of _ "vs @ [V]"]) auto
qed

text \<open>
  From the memory \<open>m\<close>, a function has built the packet \<open>p\<close> at \<open>b\<close> out of new blocks and
  lost \<open>n\<close> vectors on the way; no block of \<open>m\<close> has changed.
\<close>

definition built :: "Memory \<Rightarrow> addr \<Rightarrow> DnsPacket \<Rightarrow> nat \<Rightarrow> Memory \<Rightarrow> bool" where
  "built m b p n m' \<longleftrightarrow> (\<exists>G L. read_packet m' b = Some (p, G) \<and> distinct (G @ L) \<and>
     adds m (set (G @ L)) m' \<and> lost_vectors m' n L)"

text \<open>
  \<open>packet_clone\<close> computes the packet its model on values gives, out of new blocks, and the
  two vectors \<open>pack_create\<close> made are lost.
\<close>

lemma packet_clone_law:
  assumes "mem_ok m" "read_packet m a = Some (p, F)" "packet_clone p = Some p'"
  shows "\<exists>b m'. packet_clone_h a m = Some (b, m') \<and> built m b p' 2 m'"
proof -
  from assms(2) obtain q r Q R where P: "load_packet m a = Some \<lparr>p_header = header p, p_questions = q, p_rrs = r\<rparr>"
    "read_objects read_question m q = Some (questions p, Q)"
    "read_objects read_rr m r = Some (rrs p, R)" by (auto simp: read_packet_iff)
  from assms(3) obtain rs where rs: "those (map rr_clone (rrs p)) = Some rs"
    "p' = \<lparr>header = header p, questions = questions_clone (questions p), rrs = rs\<rparr>"
    by (auto simp: packet_clone_def pack_create_def those_clone split: bind_splits)
  obtain b v e w d m1 m2 qs m3 m4 Q' where A: "pack_create_h m = Some (b, m1)"
    "load_packet m1 a = Some \<lparr>p_header = header p, p_questions = q, p_rrs = r\<rparr>"
    "set_packet b (\<lambda>p'. p'\<lparr>p_header := header p\<rparr>) m1 = Some m2" "questions_clone_h q m2 = Some (qs, m3)"
    "set_packet b (\<lambda>p. p\<lparr>p_questions := qs\<rparr>) m3 = Some m4"
    "adds m (set ([b, v, e, w, d] @ Q')) m4" "distinct ([b, v, e, w, d] @ Q')"
    "load_packet m4 b = Some \<lparr>p_header = header p, p_questions = qs, p_rrs = w\<rparr>"
    "read_objects read_question m4 qs = Some (questions_clone (questions p), Q')"
    "read_vector m4 v = Some ([], [v, e])" "read_vector m4 w = Some ([], [w, d])"
    using questions_law[OF assms(1) P(1), unfolded packet_struct.simps, OF P(2), of "header p"]
    by (elim exE conjE) (rule that)
  let ?F = "set ([b, v, e, w, d] @ Q')"
  obtain rv m5 m6 R' where B: "rrs_clone_h r m4 = Some (rv, m5)"
    "set_packet b (\<lambda>p. p\<lparr>p_rrs := rv\<rparr>) m5 = Some m6" "adds m (?F \<union> set R') m6"
    "?F \<inter> set R' = {}" "distinct R'"
    "load_packet m6 b = Some \<lparr>p_header = header p, p_questions = qs, p_rrs = rv\<rparr>"
    "read_objects read_rr m6 rv = Some (rs, R')" "\<forall>c \<in> ?F. c \<noteq> b \<longrightarrow> blocks m6 c = blocks m4 c"
    using rr_mem.attach_law[OF assms(1) P(3) rs(1) A(6) _ A(8), where f = "\<lambda>w p. p\<lparr>p_rrs := w\<rparr>"]
    unfolding rrs_clone_h_def by auto
  have k: "blocks m6 c = blocks m4 c" if "c \<in> {v, e, w, d} \<union> set Q'" for c using that B(8) A(7) by auto
  have q: "read_objects read_question m6 qs = Some (questions_clone (questions p), Q')"
    by (rule question_mem.read_objects_local[OF A(9)]) (simp add: k)
  have l: "read_vector m6 v = Some ([], [v, e])" by (rule read_vector_cong[OF A(10)]) (auto simp: k)
  have l': "read_vector m6 w = Some ([], [w, d])" by (rule read_vector_cong[OF A(11)]) (auto simp: k)
  let ?G = "b # Q' @ R'" and ?L = "[v, e, w, d]"
  have "packet_clone_h a m = Some (b, m6)"
    using A(1-5) B(1,2) by (simp add: packet_clone_h_def)
  moreover have "read_packet m6 b = Some (p', ?G)" using B(6,7) q rs(2) by (auto simp: read_packet_iff)
  moreover have "distinct (?G @ ?L)" using A(7) B(4,5) by auto
  moreover have "?F \<union> set R' = set (?G @ ?L)" by auto
  with B(3) have "adds m (set (?G @ ?L)) m6" by (simp only:)
  moreover have "lost_vectors m6 2 ?L"
    using A(7) l l' by (auto simp: lost_vectors_def intro!: exI[of _ "[[v, e], [w, d]]"])
  ultimately show ?thesis unfolding built_def by blast
qed

lemma make_response_empty_header:
  "header (make_response_empty (pack_create\<lparr>header := header p\<rparr>)) = header (make_response_empty p)"
  "questions (make_response_empty p) = questions_clone (questions p)" "rrs (make_response_empty p) = []"
  by (simp_all add: make_response_empty_def setRcode_def pack_create_def Let_def)

lemma make_response_empty_law:
  assumes "mem_ok m" "read_packet m a = Some (p, F)"
  shows "\<exists>b m'. make_response_empty_h a m = Some (b, m') \<and> built m b (make_response_empty p) 1 m'"
proof -
  from assms(2) obtain q r Q where P: "load_packet m a = Some \<lparr>p_header = header p, p_questions = q, p_rrs = r\<rparr>"
    "read_objects read_question m q = Some (questions p, Q)" by (auto simp: read_packet_iff)
  let ?h = "header (make_response_empty (pack_create\<lparr>header := header p\<rparr>))"
  obtain b v e w d m1 m2 qs m3 m4 Q' where A: "pack_create_h m = Some (b, m1)"
    "load_packet m1 a = Some \<lparr>p_header = header p, p_questions = q, p_rrs = r\<rparr>"
    "set_packet b (\<lambda>p'. p'\<lparr>p_header := ?h\<rparr>) m1 = Some m2" "questions_clone_h q m2 = Some (qs, m3)"
    "set_packet b (\<lambda>p. p\<lparr>p_questions := qs\<rparr>) m3 = Some m4"
    "adds m (set ([b, v, e, w, d] @ Q')) m4" "distinct ([b, v, e, w, d] @ Q')"
    "load_packet m4 b = Some \<lparr>p_header = ?h, p_questions = qs, p_rrs = w\<rparr>"
    "read_objects read_question m4 qs = Some (questions_clone (questions p), Q')"
    "read_vector m4 v = Some ([], [v, e])" "read_vector m4 w = Some ([], [w, d])"
    using questions_law[OF assms(1) P(1), unfolded packet_struct.simps, OF P(2), of ?h]
    by (elim exE conjE) (rule that)
  have "read_objects read_rr m4 w = Some ([], [w, d])" using A(11) by (simp add: read_objects_def)
  then have "read_packet m4 b = Some (make_response_empty p, b # Q' @ [w, d])"
    using A(8,9) by (auto simp: read_packet_iff make_response_empty_header)
  moreover have "make_response_empty_h a m = Some (b, m4)"
    using A(1-5) by (simp add: make_response_empty_h_def)
  moreover have "set ([b, v, e, w, d] @ Q') = set ((b # Q' @ [w, d]) @ [v, e])" by auto
  with A(6) have "adds m (set ((b # Q' @ [w, d]) @ [v, e])) m4" by (simp only:)
  moreover have "distinct ((b # Q' @ [w, d]) @ [v, e])" using A(7) by auto
  moreover have "lost_vectors m4 1 [v, e]"
    using A(7,10) by (auto simp: lost_vectors_def intro!: exI[of _ "[[v, e]]"])
  ultimately show ?thesis unfolding built_def by blast
qed

text \<open>A write to the header of the new packet.\<close>

lemma set_built:
  assumes "built m b p n m1" "\<And>s. p_questions (f s) = p_questions s \<and> p_rrs (f s) = p_rrs s"
    and "\<And>s. p_header s = header p \<Longrightarrow> p_header (f s) = h"
  shows "\<exists>m2. set_packet b f m1 = Some m2 \<and> built m b (p\<lparr>header := h\<rparr>) n m2"
proof -
  from assms(1) obtain G L where B: "read_packet m1 b = Some (p, G)" "distinct (G @ L)"
    "adds m (set (G @ L)) m1" "lost_vectors m1 n L" by (auto simp: built_def)
  from B(1) obtain q r Q R where P: "load_packet m1 b = Some \<lparr>p_header = header p, p_questions = q, p_rrs = r\<rparr>"
    "read_objects read_question m1 q = Some (questions p, Q)"
    "read_objects read_rr m1 r = Some (rrs p, R)" "G = b # Q @ R" by (auto simp: read_packet_iff)
  let ?s = "\<lparr>p_header = header p, p_questions = q, p_rrs = r\<rparr>"
  obtain m2 where S: "set_packet b f m1 = Some m2" "adds m (set (G @ L)) m2" "load_packet m2 b = Some (f ?s)"
    "\<forall>c. c \<noteq> b \<longrightarrow> blocks m2 c = blocks m1 c"
    using set_packet_law[OF B(3) _ P(1), of f] P(4) by auto
  have "f ?s = \<lparr>p_header = h, p_questions = q, p_rrs = r\<rparr>"
    using assms(2)[of ?s] assms(3)[of ?s] by (cases "f ?s") simp
  moreover have "read_objects read_question m2 q = Some (questions p, Q)"
    by (rule question_mem.read_objects_local[OF P(2)]) (use S(4) B(2) P(4) in auto)
  moreover have "read_objects read_rr m2 r = Some (rrs p, R)"
    by (rule rr_mem.read_objects_local[OF P(3)]) (use S(4) B(2) P(4) in auto)
  ultimately have "read_packet m2 b = Some (p\<lparr>header := h\<rparr>, G)"
    using S(3) P(4) by (auto simp: read_packet_iff)
  moreover have "lost_vectors m2 n L"
    by (rule lost_vectors_kept[OF B(4)]) (use S(4) B(2) P(4) in auto)
  ultimately show ?thesis using S(1,2) B(2) unfolding built_def by blast
qed

lemma make_response_fail_law:
  assumes "mem_ok m" "read_packet m a = Some (p, F)"
  shows "\<exists>b m'. make_response_fail_h a rcode m = Some (b, m') \<and> built m b (make_response_fail p rcode) 1 m'"
proof -
  obtain b m1 where E: "make_response_empty_h a m = Some (b, m1)" "built m b (make_response_empty p) 1 m1"
    using make_response_empty_law[OF assms] by blast
  let ?q = "make_response_empty p"
  have "\<exists>m2. set_header b (\<lambda>p. setRcode p rcode) m1 = Some m2 \<and>
      built m b (?q\<lparr>header := header (setRcode (pack_create\<lparr>header := header ?q\<rparr>) rcode)\<rparr>) 1 m2"
    unfolding set_header_def by (rule set_built[OF E(2)]) simp_all
  moreover have "?q\<lparr>header := header (setRcode (pack_create\<lparr>header := header ?q\<rparr>) rcode)\<rparr> =
      make_response_fail p rcode"
    by (simp add: make_response_fail_def setRcode_def Let_def)
  ultimately show ?thesis using E(1) by (auto simp: make_response_fail_h_def)
qed

lemma query_relay_law:
  assumes "mem_ok m" "read_packet m a = Some (p, F)" "pack_make_query_relay p rid = Some p'"
  shows "\<exists>b m'. pack_make_query_relay_h a rid m = Some (b, m') \<and> built m b p' 2 m'"
proof -
  from assms(3) obtain c where c: "packet_clone p = Some c" "p' = c\<lparr>header := (header c)\<lparr>hdr_id := rid\<rparr>\<rparr>"
    by (auto simp: pack_make_query_relay_def split: bind_splits)
  obtain b m1 where E: "packet_clone_h a m = Some (b, m1)" "built m b c 2 m1"
    using packet_clone_law[OF assms(1,2) c(1)] by blast
  have "\<exists>m2. set_packet b (\<lambda>p. p\<lparr>p_header := (p_header p)\<lparr>hdr_id := rid\<rparr>\<rparr>) m1 = Some m2 \<and> built m b p' 2 m2"
    unfolding c(2) by (rule set_built[OF E(2)]) simp_all
  then show ?thesis using E(1) by (auto simp: pack_make_query_relay_h_def)
qed

section \<open>Values of the cache\<close>

definition read_value :: "Memory \<Rightarrow> value_struct \<Rightarrow> (CacheValue \<times> addr list) option" where
  "read_value m c =
     (let value = (\<lambda>rs. \<lparr>cv_answer = v_answer c, cv_authority = v_authority c,
        cv_additional = v_additional c, cv_rrs = rs\<rparr>)
      in case v_rrs c of
           None \<Rightarrow> Some (value None, [])
         | Some v \<Rightarrow> do { (rs, F) \<leftarrow> read_objects read_rr m v; Some (value (Some rs), F) })"

lemma read_value_Some:
  assumes "read_value m c = Some (cv, F)" "v_rrs c = Some v"
  shows "read_objects read_rr m v = Some (rrs_or_nil cv, F)"
    "cv_answer cv = v_answer c" "cv_authority cv = v_authority c" "cv_additional cv = v_additional c"
  using assms by (auto simp: read_value_def rrs_or_nil_def Let_def split: bind_splits)

text \<open>Hanging a copy of a vector of records into a packet without records loses its vector.\<close>

lemma replace_rrs_law:
  assumes "mem_ok m" "built m b p n m1" "rrs p = []"
    and "read_objects read_rr m v = Some (xs, X)" "rrs_clone xs = Some ys"
  shows "\<exists>w m2 m3. rrs_clone_h v m1 = Some (w, m2) \<and> set_packet b (\<lambda>p. p\<lparr>p_rrs := w\<rparr>) m2 = Some m3 \<and>
    built m b (p\<lparr>rrs := ys\<rparr>) (Suc n) m3"
proof -
  from assms(2) obtain G L where B: "read_packet m1 b = Some (p, G)" "distinct (G @ L)"
    "adds m (set (G @ L)) m1" "lost_vectors m1 n L" by (auto simp: built_def)
  from B(1) obtain q r Q R where P: "load_packet m1 b = Some \<lparr>p_header = header p, p_questions = q, p_rrs = r\<rparr>"
    "read_objects read_question m1 q = Some (questions p, Q)"
    "read_objects read_rr m1 r = Some ([], R)" "G = b # Q @ R"
    by (auto simp: read_packet_iff assms(3))
  from P(3) obtain as V H where "read_vector m1 r = Some (as, V)" "read_each read_rr m1 as = Some ([], H)"
    "R = V @ H" by (auto simp: read_objects_iff)
  then have r: "read_vector m1 r = Some ([], R)" by (cases as) (auto split: bind_splits)
  obtain w m2 m3 R' where A: "rrs_clone_h v m1 = Some (w, m2)" "set_packet b (\<lambda>p. p\<lparr>p_rrs := w\<rparr>) m2 = Some m3"
    "adds m (set (G @ L) \<union> set R') m3" "set (G @ L) \<inter> set R' = {}" "distinct R'"
    "load_packet m3 b = Some \<lparr>p_header = header p, p_questions = q, p_rrs = w\<rparr>"
    "read_objects read_rr m3 w = Some (ys, R')" "\<forall>c \<in> set (G @ L). c \<noteq> b \<longrightarrow> blocks m3 c = blocks m1 c"
    using rr_mem.attach_law[OF assms(1,4) assms(5)[folded those_clone(2)] B(3) _ P(1),
        where f = "\<lambda>w p. p\<lparr>p_rrs := w\<rparr>"] P(4)
    unfolding rrs_clone_h_def by auto
  have k: "blocks m3 c = blocks m1 c" if "c \<in> set (Q @ R @ L)" for c using that A(8) B(2) P(4) by auto
  have "read_objects read_question m3 q = Some (questions p, Q)"
    by (rule question_mem.read_objects_local[OF P(2)]) (simp add: k)
  with A(6,7) have "read_packet m3 b = Some (p\<lparr>rrs := ys\<rparr>, b # Q @ R')" by (auto simp: read_packet_iff)
  moreover have "distinct ((b # Q @ R') @ (L @ R))" using B(2) A(4,5) P(4) by auto
  moreover have "set (G @ L) \<union> set R' = set ((b # Q @ R') @ (L @ R))" using P(4) by auto
  with A(3) have "adds m (set ((b # Q @ R') @ (L @ R))) m3" by (simp only:)
  moreover have "lost_vectors m3 (Suc n) (L @ R)"
  proof (rule lost_vectors_snoc)
    show "lost_vectors m3 n L" by (rule lost_vectors_kept[OF B(4)]) (simp add: k)
    show "read_vector m3 r = Some ([], R)" by (rule read_vector_cong[OF r]) (simp add: k)
  qed (use B(2) P(4) in auto)
  ultimately show ?thesis using A(1,2) unfolding built_def by blast
qed

text \<open>
  The answer from the cache: it loses the vector of questions as every answer does, and the
  vector of records, too, which the copy of the cached records replaces.
\<close>

lemma std_response_law:
  assumes "mem_ok m" "read_packet m a = Some (p, F)" "read_value m c = Some (cv, X)" "v_rrs c = Some v"
    and "pack_make_std_response_local p cv = Some p'"
  shows "\<exists>b m'. pack_make_std_response_local_h a c m = Some (b, m') \<and> built m b p' 2 m'"
proof -
  note V = read_value_Some[OF assms(3,4)]
  let ?e = "make_response_empty p"
  let ?h = "(header ?e)\<lparr>answer_RRs := v_answer c, authority_RRs := v_authority c, additional_RRs := v_additional c\<rparr>"
  from assms(5) obtain rs where rs: "rrs_clone (rrs_or_nil cv) = Some rs" "p' = ?e\<lparr>header := ?h, rrs := rs\<rparr>"
    by (auto simp: pack_make_std_response_local_def Let_def V(2-4) split: bind_splits)
  obtain b m1 where E: "make_response_empty_h a m = Some (b, m1)" "built m b ?e 1 m1"
    using make_response_empty_law[OF assms(1,2)] by blast
  let ?f = "\<lambda>p. p\<lparr>p_header := (p_header p)\<lparr>answer_RRs := v_answer c, authority_RRs := v_authority c,
    additional_RRs := v_additional c\<rparr>\<rparr>"
  have "\<exists>m2. set_packet b ?f m1 = Some m2 \<and> built m b (?e\<lparr>header := ?h\<rparr>) 1 m2"
    by (rule set_built[OF E(2)]) simp_all
  then obtain m2 where S: "set_packet b ?f m1 = Some m2" "built m b (?e\<lparr>header := ?h\<rparr>) 1 m2" by blast
  obtain w m3 m4 where A: "rrs_clone_h v m2 = Some (w, m3)" "set_packet b (\<lambda>p. p\<lparr>p_rrs := w\<rparr>) m3 = Some m4"
    "built m b ((?e\<lparr>header := ?h\<rparr>)\<lparr>rrs := rs\<rparr>) (Suc 1) m4"
    using replace_rrs_law[OF assms(1) S(2) _ V(1) rs(1)] by (auto simp: make_response_empty_header)
  have "built m b p' 2 m4" using A(3) rs(2) by (simp add: numeral_2_eq_2)
  then show ?thesis using E(1) S(1) A(1,2) assms(4)
    by (intro exI[of _ b] exI[of _ m4]) (simp add: pack_make_std_response_local_h_def)
qed

text \<open>A copy of a value owns new blocks only, and releasing a value removes its blocks.\<close>

lemma value_clone_law:
  assumes "mem_ok m" "read_value m c = Some (cv, F)" "cache_value_clone cv = Some cv'"
  shows "\<exists>c' m' G. cache_value_clone_h c m = Some (c', m') \<and> read_value m' c' = Some (cv', G) \<and>
    distinct G \<and> adds m (set G) m'"
proof (cases "v_rrs c")
  case None
  obtain d e m1 where C: "vector_create_h 4 m = Some (d, m1)" "read_vector m1 d = Some ([], [d, e])"
    "d \<noteq> e" "adds m {d, e} m1"
    using vector_create_law[OF assms(1), of 4] by (elim exE conjE) (rule that)
  then show ?thesis using None assms(2,3)
    by (intro exI[of _ "c\<lparr>v_rrs := Some d\<rparr>"] exI[of _ m1] exI[of _ "[d, e]"])
      (auto simp: cache_value_clone_h_def cache_value_clone_def read_value_def rrs_or_nil_def read_objects_def)
next
  case (Some v)
  note V = read_value_Some[OF assms(2) Some]
  from assms(3) obtain rs where rs: "those (map rr_clone (rrs_or_nil cv)) = Some rs"
    "cv' = \<lparr>cv_answer = v_answer c, cv_authority = v_authority c, cv_additional = v_additional c, cv_rrs = Some rs\<rparr>"
    by (auto simp: cache_value_clone_def those_clone V(2-4) split: bind_splits)
  from V(1) obtain as W where "read_vector m v = Some (as, W)" by (auto simp: read_objects_iff)
  note n = read_vector_access(1)[OF this]
  let ?n = "if 0 < int (length as) then int (length as) else 4"
  from cached_mem.clone_into_law[OF assms(1) V(1) rs(1), of ?n] obtain d m' G where
    C: "clone_into ?n rr_clone_h v m = Some (d, m')" "read_objects read_rr m' d = Some (rs, G)"
      "distinct G" "adds m (set G) m'" by (elim exE conjE) (rule that)
  then show ?thesis using Some n rs(2)
    by (intro exI[of _ "c\<lparr>v_rrs := Some d\<rparr>"] exI[of _ m'] exI[of _ G])
      (auto simp: cache_value_clone_h_def read_value_def)
qed

lemma value_free_law:
  assumes "read_value m c = Some (cv, F)" "distinct F"
  shows "\<exists>c'. free_cache_value_h c m = Some (c', without F m) \<and>
    (v_rrs c \<noteq> None \<longrightarrow> c' = \<lparr>v_answer = 0, v_authority = 0, v_additional = 0, v_rrs = None\<rparr>)"
proof (cases "v_rrs c")
  case None
  then show ?thesis using assms(1) by (auto simp: free_cache_value_h_def read_value_def Let_def memory_simps)
next
  case (Some v)
  from rr_mem.free_objects_law[OF read_value_Some(1)[OF assms(1) Some] assms(2)] Some
  show ?thesis by (simp add: free_cache_value_h_def)
qed

end
