(* ===== verification/Packet_Receive.thy ===== *)
theory Packet_Receive
  imports Packet_Memory
begin

text \<open>
  The reading of datagrams of \<^verbatim>\<open>src/dns/dns_resolver.c\<close> on the heap: which blocks
  \<open>pack_deserialize\<close> and the functions below it allocate and release while they build a
  packet. The laws say that the packet is the one the model on values reads, and that every
  new block belongs to it: the blocks of the names a compression pointer leads to, and the
  arrays the vectors outgrow, are released on the way.
\<close>

section \<open>Reading a datagram\<close>

partial_function (option) name_deserialize_h :: "byte list \<Rightarrow> int \<Rightarrow> Memory \<Rightarrow> (int \<times> addr \<times> Memory) option" where
  "name_deserialize_h buf cur m = do {
     i \<leftarrow> label_scan buf cur 0;
     b \<leftarrow> arr_get buf (cur + i);
     if b = 0
     then do {
       s \<leftarrow> str_at buf cur;
       (a, m1) \<leftarrow> new_block (Bytes (s @ [0])) m;
       Some (int (length s) + 1, a, m1) }
     else do {
       p \<leftarrow> arr_read buf (cur + i) 2;
       (l, suffix, m1) \<leftarrow> name_deserialize_h buf (uint (from_be16 p XOR 0xC000)) m;
       s \<leftarrow> load_cstr m1 suffix;
       prefix \<leftarrow> (if i < 0 then None else arr_read buf cur (nat i));
       (a, m2) \<leftarrow> new_block (Bytes (prefix @ s @ [0])) m1;
       m3 \<leftarrow> mem_free (Some suffix) m2;
       Some (i + 2, a, m3) } }"

definition set_question :: "addr \<Rightarrow> (question_struct \<Rightarrow> question_struct) \<Rightarrow> Memory \<Rightarrow> Memory option" where
  "set_question a f m = do { q \<leftarrow> load_question m a; store a (QuestionB (f q)) m }"

definition set_record :: "addr \<Rightarrow> (record_struct \<Rightarrow> record_struct) \<Rightarrow> Memory \<Rightarrow> Memory option" where
  "set_record a f m = do { r \<leftarrow> load_record m a; store a (RecordB (f r)) m }"

definition question_deserialize_h :: "byte list \<Rightarrow> int \<Rightarrow> addr \<Rightarrow> Memory \<Rightarrow> (int \<times> Memory) option" where
  "question_deserialize_h buf cur q m = do {
     s \<leftarrow> str_at buf cur;
     (n, m1) \<leftarrow> new_block (Bytes (s @ [0])) m;
     m2 \<leftarrow> set_question q (\<lambda>q. q\<lparr>q_name := Some n\<rparr>) m1;
     name \<leftarrow> load_cstr m2 n;
     let c1 = cur + int (length name) + 1;
     t \<leftarrow> get16 buf c1;
     m3 \<leftarrow> set_question q (\<lambda>q. q\<lparr>q_type := Some t\<rparr>) m2;
     c \<leftarrow> get16 buf (c1 + 2);
     m4 \<leftarrow> set_question q (\<lambda>q. q\<lparr>q_class := Some c\<rparr>) m3;
     Some (c1 + 4 - cur, m4) }"

fun questions_deserialize_h :: "byte list \<Rightarrow> int \<Rightarrow> nat \<Rightarrow> addr \<Rightarrow> Memory \<Rightarrow> (int \<times> Memory) option" where
  "questions_deserialize_h buf cur 0 segment m = Some (0, m)"
| "questions_deserialize_h buf cur (Suc qc) segment m = do {
     (q, m1) \<leftarrow> question_create_h m;
     (n, m2) \<leftarrow> question_deserialize_h buf cur q m1;
     m3 \<leftarrow> vector_add_h segment q m2;
     (k, m4) \<leftarrow> questions_deserialize_h buf (cur + n) qc segment m3;
     Some (n + k, m4) }"

text \<open>
  \<open>rdata_deserialize\<close>: the data of \<open>CNAME\<close> and \<open>NS\<close> is the block with the expanded name.
  \<open>MX\<close> has no result, as in \<open>Dns_Packet\<close>.
\<close>

definition rdata_deserialize_h :: "byte list \<Rightarrow> int \<Rightarrow> addr \<Rightarrow> Memory \<Rightarrow> Memory option" where
  "rdata_deserialize_h buf cur rr m = do {
     r \<leftarrow> load_record m rr;
     t \<leftarrow> r_type r;
     if t = QTYPE_CNAME \<or> t = QTYPE_NS
     then do {
       (n, d, m1) \<leftarrow> name_deserialize_h buf cur m;
       m2 \<leftarrow> set_record rr (\<lambda>r. r\<lparr>r_data := Some d\<rparr>) m1;
       name \<leftarrow> load_cstr m2 d;
       set_record rr (\<lambda>r. r\<lparr>r_length := word_of_nat (length name + 1)\<rparr>) m2 }
     else if t = QTYPE_MX then None
     else do {
       bs \<leftarrow> arr_read buf cur (unat (r_length r));
       (d, m1) \<leftarrow> new_block (Bytes bs) m;
       set_record rr (\<lambda>r. r\<lparr>r_data := Some d\<rparr>) m1 } }"

definition rr_deserialize_h :: "byte list \<Rightarrow> int \<Rightarrow> addr \<Rightarrow> Memory \<Rightarrow> (int \<times> Memory) option" where
  "rr_deserialize_h buf cur rr m = do {
     (n, a, m1) \<leftarrow> name_deserialize_h buf cur m;
     m2 \<leftarrow> set_record rr (\<lambda>r. r\<lparr>r_name := Some a\<rparr>) m1;
     let c1 = cur + n;
     t \<leftarrow> get16 buf c1;
     m3 \<leftarrow> set_record rr (\<lambda>r. r\<lparr>r_type := Some t\<rparr>) m2;
     c \<leftarrow> get16 buf (c1 + 2);
     m4 \<leftarrow> set_record rr (\<lambda>r. r\<lparr>r_class := Some c\<rparr>) m3;
     life \<leftarrow> get32 buf (c1 + 4);
     m5 \<leftarrow> set_record rr (\<lambda>r. r\<lparr>r_ttl := Some life\<rparr>) m4;
     len \<leftarrow> get16 buf (c1 + 8);
     m6 \<leftarrow> set_record rr (\<lambda>r. r\<lparr>r_length := len\<rparr>) m5;
     m7 \<leftarrow> rdata_deserialize_h buf (c1 + 10) rr m6;
     Some (n + 10 + int (unat len), m7) }"

fun rrs_deserialize_h :: "byte list \<Rightarrow> int \<Rightarrow> nat \<Rightarrow> addr \<Rightarrow> Memory \<Rightarrow> (int \<times> Memory) option" where
  "rrs_deserialize_h buf cur 0 segment m = Some (0, m)"
| "rrs_deserialize_h buf cur (Suc cnt) segment m = do {
     (r, m1) \<leftarrow> rr_create_h m;
     (n, m2) \<leftarrow> rr_deserialize_h buf cur r m1;
     m3 \<leftarrow> vector_add_h segment r m2;
     (k, m4) \<leftarrow> rrs_deserialize_h buf (cur + n) cnt segment m3;
     Some (n + k, m4) }"

definition pack_deserialize_h :: "byte list \<Rightarrow> int \<Rightarrow> Memory \<Rightarrow> (int \<times> addr option \<times> Memory) option" where
  "pack_deserialize_h raw len m =
     (if len > 512 \<or> len < 12 then Some (-1, None, m)
      else do {
        (a, m1) \<leftarrow> pack_create_h m;
        h \<leftarrow> header_read raw;
        m2 \<leftarrow> set_packet a (\<lambda>p. p\<lparr>p_header := h\<rparr>) m1;
        p \<leftarrow> load_packet m2 a;
        (n, m3) \<leftarrow> questions_deserialize_h raw HEADER_SIZE (unat (qcount (p_header p))) (p_questions p) m2;
        p3 \<leftarrow> load_packet m3 a;
        (k, m4) \<leftarrow> rrs_deserialize_h raw (HEADER_SIZE + n) (rr_count (p_header p3)) (p_rrs p3) m3;
        Some (0, Some a, m4) })"

section \<open>What reading a datagram builds\<close>

lemma set_record_law:
  assumes "adds m F m1" "a \<in> F" "load_record m1 a = Some r"
  shows "\<exists>m2. set_record a f m1 = Some m2 \<and> adds m F m2 \<and> load_record m2 a = Some (f r) \<and>
    (\<forall>b. b \<noteq> a \<longrightarrow> blocks m2 b = blocks m1 b)"
proof -
  have "set_record a f m1 = store a (RecordB (f r)) m1" using assms(3) by (simp add: set_record_def)
  with adds_store[OF assms(1,2), of "RecordB (f r)"] show ?thesis by (auto simp: load_record_iff)
qed

lemma set_question_law:
  assumes "adds m F m1" "a \<in> F" "load_question m1 a = Some r"
  shows "\<exists>m2. set_question a f m1 = Some m2 \<and> adds m F m2 \<and> load_question m2 a = Some (f r) \<and>
    (\<forall>b. b \<noteq> a \<longrightarrow> blocks m2 b = blocks m1 b)"
proof -
  have "set_question a f m1 = store a (QuestionB (f r)) m1" using assms(3) by (simp add: set_question_def)
  with adds_store[OF assms(1,2), of "QuestionB (f r)"] show ?thesis by (auto simp: load_question_iff)
qed

text \<open>Two assignments to one structure in a row are one.\<close>

lemma set_twice:
  "Option.bind (set_record a f m) (\<lambda>m2. Option.bind (set_record a g m2) k) =
     Option.bind (set_record a (\<lambda>r. g (f r)) m) k"
  "Option.bind (set_record a f m) (\<lambda>m2. set_record a g m2) = set_record a (\<lambda>r. g (f r)) m"
  by (auto simp: set_record_def load_record_def store_def split: bind_splits option.splits Block.splits)

lemma adds_without:
  assumes "mem_ok m" "adds m A m1" "set F \<subseteq> A"
  shows "adds m (A - set F) (without F m1)"
proof -
  note A = addsD[OF assms(2)]
  have "a \<notin> dom (blocks m)" if "a \<in> set F" for a
    using fresh_free[OF assms(1) A(3)[of a]] that assms(3) by auto
  moreover have "fresh m \<le> a" if "a \<in> set F" for a using A(3) that assms(3) by auto
  ultimately show ?thesis
    using A without_ok[OF A(1), of F]
    by (auto simp: adds_def memory_simps dom_def set_eq_iff split: if_splits)
qed

lemma c_str_split: "0 \<notin> set s \<Longrightarrow> \<exists>ws. bs @ s @ [0] = c_str (bs @ s) @ 0 # (ws :: byte list)"
proof (cases "0 \<in> set bs")
  case True
  then obtain xs ys where "bs = xs @ 0 # ys" "0 \<notin> set xs" by (metis split_list_first)
  then show ?thesis by (auto simp: c_str_def takeWhile_zero)
next
  case False
  assume "0 \<notin> set s"
  with False show ?thesis by (auto simp: c_str_no_zero)
qed

lemma name_pointer_step:
  assumes "label_scan buf cur 0 = Some i" "arr_get buf (cur + i) = Some x" "x \<noteq> 0"
    and "arr_read buf (cur + i) 2 = Some p" "0 \<le> i" "arr_read buf cur (nat i) = Some prefix"
    and "name_deserialize_h buf (uint (from_be16 p XOR 0xC000)) m = Some (l, sa, m1)"
    and "mem_ok m" "adds m {sa} m1" "blocks m1 sa = Some (Bytes (sfx @ 0 # ws))" "0 \<notin> set sfx"
  shows "\<exists>a m' ws. name_deserialize_h buf cur m = Some (i + 2, a, m') \<and> adds m {a} m' \<and>
    blocks m' a = Some (Bytes (c_str (prefix @ sfx) @ 0 # ws))"
proof -
  obtain a m2 where N: "new_block (Bytes (prefix @ sfx @ [0])) m1 = Some (a, m2)"
    by (simp add: new_block_eq)
  note B = adds_new_block[OF addsD(1)[OF assms(9)] N]
  have A: "adds m ({sa} \<union> {a}) m2" "{sa} \<inter> {a} = {}"
    using adds_trans[OF assms(9)] adds_fresh[OF assms(9)] B by blast+
  have "blocks m2 sa \<noteq> None" using addsD(4)[OF A(1)] by auto
  note F = mem_free_without[OF this]
  have "load_cstr m1 sa = Some sfx" using assms(10,11) by (auto simp: load_cstr_iff takeWhile_zero)
  then have "name_deserialize_h buf cur m = Some (i + 2, a, without [sa] m2)"
    using assms(1-7) N F by (subst name_deserialize_h.simps) simp
  moreover have "adds m {a} (without [sa] m2)"
    using adds_without[OF assms(8) A(1), of "[sa]"] A(2) by (simp add: insert_Diff_if)
  moreover have "blocks (without [sa] m2) a = Some (Bytes (prefix @ sfx @ [0]))"
    using B A(2) by (auto simp: memory_simps)
  ultimately show ?thesis using c_str_split[OF assms(11), of prefix] by metis
qed

lemma name_law:
  assumes "name_deserialize buf cur = Some (n, s)" "mem_ok m"
  shows "\<exists>a m' ws. name_deserialize_h buf cur m = Some (n, a, m') \<and> adds m {a} m' \<and>
    blocks m' a = Some (Bytes (s @ 0 # ws)) \<and> load_cstr m' a = Some s"
proof -
  let ?P = "\<lambda>b c r. \<forall>m. mem_ok m \<longrightarrow> (\<exists>a m' ws. name_deserialize_h b c m = Some (fst r, a, m') \<and>
      adds m {a} m' \<and> blocks m' a = Some (Bytes (snd r @ 0 # ws))) \<and> 0 \<notin> set (snd r)"
  have "?P b c r" if d: "name_deserialize b c = Some r" for b c r
  proof (rule name_deserialize.raw_induct[where P = ?P, OF _ d], intro allI impI)
    fix rec b c r and m :: Memory
    assume IH: "\<And>b c r. rec b c = Some r \<Longrightarrow> ?P b c r" and ok: "mem_ok m"
    assume step: "do {
        i \<leftarrow> label_scan b c 0;
        x \<leftarrow> arr_get b (c + i);
        if x = 0 then do { s \<leftarrow> str_at b c; Some (int (length s) + 1, s) }
        else do {
          p \<leftarrow> arr_read b (c + i) 2;
          (l, suffix) \<leftarrow> rec b (uint (from_be16 p XOR 0xC000));
          prefix \<leftarrow> (if i < 0 then None else arr_read b c (nat i));
          Some (i + 2, c_str (prefix @ suffix)) } } = Some r"
    then obtain i x where i: "label_scan b c 0 = Some i" "arr_get b (c + i) = Some x"
      by (auto split: bind_splits)
    show "(\<exists>a m' ws. name_deserialize_h b c m = Some (fst r, a, m') \<and> adds m {a} m' \<and>
        blocks m' a = Some (Bytes (snd r @ 0 # ws))) \<and> 0 \<notin> set (snd r)"
    proof (cases "x = 0")
      case True
      with step i obtain s where s: "str_at b c = Some s" "r = (int (length s) + 1, s)"
        by (auto split: bind_splits)
      obtain a m' where N: "new_block (Bytes (s @ [0])) m = Some (a, m')" by (simp add: new_block_eq)
      have "name_deserialize_h b c m = Some (int (length s) + 1, a, m')"
        using i True s(1) N by (subst name_deserialize_h.simps) simp
      with adds_new_block[OF ok N] s str_no_zero[OF s(1)] show ?thesis by fastforce
    next
      case False
      with step i obtain p y prefix where q: "arr_read b (c + i) 2 = Some p"
        "rec b (uint (from_be16 p XOR 0xC000)) = Some y" "0 \<le> i" "arr_read b c (nat i) = Some prefix"
        "r = (i + 2, c_str (prefix @ snd y))"
        by (auto split: bind_splits if_splits)
      from IH[OF q(2)] ok obtain sa m1 ws where R: "name_deserialize_h b (uint (from_be16 p XOR 0xC000)) m =
          Some (fst y, sa, m1)" "adds m {sa} m1" "blocks m1 sa = Some (Bytes (snd y @ 0 # ws))" "0 \<notin> set (snd y)"
        by blast
      have "0 \<notin> set (snd r)" by (auto simp: q(5) c_str_def dest: set_takeWhileD)
      with name_pointer_step[OF i False q(1,3,4) R(1) ok R(2-4)] q(5) show ?thesis by auto
    qed
  qed
  from this[OF assms(1)] assms(2) obtain a m' ws where
    "name_deserialize_h buf cur m = Some (n, a, m')" "adds m {a} m'"
    "blocks m' a = Some (Bytes (s @ 0 # ws))" "0 \<notin> set s" by auto
  then show ?thesis by (auto simp: load_cstr_iff takeWhile_zero)
qed

lemma question_law:
  assumes "question_deserialize buf cur = Some (x, n)" "mem_ok m"
  shows "\<exists>q m1 m2 G. question_create_h m = Some (q, m1) \<and> question_deserialize_h buf cur q m1 = Some (n, m2) \<and>
    read_question m2 q = Some (x, G) \<and> distinct G \<and> adds m (set G) m2"
proof -
  from assms(1) obtain s t c where V: "str_at buf cur = Some s" "get16 buf (cur + int (length s) + 1) = Some t"
    "get16 buf (cur + int (length s) + 1 + 2) = Some c" "x = \<lparr>qname = s, qtype = t, qclass = c\<rparr>"
    "n = cur + int (length s) + 1 + 4 - cur"
    by (auto simp: question_deserialize_def Let_def split: bind_splits)
  obtain q m1 where Q: "question_create_h m = Some (q, m1)" by (simp add: question_create_h_def new_block_eq)
  from adds_new_block[OF assms(2) Q[unfolded question_create_h_def]]
  have q: "adds m {q} m1" "load_question m1 q = Some \<lparr>q_name = None, q_type = None, q_class = None\<rparr>"
    by (auto simp: load_question_iff)
  obtain a m2 where N: "new_block (Bytes (s @ [0])) m1 = Some (a, m2)" by (simp add: new_block_eq)
  from adds_new_block[OF addsD(1)[OF q(1)] N] have a: "adds m1 {a} m2" "blocks m2 a = Some (Bytes (s @ [0]))" by auto
  note A = adds_trans[OF q(1) a(1)] adds_fresh[OF q(1) a(1)]
  have "q < fresh m1" using addsD(1,4)[OF q(1)] by (auto simp: mem_ok_def)
  then have lq: "load_question m2 q = Some \<lparr>q_name = None, q_type = None, q_class = None\<rparr>"
    using q(2) addsD(5)[OF a(1)] by (simp add: load_question_iff)
  obtain m3 where S1: "set_question q (\<lambda>q. q\<lparr>q_name := Some a\<rparr>) m2 = Some m3" "adds m ({q} \<union> {a}) m3"
    "load_question m3 q = Some \<lparr>q_name = Some a, q_type = None, q_class = None\<rparr>" "\<forall>b. b \<noteq> q \<longrightarrow> blocks m3 b = blocks m2 b"
    using set_question_law[OF A(1) _ lq] by force
  obtain m4 where S2: "set_question q (\<lambda>q. q\<lparr>q_type := Some t\<rparr>) m3 = Some m4" "adds m ({q} \<union> {a}) m4"
    "load_question m4 q = Some \<lparr>q_name = Some a, q_type = Some t, q_class = None\<rparr>" "\<forall>b. b \<noteq> q \<longrightarrow> blocks m4 b = blocks m3 b"
    using set_question_law[OF S1(2) _ S1(3)] by force
  obtain m5 where S3: "set_question q (\<lambda>q. q\<lparr>q_class := Some c\<rparr>) m4 = Some m5" "adds m ({q} \<union> {a}) m5"
    "load_question m5 q = Some \<lparr>q_name = Some a, q_type = Some t, q_class = Some c\<rparr>" "\<forall>b. b \<noteq> q \<longrightarrow> blocks m5 b = blocks m4 b"
    using set_question_law[OF S2(2) _ S2(3)] by force
  have "blocks m3 a = Some (Bytes (s @ [0]))" "blocks m5 a = Some (Bytes (s @ [0]))"
    using S1(4) S2(4) S3(4) a(2) A(2) by auto
  note nm = load_cstr_block[OF str_no_zero[OF V(1)] this(1)] load_cstr_block[OF str_no_zero[OF V(1)] this(2)]
  have "question_deserialize_h buf cur q m1 = Some (n, m5)"
    using V N S1(1) S2(1) S3(1) nm(1) by (simp add: question_deserialize_h_def Let_def)
  moreover have "read_question m5 q = Some (x, [q, a])"
    using S3(3) nm(2) V(4) by (auto simp: read_question_iff load_question_iff)
  moreover have "adds m (set [q, a]) m5" using S3(2) by (simp add: insert_commute)
  ultimately show ?thesis using Q A(2) by (intro exI[of _ q] exI[of _ m1] exI[of _ m5] exI[of _ "[q, a]"]) auto
qed

text \<open>
  A block that a name was read into may have bytes behind the string it holds; for records,
  the value in memory agrees with the model up to the stated length of the data.
\<close>

definition trim_rr :: "ResourceRecord \<Rightarrow> ResourceRecord" where
  "trim_rr r = r\<lparr>rdata := take (unat (rdata_length r)) (rdata r)\<rparr>"

definition trim_packet :: "DnsPacket \<Rightarrow> DnsPacket" where
  "trim_packet p = p\<lparr>rrs := map trim_rr (rrs p)\<rparr>"

lemma rdata_block:
  assumes "rdata_deserialize buf cur r0 = Some r" "mem_ok m1"
    and "load_record m1 a = Some s" "r_type s = Some (rr_type r0)" "r_length s = rdata_length r0"
  shows "\<exists>d m2 bs len. adds m1 {d} m2 \<and> blocks m2 d = Some (Bytes bs) \<and>
    rdata_deserialize_h buf cur a m1 = set_record a (\<lambda>r. r\<lparr>r_data := Some d, r_length := len\<rparr>) m2 \<and>
    r = r0\<lparr>rdata := rdata r, rdata_length := len\<rparr> \<and> take (unat len) bs = take (unat len) (rdata r)"
proof (cases "rr_type r0 = QTYPE_CNAME \<or> rr_type r0 = QTYPE_NS")
  case True
  with assms(1) obtain n name where N: "name_deserialize buf cur = Some (n, name)"
    "r = r0\<lparr>rdata := name @ [0], rdata_length := word_of_nat (length name + 1)\<rparr>"
    by (auto simp: rdata_deserialize_def split: bind_splits)
  let ?len = "word_of_nat (length name + 1) :: uint16_t"
  from name_law[OF N(1) assms(2)] obtain d m2 ws where D: "name_deserialize_h buf cur m1 = Some (n, d, m2)"
    "adds m1 {d} m2" "blocks m2 d = Some (Bytes (name @ 0 # ws))" "load_cstr m2 d = Some name" by blast
  have "a < fresh m1" using assms(3) mem_okD[OF assms(2)] by (auto simp: load_record_iff)
  then have l: "load_record m2 a = Some s" "a \<noteq> d"
    using assms(3) addsD(3,5)[OF D(2)] by (auto simp: load_record_iff)
  let ?m3 = "m2\<lparr>blocks := (blocks m2)(a \<mapsto> RecordB (s\<lparr>r_data := Some d\<rparr>))\<rparr>"
  have "set_record a (\<lambda>r. r\<lparr>r_data := Some d\<rparr>) m2 = Some ?m3"
    using l(1) by (auto simp: set_record_def store_def load_record_def split: option.splits Block.splits)
  moreover have "load_cstr ?m3 d = Some name" using D(4) l(2) load_cstr_cong[of ?m3 d m2] by simp
  moreover have "set_record a (\<lambda>r. r\<lparr>r_length := ?len\<rparr>) ?m3 =
      set_record a (\<lambda>r. r\<lparr>r_data := Some d, r_length := ?len\<rparr>) m2"
    using l(1) by (auto simp: set_record_def store_def load_record_def split: option.splits Block.splits)
  ultimately have "rdata_deserialize_h buf cur a m1 =
      set_record a (\<lambda>r. r\<lparr>r_data := Some d, r_length := ?len\<rparr>) m2"
    using assms(3,4) True D(1) by (simp add: rdata_deserialize_h_def)
  moreover have "unat (word_of_nat n :: uint16_t) \<le> n" for n by (simp add: unat_of_nat)
  from this[of "length name + 1"] have "unat ?len \<le> length (name @ [0])" by (simp only: length_append length_Cons list.size)
  then have "take (unat ?len) (name @ 0 # ws) = take (unat ?len) (name @ [0])"
    by (metis append.assoc append_Cons append_Nil take_append diff_is_0_eq take_0 append_Nil2)
  ultimately show ?thesis using D(2,3) N(2)
    by (intro exI[of _ d] exI[of _ m2] exI[of _ "name @ 0 # ws"] exI[of _ ?len]) auto
next
  case False
  with assms(1) obtain bs where B: "arr_read buf cur (unat (rdata_length r0)) = Some bs"
    "r = r0\<lparr>rdata := bs\<rparr>" "rr_type r0 \<noteq> QTYPE_MX"
    by (auto simp: rdata_deserialize_def split: bind_splits if_splits)
  obtain d m2 where N: "new_block (Bytes bs) m1 = Some (d, m2)" by (simp add: new_block_eq)
  from adds_new_block[OF assms(2) N] have D: "adds m1 {d} m2" "blocks m2 d = Some (Bytes bs)" by auto
  have "a < fresh m1" using assms(3) mem_okD[OF assms(2)] by (auto simp: load_record_iff)
  then have "load_record m2 a = Some s" using assms(3) addsD(5)[OF D(1)] by (auto simp: load_record_iff)
  then have "rdata_deserialize_h buf cur a m1 =
      set_record a (\<lambda>r. r\<lparr>r_data := Some d, r_length := rdata_length r0\<rparr>) m2"
    using assms(3-5) False B(1,3) N by (cases s) (auto simp: rdata_deserialize_h_def set_record_def)
  then show ?thesis using D B(2)
    by (intro exI[of _ d] exI[of _ m2] exI[of _ bs] exI[of _ "rdata_length r0"]) auto
qed

lemma rdata_law:
  assumes "rdata_deserialize buf cur r0 = Some r" "mem_ok m" "adds m {a, nb} m1" "a \<noteq> nb"
    and "load_record m1 a = Some \<lparr>r_name = Some nb, r_type = Some (rr_type r0), r_class = Some (rr_class r0),
      r_ttl = Some (ttl r0), r_length = rdata_length r0, r_data = None\<rparr>"
    and "load_cstr m1 nb = Some (rr_name r0)"
  shows "\<exists>m2 r' G. rdata_deserialize_h buf cur a m1 = Some m2 \<and> read_rr m2 a = Some (r', G) \<and>
    trim_rr r' = trim_rr r \<and> distinct G \<and> adds m (set G) m2"
proof -
  have lt: "b < fresh m1" if "b \<in> {a, nb}" for b using that addsD(1,4)[OF assms(3)] by (auto simp: mem_ok_def)
  obtain d m2 bs len where D: "adds m1 {d} m2" "blocks m2 d = Some (Bytes bs)"
    "rdata_deserialize_h buf cur a m1 = set_record a (\<lambda>r. r\<lparr>r_data := Some d, r_length := len\<rparr>) m2"
    "r = r0\<lparr>rdata := rdata r, rdata_length := len\<rparr>" "take (unat len) bs = take (unat len) (rdata r)"
    using rdata_block[OF assms(1) addsD(1)[OF assms(3)] assms(5), unfolded record_struct.simps, OF refl refl]
    by (elim exE conjE) (rule that)
  note A = adds_trans[OF assms(3) D(1)] adds_fresh[OF assms(3) D(1)]
  let ?s = "\<lparr>r_name = Some nb, r_type = Some (rr_type r0), r_class = Some (rr_class r0),
    r_ttl = Some (ttl r0), r_length = len, r_data = Some d\<rparr>"
  have "blocks m2 b = blocks m1 b" if "b \<in> {a, nb}" for b by (rule addsD(5)[OF D(1) lt[OF that]])
  then have k: "blocks m2 a = blocks m1 a" "blocks m2 nb = blocks m1 nb" by auto
  from k(1) have "load_record m2 a = load_record m1 a" by (simp add: load_record_def)
  note l = this load_cstr_cong[OF k(2)]
  obtain m3 where S: "set_record a (\<lambda>r. r\<lparr>r_data := Some d, r_length := len\<rparr>) m2 = Some m3"
    "adds m ({a, nb} \<union> {d}) m3" "load_record m3 a = Some ?s" "\<forall>b. b \<noteq> a \<longrightarrow> blocks m3 b = blocks m2 b"
    using set_record_law[OF A(1) _ l(1)[unfolded assms(5)]] by force
  have "load_cstr m3 nb = Some (rr_name r0)"
    using S(4) assms(4,6) l(2) load_cstr_cong[of m3 nb m2] by auto
  moreover have "blocks m3 d = Some (Bytes bs)" using S(4) D(2) A(2) by auto
  ultimately have "read_rr m3 a = Some (r0\<lparr>rdata := bs, rdata_length := len\<rparr>, [a, nb, d])"
    using S(3) by (auto simp: read_rr_iff load_record_iff)
  moreover have "trim_rr (r0\<lparr>rdata := bs, rdata_length := len\<rparr>) = trim_rr r"
    by (subst D(4)) (simp add: trim_rr_def D(5))
  moreover have "distinct [a, nb, d]" using assms(4) A(2) by auto
  moreover have "adds m (set [a, nb, d]) m3" using S(2) by (simp add: insert_commute)
  ultimately show ?thesis using D(3) S(1) by metis
qed

lemma rr_law:
  assumes "rr_deserialize buf cur = Some (r, n)" "mem_ok m"
  shows "\<exists>a m1 m2 r' G. rr_create_h m = Some (a, m1) \<and> rr_deserialize_h buf cur a m1 = Some (n, m2) \<and>
    read_rr m2 a = Some (r', G) \<and> trim_rr r' = trim_rr r \<and> distinct G \<and> adds m (set G) m2"
proof -
  from assms(1) obtain nn name t c life len where V: "name_deserialize buf cur = Some (nn, name)"
    "get16 buf (cur + nn) = Some t" "get16 buf (cur + nn + 2) = Some c" "get32 buf (cur + nn + 4) = Some life"
    "get16 buf (cur + nn + 8) = Some len"
    "rdata_deserialize buf (cur + nn + 10) \<lparr>rr_name = name, rr_type = t, rr_class = c, ttl = life,
       rdata_length = len, rdata = []\<rparr> = Some r" "n = nn + 10 + int (unat len)"
    by (auto simp: rr_deserialize_def Let_def split: bind_splits)
  obtain a m1 where Q: "rr_create_h m = Some (a, m1)" by (simp add: rr_create_h_def new_block_eq)
  let ?r0 = "\<lparr>r_name = None, r_type = None, r_class = None, r_ttl = None, r_length = 0, r_data = None\<rparr>"
  from adds_new_block[OF assms(2) Q[unfolded rr_create_h_def]]
  have q: "adds m {a} m1" "load_record m1 a = Some ?r0" by (auto simp: load_record_iff)
  obtain nb m2 where N: "name_deserialize_h buf cur m1 = Some (nn, nb, m2)" "adds m1 {nb} m2"
    "load_cstr m2 nb = Some name" using name_law[OF V(1) addsD(1)[OF q(1)]] by blast
  note A = adds_trans[OF q(1) N(2)] adds_fresh[OF q(1) N(2)]
  have "a < fresh m1" using addsD(1,4)[OF q(1)] by (auto simp: mem_ok_def)
  then have la: "load_record m2 a = Some ?r0" using q(2) addsD(5)[OF N(2)] by (simp add: load_record_iff)
  let ?f = "\<lambda>r. r\<lparr>r_name := Some nb, r_type := Some t, r_class := Some c, r_ttl := Some life, r_length := len\<rparr>"
  obtain m3 where S: "set_record a ?f m2 = Some m3" "adds m ({a} \<union> {nb}) m3"
    "load_record m3 a = Some (?f ?r0)" "\<forall>b. b \<noteq> a \<longrightarrow> blocks m3 b = blocks m2 b"
    using set_record_law[OF A(1) _ la, of ?f] by blast
  have nm: "load_cstr m3 nb = Some name" using S(4) A(2) N(3) load_cstr_cong[of m3 nb m2] by auto
  have h: "rr_deserialize_h buf cur a m1 =
      Option.bind (rdata_deserialize_h buf (cur + nn + 10) a m3) (\<lambda>m7. Some (n, m7))"
    using N(1) V(2-5,7) S(1) by (simp add: rr_deserialize_h_def Let_def set_twice)
  have "adds m {a, nb} m3" using S(2) by (simp add: insert_commute)
  from rdata_law[OF V(6) assms(2) this] A(2) S(3) nm obtain m4 r' G where
    "rdata_deserialize_h buf (cur + nn + 10) a m3 = Some m4" "read_rr m4 a = Some (r', G)"
    "trim_rr r' = trim_rr r" "distinct G" "adds m (set G) m4" by auto
  with h Q show ?thesis by auto
qed

text \<open>The loops fill a vector of a new packet; the other new blocks \<open>E\<close> stay.\<close>

lemma questions_fill:
  "questions_deserialize buf cur k = Some (xs, n) \<Longrightarrow> mem_ok m0 \<Longrightarrow> adds m0 (E \<union> set H) m \<Longrightarrow>
   read_objects read_question m v = Some (zs, H) \<Longrightarrow> distinct H \<Longrightarrow> E \<inter> set H = {} \<Longrightarrow>
   \<exists>m' K. questions_deserialize_h buf cur k v m = Some (n, m') \<and>
     read_objects read_question m' v = Some (zs @ xs, K) \<and> distinct K \<and> E \<inter> set K = {} \<and>
     adds m0 (E \<union> set K) m' \<and> (\<forall>b \<in> E. blocks m' b = blocks m b)"
proof (induction k arbitrary: cur xs n m zs H)
  case 0
  then show ?case by auto
next
  case (Suc k)
  from Suc.prems(1) obtain x i ys j where V: "question_deserialize buf cur = Some (x, i)"
    "questions_deserialize buf (cur + i) k = Some (ys, j)" "xs = x # ys" "n = i + j"
    by (auto split: bind_splits)
  from question_law[OF V(1) addsD(1)[OF Suc.prems(3)]] obtain q m1 m2 G where Q:
    "question_create_h m = Some (q, m1)" "question_deserialize_h buf cur q m1 = Some (i, m2)"
    "read_question m2 q = Some (x, G)" "distinct G" "adds m (set G) m2" by blast
  from question_mem.append_object[OF Suc.prems(2-6) Q(5,3,4)] obtain m3 K where A:
    "vector_add_h v q m2 = Some m3" "read_objects read_question m3 v = Some (zs @ [x], K)" "distinct K"
    "E \<inter> set K = {}" "adds m0 (E \<union> set K) m3" "\<forall>b \<in> E. blocks m3 b = blocks m b" by blast
  from Suc.IH[OF V(2) Suc.prems(2) A(5,2,3,4)] V(3,4) Q(1,2) A(1,6) show ?case by force
qed

lemma rrs_fill:
  "rrs_deserialize buf cur k = Some (xs, n) \<Longrightarrow> mem_ok m0 \<Longrightarrow> adds m0 (E \<union> set H) m \<Longrightarrow>
   read_objects read_rr m v = Some (zs, H) \<Longrightarrow> distinct H \<Longrightarrow> E \<inter> set H = {} \<Longrightarrow>
   \<exists>m' K ws. rrs_deserialize_h buf cur k v m = Some (n, m') \<and>
     read_objects read_rr m' v = Some (zs @ ws, K) \<and> map trim_rr ws = map trim_rr xs \<and>
     distinct K \<and> E \<inter> set K = {} \<and> adds m0 (E \<union> set K) m' \<and> (\<forall>b \<in> E. blocks m' b = blocks m b)"
proof (induction k arbitrary: cur xs n m zs H)
  case 0
  then show ?case by auto
next
  case (Suc k)
  from Suc.prems(1) obtain x i ys j where V: "rr_deserialize buf cur = Some (x, i)"
    "rrs_deserialize buf (cur + i) k = Some (ys, j)" "xs = x # ys" "n = i + j"
    by (auto split: bind_splits)
  from rr_law[OF V(1) addsD(1)[OF Suc.prems(3)]] obtain q m1 m2 w G where Q:
    "rr_create_h m = Some (q, m1)" "rr_deserialize_h buf cur q m1 = Some (i, m2)"
    "read_rr m2 q = Some (w, G)" "trim_rr w = trim_rr x" "distinct G" "adds m (set G) m2" by blast
  from rr_mem.append_object[OF Suc.prems(2-6) Q(6,3,5)] obtain m3 K where A:
    "vector_add_h v q m2 = Some m3" "read_objects read_rr m3 v = Some (zs @ [w], K)" "distinct K"
    "E \<inter> set K = {}" "adds m0 (E \<union> set K) m3" "\<forall>b \<in> E. blocks m3 b = blocks m b" by blast
  from Suc.IH[OF V(2) Suc.prems(2) A(5,2,3,4)] obtain m' L ws where
    "rrs_deserialize_h buf (cur + i) k v m3 = Some (j, m')" "read_objects read_rr m' v = Some (zs @ w # ws, L)"
    "map trim_rr ws = map trim_rr ys" "distinct L" "E \<inter> set L = {}" "adds m0 (E \<union> set L) m'"
    "\<forall>b \<in> E. blocks m' b = blocks m3 b" by auto
  then show ?case using V(3,4) Q(1,2,4) A(1,6)
    by (intro exI[of _ m'] exI[of _ L] exI[of _ "w # ws"]) auto
qed

lemma deserialize_law:
  assumes "pack_deserialize raw len = Some (0, Some p)" "mem_ok m"
  shows "\<exists>a m' p' G. pack_deserialize_h raw len m = Some (0, Some a, m') \<and> read_packet m' a = Some (p', G) \<and>
    trim_packet p' = trim_packet p \<and> distinct G \<and> adds m (set G) m'"
proof -
  from assms(1) obtain h qs n rs k where V: "\<not> (len > 512 \<or> len < 12)" "header_read raw = Some h"
    "questions_deserialize raw HEADER_SIZE (unat (qcount h)) = Some (qs, n)"
    "rrs_deserialize raw (HEADER_SIZE + n) (rr_count h) = Some (rs, k)"
    "p = \<lparr>header = h, questions = qs, rrs = rs\<rparr>"
    by (auto simp: pack_deserialize_def pack_create_def split: bind_splits if_splits)
  obtain a q e r d m1 where C: "pack_create_h m = Some (a, m1)" "adds m (set [a, q, e, r, d]) m1"
    "distinct [a, q, e, r, d]"
    "load_packet m1 a = Some \<lparr>p_header = header pack_create, p_questions = q, p_rrs = r\<rparr>"
    "read_vector m1 q = Some ([], [q, e])" "read_vector m1 r = Some ([], [r, d])"
    using pack_create_law[OF assms(2)] by (elim exE conjE) (rule that)
  let ?p = "\<lparr>p_header = h, p_questions = q, p_rrs = r\<rparr>"
  obtain m2 where S: "set_packet a (\<lambda>p. p\<lparr>p_header := h\<rparr>) m1 = Some m2" "adds m (set [a, q, e, r, d]) m2"
    "load_packet m2 a = Some ?p" "\<forall>b. b \<noteq> a \<longrightarrow> blocks m2 b = blocks m1 b"
    using set_packet_law[OF C(2) _ C(4), of "\<lambda>p. p\<lparr>p_header := h\<rparr>"] by auto
  have "read_vector m2 q = Some ([], [q, e])" by (rule read_vector_cong[OF C(5)]) (use S(4) C(3) in auto)
  then have q: "read_objects read_question m2 q = Some ([], [q, e])" by (simp add: read_objects_def)
  have "read_vector m2 r = Some ([], [r, d])" by (rule read_vector_cong[OF C(6)]) (use S(4) C(3) in auto)
  then have r: "read_objects read_rr m2 r = Some ([], [r, d])" by (simp add: read_objects_def)
  have "adds m ({a, r, d} \<union> set [q, e]) m2" using S(2) by (simp add: insert_commute)
  from questions_fill[OF V(3) assms(2) this q] C(3) obtain m3 K where Q:
    "questions_deserialize_h raw HEADER_SIZE (unat (qcount h)) q m2 = Some (n, m3)"
    "read_objects read_question m3 q = Some (qs, K)" "distinct K" "{a, r, d} \<inter> set K = {}"
    "adds m ({a, r, d} \<union> set K) m3" "\<forall>b \<in> {a, r, d}. blocks m3 b = blocks m2 b" by auto
  have r3: "read_objects read_rr m3 r = Some ([], [r, d])"
    by (rule rr_mem.read_objects_local[OF r]) (use Q(6) in auto)
  have "adds m (({a} \<union> set K) \<union> set [r, d]) m3" using Q(5) by (simp add: insert_commute)
  from rrs_fill[OF V(4) assms(2) this r3] C(3) Q(4) obtain m4 L ws where R:
    "rrs_deserialize_h raw (HEADER_SIZE + n) (rr_count h) r m3 = Some (k, m4)"
    "read_objects read_rr m4 r = Some (ws, L)" "map trim_rr ws = map trim_rr rs" "distinct L"
    "({a} \<union> set K) \<inter> set L = {}" "adds m (({a} \<union> set K) \<union> set L) m4"
    "\<forall>b \<in> {a} \<union> set K. blocks m4 b = blocks m3 b" by auto
  have l: "load_packet m3 a = Some ?p" "load_packet m4 a = Some ?p"
    using Q(6) R(7) S(3) by (auto simp: load_packet_iff)
  have "read_objects read_question m4 q = Some (qs, K)"
    by (rule question_mem.read_objects_local[OF Q(2)]) (use R(7) in auto)
  with l(2) R(2) have "read_packet m4 a = Some (\<lparr>header = h, questions = qs, rrs = ws\<rparr>, a # K @ L)"
    by (auto simp: read_packet_iff)
  moreover have "pack_deserialize_h raw len m = Some (0, Some a, m4)"
    using V(1,2) C(1) S(1,3) Q(1) l(1) R(1) by (simp add: pack_deserialize_h_def)
  moreover have "adds m (set (a # K @ L)) m4" using R(6) by simp
  moreover have "distinct (a # K @ L)" using Q(3,4) R(4,5) by auto
  moreover have "trim_packet \<lparr>header = h, questions = qs, rrs = ws\<rparr> = trim_packet p"
    by (simp add: trim_packet_def V(5) R(3))
  ultimately show ?thesis by blast
qed

end
