(* ===== verification/Packet_Lifetime.thy ===== *)
theory Packet_Lifetime
  imports Packet_Receive
begin

text \<open>
  The life of a packet: the handlers of \<^verbatim>\<open>src/server/server.c\<close> and the sessions of
  \<^verbatim>\<open>src/server/session_factory.c\<close> copy the packets they receive and release the copies.
  The \<open>ledger\<close> keeps the account of these functions: which packets are alive, that each
  owns its blocks alone, and how many vectors have been lost since a given memory.
\<close>

section \<open>The handlers\<close>

text \<open>
  What the handlers of \<^verbatim>\<open>server.c\<close> do with packets: the calls that create, copy and release
  them, in the order of the code. A session is the packet it keeps; its own structure, the
  entries of the map and of the queue are created and released in pairs and left out.
\<close>

definition session_open_h :: "addr \<Rightarrow> Memory \<Rightarrow> (addr \<times> Memory) option" where
  "session_open_h relay_pack m = packet_clone_h relay_pack m"

definition session_close_h :: "addr \<Rightarrow> Memory \<Rightarrow> Memory option" where
  "session_close_h session m = pack_free_h session m"

definition pack_make_response_relay_h :: "addr \<Rightarrow> uint16_t \<Rightarrow> Memory \<Rightarrow> (addr \<times> Memory) option" where
  "pack_make_response_relay_h recv client_id m = do {
     (a, m1) \<leftarrow> packet_clone_h recv m;
     m2 \<leftarrow> set_packet a (\<lambda>p. p\<lparr>p_header := (p_header p)\<lparr>hdr_id := client_id\<rparr>\<rparr>) m1;
     Some (a, m2) }"

text \<open>
  A query that is relayed under the identifier \<open>relay_id\<close>; \<open>sent\<close> says whether
  \<open>packet_send\<close> succeeded. The result is the session that was opened.
\<close>

definition relay_query_h :: "addr \<Rightarrow> uint16_t \<Rightarrow> bool \<Rightarrow> Memory \<Rightarrow> (addr option \<times> Memory) option" where
  "relay_query_h packet_in relay_id sent m = do {
     (out, m1) \<leftarrow> pack_make_query_relay_h packet_in relay_id m;
     if \<not> sent then do { m2 \<leftarrow> pack_free_h out m1; Some (None, m2) }
     else do {
       (session, m2) \<leftarrow> session_open_h out m1;
       m3 \<leftarrow> pack_free_h out m2;
       Some (Some session, m3) } }"

text \<open>A response that belongs to a session.\<close>

definition relay_response_h :: "addr \<Rightarrow> addr \<Rightarrow> uint16_t \<Rightarrow> Memory \<Rightarrow> Memory option" where
  "relay_response_h packet_in session client_id m = do {
     (out, m1) \<leftarrow> pack_make_response_relay_h packet_in client_id m;
     m2 \<leftarrow> session_close_h session m1;
     pack_free_h out m2 }"

text \<open>The end of a session that was retried often enough (\<open>do_handle_timeout\<close>).\<close>

definition timeout_close_h :: "addr \<Rightarrow> uint16_t \<Rightarrow> Memory \<Rightarrow> Memory option" where
  "timeout_close_h session client_id m = do {
     m1 \<leftarrow> set_packet session (\<lambda>p. p\<lparr>p_header := (p_header p)\<lparr>hdr_id := client_id\<rparr>\<rparr>) m;
     (fail, m2) \<leftarrow> make_response_fail_h session RCODE_SERVFAIL m1;
     m3 \<leftarrow> session_close_h session m2;
     pack_free_h fail m3 }"

text \<open>
  The answer to a query whose name is in the cache: \<open>dns_cache_get\<close> copies the value
  \<open>entry\<close>, the answer is built from the copy, and the copy is released; an answer that the
  check of its addresses rejects is released and replaced.
\<close>

definition answer_hit_h :: "addr \<Rightarrow> value_struct \<Rightarrow> Memory \<Rightarrow> (addr \<times> Memory) option" where
  "answer_hit_h query entry m = do {
     (cache_value, m1) \<leftarrow> cache_value_clone_h entry m;
     (response, m2) \<leftarrow> pack_make_std_response_local_h query cache_value m1;
     v \<leftarrow> v_rrs cache_value;
     m3 \<leftarrow> free_rrs_h v m2;
     (p, _) \<leftarrow> read_packet m3 response;
     code \<leftarrow> query_post_validate p;
     if code \<noteq> RCODE_NOERROR
     then do { m4 \<leftarrow> pack_free_h response m3; make_response_fail_h query code m4 }
     else Some (response, m3) }"

text \<open>
  A whole conversation as \<open>server_loop\<close> sees it: the query \<open>raw\<close> comes in and is relayed,
  then the response \<open>raw2\<close> comes in and ends the session.
\<close>

definition conversation_h :: "byte list \<times> int \<times> uint16_t \<times> byte list \<times> int \<times> uint16_t \<Rightarrow> Memory
    \<Rightarrow> Memory option" where
  "conversation_h c m =
     (case c of (raw, len, relay_id, raw2, len2, client_id) \<Rightarrow> do {
        (_, p, m1) \<leftarrow> pack_deserialize_h raw len m;
        query \<leftarrow> p;
        (s, m2) \<leftarrow> relay_query_h query relay_id True m1;
        session \<leftarrow> s;
        m3 \<leftarrow> pack_free_h query m2;
        (_, q, m4) \<leftarrow> pack_deserialize_h raw2 len2 m3;
        response \<leftarrow> q;
        m5 \<leftarrow> relay_response_h response session client_id m4;
        pack_free_h response m5 })"

fun conversations_h :: "(byte list \<times> int \<times> uint16_t \<times> byte list \<times> int \<times> uint16_t) list \<Rightarrow> Memory
    \<Rightarrow> Memory option" where
  "conversations_h [] m = Some m"
| "conversations_h (c # cs) m = do { m1 \<leftarrow> conversation_h c m; conversations_h cs m1 }"

section \<open>The ledger\<close>

text \<open>
  \<open>ledger m0 as ps n m\<close>: since the memory \<open>m0\<close>, exactly the packets \<open>ps\<close> at \<open>as\<close> were
  created and not released, \<open>n\<close> vectors were lost, and nothing else has changed. No two of
  these packets share a block.
\<close>

definition ledger :: "Memory \<Rightarrow> addr list \<Rightarrow> DnsPacket list \<Rightarrow> nat \<Rightarrow> Memory \<Rightarrow> bool" where
  "ledger m0 as ps n m \<longleftrightarrow> mem_ok m0 \<and>
     (\<exists>F L. read_each read_packet m as = Some (ps, F) \<and> distinct (F @ L) \<and>
        adds m0 (set (F @ L)) m \<and> lost_vectors m n L)"

lemma ledger_start: "mem_ok m \<Longrightarrow> ledger m [] [] 0 m"
  by (auto simp: ledger_def adds_refl lost_vectors_def)

lemma ledger_ok: "ledger m0 as ps n m \<Longrightarrow> mem_ok m"
  by (auto simp: ledger_def dest: addsD)

lemma ledger_read: "ledger m0 (a # as) (p # ps) n m \<Longrightarrow> \<exists>F. read_packet m a = Some (p, F)"
  by (auto simp: ledger_def split: bind_splits)

lemma lost_vectors_append:
  assumes "lost_vectors m n L" "lost_vectors m k K" "set L \<inter> set K = {}"
  shows "lost_vectors m (n + k) (L @ K)"
proof -
  from assms(1) obtain vs where "length vs = n" "L = concat vs" "distinct L"
    "\<forall>V \<in> set vs. \<exists>v. read_vector m v = Some ([], V)" by (auto simp: lost_vectors_def)
  moreover from assms(2) obtain ws where "length ws = k" "K = concat ws" "distinct K"
    "\<forall>V \<in> set ws. \<exists>v. read_vector m v = Some ([], V)" by (auto simp: lost_vectors_def)
  ultimately show ?thesis using assms(3)
    unfolding lost_vectors_def by (intro conjI exI[of _ "vs @ ws"]) auto
qed

lemma ledger_built:
  assumes "ledger m0 as ps n m" "built m b p k m'"
  shows "ledger m0 (b # as) (p # ps) (n + k) m'"
proof -
  from assms(1) obtain F L where L: "mem_ok m0" "read_each read_packet m as = Some (ps, F)"
    "distinct (F @ L)" "adds m0 (set (F @ L)) m" "lost_vectors m n L" by (auto simp: ledger_def)
  from assms(2) obtain G K where B: "read_packet m' b = Some (p, G)" "distinct (G @ K)"
    "adds m (set (G @ K)) m'" "lost_vectors m' k K" by (auto simp: built_def)
  note A = adds_trans[OF L(4) B(3)] adds_fresh[OF L(4) B(3)]
  have "b < fresh m" if "b \<in> set (F @ L)" for b using that addsD(1,4)[OF L(4)] by (auto simp: mem_ok_def)
  note same = addsD(5)[OF B(3) this]
  have "read_each read_packet m' as = Some (ps, F)"
    by (rule packet_mem.read_each_local[OF L(2)]) (simp add: same)
  with B(1) have "read_each read_packet m' (b # as) = Some (p # ps, G @ F)" by simp
  moreover have "lost_vectors m' n L" by (rule lost_vectors_kept[OF L(5)]) (simp add: same)
  with B(4) A(2) have "lost_vectors m' (n + k) (L @ K)" by (intro lost_vectors_append) auto
  moreover have "distinct ((G @ F) @ (L @ K))" using A(2) L(3) B(2) by auto
  moreover have "set (F @ L) \<union> set (G @ K) = set ((G @ F) @ (L @ K))" by auto
  with A(1) have "adds m0 (set ((G @ F) @ (L @ K))) m'" by (simp only:)
  ultimately show ?thesis using L(1) unfolding ledger_def by blast
qed

text \<open>The order of the packets in the account does not matter.\<close>

lemma ledger_swap:
  assumes "ledger m0 (a # b # as) (p # q # ps) n m"
  shows "ledger m0 (b # a # as) (q # p # ps) n m"
proof -
  from assms obtain F L where L: "mem_ok m0" "read_each read_packet m (a # b # as) = Some (p # q # ps, F)"
    "distinct (F @ L)" "adds m0 (set (F @ L)) m" "lost_vectors m n L" by (auto simp: ledger_def)
  from L(2) obtain G H K where R: "read_packet m a = Some (p, G)" "read_packet m b = Some (q, H)"
    "read_each read_packet m as = Some (ps, K)" "F = G @ H @ K" by (auto split: bind_splits)
  then have "read_each read_packet m (b # a # as) = Some (q # p # ps, H @ G @ K)" by simp
  moreover have "distinct ((H @ G @ K) @ L)" using L(3) R(4) by auto
  moreover have "set (F @ L) = set ((H @ G @ K) @ L)" using R(4) by auto
  with L(4) have "adds m0 (set ((H @ G @ K) @ L)) m" by (simp only:)
  ultimately show ?thesis using L(1,5) unfolding ledger_def by blast
qed

lemma ledger_rotate:
  assumes "ledger m0 (a # b # c # as) (p # q # r # ps) n m"
  shows "ledger m0 (a # c # b # as) (p # r # q # ps) n m"
proof -
  from assms obtain F L where L: "mem_ok m0" "read_each read_packet m (a # b # c # as) = Some (p # q # r # ps, F)"
    "distinct (F @ L)" "adds m0 (set (F @ L)) m" "lost_vectors m n L" by (auto simp: ledger_def)
  from L(2) obtain G H I K where R: "read_packet m a = Some (p, G)" "read_packet m b = Some (q, H)"
    "read_packet m c = Some (r, I)" "read_each read_packet m as = Some (ps, K)" "F = G @ H @ I @ K"
    by (auto split: bind_splits)
  then have "read_each read_packet m (a # c # b # as) = Some (p # r # q # ps, G @ I @ H @ K)" by simp
  moreover have "distinct ((G @ I @ H @ K) @ L)" using L(3) R(5) by auto
  moreover have "set (F @ L) = set ((G @ I @ H @ K) @ L)" using R(5) by auto
  with L(4) have "adds m0 (set ((G @ I @ H @ K) @ L)) m" by (simp only:)
  ultimately show ?thesis using L(1,5) unfolding ledger_def by blast
qed

lemma ledger_free:
  assumes "ledger m0 (a # as) (p # ps) n m"
  shows "\<exists>m'. pack_free_h a m = Some m' \<and> ledger m0 as ps n m'"
proof -
  from assms obtain F L where L: "mem_ok m0" "read_each read_packet m (a # as) = Some (p # ps, F)"
    "distinct (F @ L)" "adds m0 (set (F @ L)) m" "lost_vectors m n L" by (auto simp: ledger_def)
  from L(2) obtain G H where R: "read_packet m a = Some (p, G)" "read_each read_packet m as = Some (ps, H)"
    "F = G @ H" by (auto split: bind_splits)
  let ?m = "without G m"
  have "pack_free_h a m = Some ?m" by (rule pack_free_law[OF R(1)]) (use L(3) R(3) in auto)
  moreover have "read_each read_packet ?m as = Some (ps, H)"
    by (rule packet_mem.read_each_local[OF R(2)]) (use L(3) R(3) in \<open>auto simp: memory_simps\<close>)
  moreover have "lost_vectors ?m n L"
    by (rule lost_vectors_kept[OF L(5)]) (use L(3) R(3) in \<open>auto simp: memory_simps\<close>)
  moreover have "adds m0 (set (F @ L) - set G) ?m"
    by (rule adds_without[OF L(1,4)]) (auto simp: R(3))
  moreover have "set (F @ L) - set G = set (H @ L)" using L(3) R(3) by auto
  moreover have "distinct (H @ L)" using L(3) R(3) by auto
  ultimately show ?thesis using L(1) unfolding ledger_def by auto
qed

text \<open>At the end, two blocks per lost vector are left over.\<close>

lemma ledger_end:
  assumes "ledger m0 [] [] n m"
  shows "\<exists>B. finite B \<and> card B = 2 * n \<and> adds m0 B m"
proof -
  from assms obtain L where L: "adds m0 (set L) m" "lost_vectors m n L" by (auto simp: ledger_def)
  from L(2) obtain vs where vs: "length vs = n" "L = concat vs" "distinct L"
    "\<forall>V \<in> set vs. \<exists>v. read_vector m v = Some ([], V)" by (auto simp: lost_vectors_def)
  have "length V = 2" if "V \<in> set vs" for V using vs(4) that read_vector_own(3) by fastforce
  then have "length (concat vs) = 2 * length vs" by (induction vs) auto
  with vs L(1) show ?thesis by (metis List.finite_set distinct_card)
qed

section \<open>The account of the handlers\<close>

definition data_ok :: "DnsPacket \<Rightarrow> bool" where
  "data_ok p \<longleftrightarrow> (\<forall>r \<in> set (rrs p). unat (rdata_length r) \<le> length (rdata r))"

lemma arr_read_zero: "arr_read xs 0 n = (if n \<le> length xs then Some (take n xs) else None)"
  by (simp add: arr_read_def)

lemma arr_read_size: "arr_read xs i n = Some ys \<Longrightarrow> length ys = n"
proof -
  assume "arr_read xs i n = Some ys"
  then have "0 \<le> i" "i + int n \<le> int (length xs)" "ys = take n (drop (nat i) xs)"
    by (auto simp: arr_read_def split: if_splits)
  then show ?thesis by (simp add: min_def) linarith
qed

lemma rrs_clone_total:
  "\<forall>r \<in> set rs. unat (rdata_length r) \<le> length (rdata r) \<Longrightarrow>
     \<exists>cs. rrs_clone rs = Some cs \<and> (\<forall>r \<in> set cs. unat (rdata_length r) \<le> length (rdata r))"
proof (induction rs)
  case (Cons r rs)
  then show ?case by (auto simp: rr_clone_def arr_read_zero)
qed simp

lemma clone_total: "data_ok p \<Longrightarrow> \<exists>c. packet_clone p = Some c \<and> data_ok c"
  using rrs_clone_total[of "rrs p"] by (auto simp: data_ok_def packet_clone_def)

lemma deserialize_data:
  assumes "pack_deserialize raw len = Some (0, Some p)"
  shows "data_ok p"
proof -
  have w: "unat (word_of_nat n :: uint16_t) \<le> n" for n by (simp add: unat_of_nat)
  have one: "unat (rdata_length r) \<le> length (rdata r)" if "rdata_deserialize buf cur r0 = Some r" for buf cur r0 r
    using that w[of "Suc (length name)" for name :: cstr]
    by (auto simp: rdata_deserialize_def split: bind_splits if_splits dest: arr_read_size)
  have "\<forall>r \<in> set rs. unat (rdata_length r) \<le> length (rdata r)" if "rrs_deserialize buf cur k = Some (rs, n)" for buf cur k rs n
    using that by (induction k arbitrary: cur rs n) (auto simp: rr_deserialize_def Let_def split: bind_splits dest!: one)
  with assms show ?thesis
    by (auto simp: data_ok_def pack_deserialize_def split: bind_splits if_splits)
qed

lemma trim_clone: 
  assumes "trim_packet p' = trim_packet p"
  shows "packet_clone p' = packet_clone p" "header p' = header p" "data_ok p' = data_ok p"
proof -
  have c: "rr_clone r' = rr_clone r \<and> (unat (rdata_length r') \<le> length (rdata r') \<longleftrightarrow>
      unat (rdata_length r) \<le> length (rdata r))" if "trim_rr r' = trim_rr r" for r r'
  proof -
    from that have e: "rr_name r' = rr_name r" "rr_type r' = rr_type r" "rr_class r' = rr_class r" "ttl r' = ttl r"
      "rdata_length r' = rdata_length r"
      "take (unat (rdata_length r)) (rdata r') = take (unat (rdata_length r)) (rdata r)"
      unfolding trim_rr_def by (cases r, cases r', simp)+
    from arg_cong[OF e(6), of length] have
      "unat (rdata_length r) \<le> length (rdata r') \<longleftrightarrow> unat (rdata_length r) \<le> length (rdata r)" by (simp add: min_def split: if_splits)
    with e show ?thesis by (cases r, cases r') (auto simp: rr_clone_def arr_read_zero)
  qed
  have E: "rrs_clone ws = rrs_clone rs \<and> ((\<forall>r \<in> set ws. unat (rdata_length r) \<le> length (rdata r)) \<longleftrightarrow>
      (\<forall>r \<in> set rs. unat (rdata_length r) \<le> length (rdata r)))" if "map trim_rr ws = map trim_rr rs" for ws rs
    using that
  proof (induction ws arbitrary: rs)
    case (Cons w ws)
    then obtain x xs where "rs = x # xs" "trim_rr w = trim_rr x" "map trim_rr ws = map trim_rr xs" by auto
    with Cons.IH[of xs] c[of w x] show ?case by simp
  qed simp
  have f: "map trim_rr (rrs p') = map trim_rr (rrs p)" "header p' = header p" "questions p' = questions p"
    using assms unfolding trim_packet_def by (cases p, cases p', simp)+
  show "header p' = header p" by (rule f(2))
  show "packet_clone p' = packet_clone p" unfolding packet_clone_def using E[OF f(1)] f(2,3) by (simp only:)
  show "data_ok p' = data_ok p" unfolding data_ok_def by (rule conjunct2[OF E[OF f(1)]])
qed

lemma receive_law:
  assumes "pack_deserialize raw len = Some (0, Some p)" "ledger m0 as ps n m"
  shows "\<exists>a m' p'. pack_deserialize_h raw len m = Some (0, Some a, m') \<and> trim_packet p' = trim_packet p \<and>
    data_ok p' \<and> ledger m0 (a # as) (p' # ps) n m'"
proof -
  from deserialize_law[OF assms(1) ledger_ok[OF assms(2)]] obtain a m' p' G where D:
    "pack_deserialize_h raw len m = Some (0, Some a, m')" "read_packet m' a = Some (p', G)"
    "trim_packet p' = trim_packet p" "distinct G" "adds m (set G) m'" by blast
  have "built m a p' 0 m'" unfolding built_def
    by (intro exI[of _ G] exI[of _ "[]"]) (use D in \<open>auto simp: lost_vectors_def\<close>)
  from ledger_built[OF assms(2) this] D(1,3) trim_clone(3)[OF D(3)] deserialize_data[OF assms(1)]
  show ?thesis by auto
qed

text \<open>A write to the header of a packet of the account.\<close>

lemma ledger_set:
  assumes "ledger m0 (a # as) (p # ps) n m" "\<And>s. p_questions (f s) = p_questions s \<and> p_rrs (f s) = p_rrs s"
    and "\<And>s. p_header s = header p \<Longrightarrow> p_header (f s) = h"
  shows "\<exists>m'. set_packet a f m = Some m' \<and> ledger m0 (a # as) (p\<lparr>header := h\<rparr> # ps) n m'"
proof -
  from assms(1) obtain F L where L: "mem_ok m0" "read_each read_packet m (a # as) = Some (p # ps, F)"
    "distinct (F @ L)" "adds m0 (set (F @ L)) m" "lost_vectors m n L" by (auto simp: ledger_def)
  from L(2) obtain G H where R: "read_packet m a = Some (p, G)" "read_each read_packet m as = Some (ps, H)"
    "F = G @ H" by (auto split: bind_splits)
  from R(1) obtain q r Q K where P: "load_packet m a = Some \<lparr>p_header = header p, p_questions = q, p_rrs = r\<rparr>"
    "read_objects read_question m q = Some (questions p, Q)"
    "read_objects read_rr m r = Some (rrs p, K)" "G = a # Q @ K" by (auto simp: read_packet_iff)
  let ?s = "\<lparr>p_header = header p, p_questions = q, p_rrs = r\<rparr>"
  obtain m2 where S: "set_packet a f m = Some m2" "adds m0 (set (F @ L)) m2" "load_packet m2 a = Some (f ?s)"
    "\<forall>c. c \<noteq> a \<longrightarrow> blocks m2 c = blocks m c"
    using set_packet_law[OF L(4) _ P(1), of f] P(4) R(3) by auto
  have "f ?s = \<lparr>p_header = h, p_questions = q, p_rrs = r\<rparr>"
    using assms(2)[of ?s] assms(3)[of ?s] by (cases "f ?s") simp
  moreover have "read_objects read_question m2 q = Some (questions p, Q)"
    by (rule question_mem.read_objects_local[OF P(2)]) (use S(4) L(3) P(4) R(3) in auto)
  moreover have "read_objects read_rr m2 r = Some (rrs p, K)"
    by (rule rr_mem.read_objects_local[OF P(3)]) (use S(4) L(3) P(4) R(3) in auto)
  ultimately have "read_packet m2 a = Some (p\<lparr>header := h\<rparr>, G)"
    using S(3) P(4) by (auto simp: read_packet_iff)
  moreover have "read_each read_packet m2 as = Some (ps, H)"
    by (rule packet_mem.read_each_local[OF R(2)]) (use S(4) L(3) P(4) R(3) in auto)
  ultimately have "read_each read_packet m2 (a # as) = Some (p\<lparr>header := h\<rparr> # ps, F)" by (simp add: R(3))
  moreover have "lost_vectors m2 n L"
    by (rule lost_vectors_kept[OF L(5)]) (use S(4) L(3) P(4) R(3) in auto)
  ultimately show ?thesis using S(1,2) L(1,3) unfolding ledger_def by blast
qed

lemma clone_ledger:
  assumes "ledger m0 (a # as) (p # ps) n m" "packet_clone p = Some c"
  shows "\<exists>b m'. packet_clone_h a m = Some (b, m') \<and> ledger m0 (b # a # as) (c # p # ps) (n + 2) m'"
proof -
  from ledger_read[OF assms(1)] obtain F where "read_packet m a = Some (p, F)" ..
  from packet_clone_law[OF ledger_ok[OF assms(1)] this assms(2)] obtain b m' where
    "packet_clone_h a m = Some (b, m')" "built m b c 2 m'" by blast
  with ledger_built[OF assms(1)] show ?thesis by blast
qed

text \<open>\<open>set_id p i\<close>: the packet with another identifier.\<close>

definition set_id :: "DnsPacket \<Rightarrow> uint16_t \<Rightarrow> DnsPacket" where
  "set_id p i = p\<lparr>header := (header p)\<lparr>hdr_id := i\<rparr>\<rparr>"

lemma clone_id_ledger:
  assumes "ledger m0 (a # as) (p # ps) n m" "data_ok p"
  shows "\<exists>b m' c. pack_make_query_relay_h a i m = Some (b, m') \<and> pack_make_response_relay_h a i m = Some (b, m') \<and>
    packet_clone p = Some c \<and> data_ok c \<and> ledger m0 (b # a # as) (set_id c i # p # ps) (n + 2) m'"
proof -
  from clone_total[OF assms(2)] obtain c where c: "packet_clone p = Some c" "data_ok c" by blast
  from clone_ledger[OF assms(1) c(1)] obtain b m1 where
    B: "packet_clone_h a m = Some (b, m1)" "ledger m0 (b # a # as) (c # p # ps) (n + 2) m1" by blast
  have "\<exists>m2. set_packet b (\<lambda>p. p\<lparr>p_header := (p_header p)\<lparr>hdr_id := i\<rparr>\<rparr>) m1 = Some m2 \<and>
      ledger m0 (b # a # as) (set_id c i # p # ps) (n + 2) m2"
    unfolding set_id_def by (rule ledger_set[OF B(2)]) simp_all
  with B(1) c show ?thesis
    by (auto simp: pack_make_query_relay_h_def pack_make_response_relay_h_def)
qed

lemma relay_query_ledger:
  assumes "ledger m0 (a # as) (p # ps) n m" "data_ok p"
  shows "\<exists>m'. relay_query_h a i False m = Some (None, m') \<and> ledger m0 (a # as) (p # ps) (n + 2) m'"
    "\<exists>s m' c. relay_query_h a i True m = Some (Some s, m') \<and> data_ok c \<and>
      ledger m0 (s # a # as) (c # p # ps) (n + 4) m'"
proof -
  from clone_id_ledger[OF assms] obtain b m1 c where B: "pack_make_query_relay_h a i m = Some (b, m1)"
    "data_ok c" "ledger m0 (b # a # as) (set_id c i # p # ps) (n + 2) m1" by blast
  from ledger_free[OF B(3)] B(1)
  show "\<exists>m'. relay_query_h a i False m = Some (None, m') \<and> ledger m0 (a # as) (p # ps) (n + 2) m'"
    by (auto simp: relay_query_h_def)
  have "data_ok (set_id c i)" using B(2) by (simp add: data_ok_def set_id_def)
  from clone_total[OF this] obtain d where d: "packet_clone (set_id c i) = Some d" "data_ok d" by blast
  from clone_ledger[OF B(3) d(1)] obtain s m2 where S: "packet_clone_h b m1 = Some (s, m2)"
    "ledger m0 (s # b # a # as) (d # set_id c i # p # ps) (n + 2 + 2) m2" by blast
  have "n + 2 + 2 = n + 4" by simp
  from ledger_free[OF ledger_swap[OF S(2)], unfolded this] obtain m3 where "pack_free_h b m2 = Some m3"
    "ledger m0 (s # a # as) (d # p # ps) (n + 4) m3" by blast
  with B(1) S(1) d(2)
  show "\<exists>s m' c. relay_query_h a i True m = Some (Some s, m') \<and> data_ok c \<and>
      ledger m0 (s # a # as) (c # p # ps) (n + 4) m'"
    by (auto simp: relay_query_h_def session_open_h_def)
qed

lemma relay_response_ledger:
  assumes "ledger m0 (r # s # as) (p # q # ps) n m" "data_ok p"
  shows "\<exists>m'. relay_response_h r s i m = Some m' \<and> ledger m0 (r # as) (p # ps) (n + 2) m'"
proof -
  from clone_id_ledger[OF assms] obtain b m1 c where B: "pack_make_response_relay_h r i m = Some (b, m1)"
    "ledger m0 (b # r # s # as) (set_id c i # p # q # ps) (n + 2) m1" by blast
  have "ledger m0 (s # b # r # as) (q # set_id c i # p # ps) (n + 2) m1"
    by (rule ledger_swap) (rule ledger_rotate[OF B(2)])
  from ledger_free[OF this] obtain m2 where C: "pack_free_h s m1 = Some m2"
    "ledger m0 (b # r # as) (set_id c i # p # ps) (n + 2) m2" by blast
  from ledger_free[OF C(2)] B(1) C(1) show ?thesis
    by (auto simp: relay_response_h_def session_close_h_def)
qed

lemma timeout_close_ledger:
  assumes "ledger m0 (s # as) (q # ps) n m"
  shows "\<exists>m'. timeout_close_h s i m = Some m' \<and> ledger m0 as ps (n + 1) m'"
proof -
  have "\<exists>m1. set_packet s (\<lambda>p. p\<lparr>p_header := (p_header p)\<lparr>hdr_id := i\<rparr>\<rparr>) m = Some m1 \<and>
      ledger m0 (s # as) (set_id q i # ps) n m1"
    unfolding set_id_def by (rule ledger_set[OF assms]) simp_all
  then obtain m1 where A: "set_packet s (\<lambda>p. p\<lparr>p_header := (p_header p)\<lparr>hdr_id := i\<rparr>\<rparr>) m = Some m1"
    "ledger m0 (s # as) (set_id q i # ps) n m1" by blast
  from ledger_read[OF A(2)] obtain F where "read_packet m1 s = Some (set_id q i, F)" ..
  from make_response_fail_law[OF ledger_ok[OF A(2)] this] obtain b m2 where B:
    "make_response_fail_h s RCODE_SERVFAIL m1 = Some (b, m2)"
    "built m1 b (make_response_fail (set_id q i) RCODE_SERVFAIL) 1 m2" by blast
  from ledger_free[OF ledger_swap[OF ledger_built[OF A(2) B(2)]]] obtain m3 where C:
    "pack_free_h s m2 = Some m3"
    "ledger m0 (b # as) (make_response_fail (set_id q i) RCODE_SERVFAIL # ps) (n + 1) m3" by blast
  from ledger_free[OF C(2)] A(1) B(1) C(1) show ?thesis
    by (auto simp: timeout_close_h_def session_close_h_def)
qed

lemma built_without:
  assumes "mem_ok m" "adds m (set G) m1" "built m1 b p k m2"
  shows "built m b p k (without G m2)"
proof -
  from assms(3) obtain F L where B: "read_packet m2 b = Some (p, F)" "distinct (F @ L)"
    "adds m1 (set (F @ L)) m2" "lost_vectors m2 k L" by (auto simp: built_def)
  note A = adds_trans[OF assms(2) B(3)] adds_fresh[OF assms(2) B(3)]
  have "read_packet (without G m2) b = Some (p, F)"
    by (rule read_packet_local[OF B(1)]) (use A(2) in \<open>auto simp: memory_simps\<close>)
  moreover have "lost_vectors (without G m2) k L"
    by (rule lost_vectors_kept[OF B(4)]) (use A(2) in \<open>auto simp: memory_simps\<close>)
  moreover have "adds m (set G \<union> set (F @ L) - set G) (without G m2)"
    by (rule adds_without[OF assms(1) A(1)]) auto
  moreover have "set G \<union> set (F @ L) - set G = set (F @ L)" using A(2) by auto
  ultimately show ?thesis using B(2) unfolding built_def by auto
qed

lemma read_packet_kept:
  assumes "mem_ok m" "read_packet m a = Some (p, F)" "adds m G m'"
  shows "read_packet m' a = Some (p, F)"
  by (rule packet_mem.read_kept[OF assms])

text \<open>
  An answer from the cache. The value \<open>entry\<close> of the cache is not touched, and the copy the
  look-up made is released.
\<close>

lemma hit_response_law:
  assumes "mem_ok m" "read_packet m a = Some (p, F)" "read_value m entry = Some (cv, X)"
    and "cache_value_clone cv = Some cv'" "pack_make_std_response_local p cv' = Some r"
  shows "\<exists>c' m1 b m2 v m3. cache_value_clone_h entry m = Some (c', m1) \<and>
    pack_make_std_response_local_h a c' m1 = Some (b, m2) \<and> v_rrs c' = Some v \<and> free_rrs_h v m2 = Some m3 \<and>
    built m b r 2 m3"
proof -
  from value_clone_law[OF assms(1,3,4)] obtain c' m1 G where C: "cache_value_clone_h entry m = Some (c', m1)"
    "read_value m1 c' = Some (cv', G)" "distinct G" "adds m (set G) m1" by blast
  from C(1) obtain v where v: "v_rrs c' = Some v" by (auto simp: cache_value_clone_h_def split: bind_splits)
  from std_response_law[OF addsD(1)[OF C(4)] read_packet_kept[OF assms(1,2) C(4)] C(2) v assms(5)]
  obtain b m2 where R: "pack_make_std_response_local_h a c' m1 = Some (b, m2)" "built m1 b r 2 m2" by blast
  from R(2) obtain K where K: "adds m1 K m2" by (auto simp: built_def)
  have "read_objects read_rr m2 v = Some (rrs_or_nil cv', G)"
    by (rule rr_mem.read_objects_kept[OF addsD(1)[OF C(4)] read_value_Some(1)[OF C(2) v] K])
  from rr_mem.free_objects_law[OF this C(3)] have "free_rrs_h v m2 = Some (without G m2)"
    by (simp add: free_rrs_h_def)
  with built_without[OF assms(1) C(4) R(2)] C(1) R(1) v show ?thesis by blast
qed

lemma answer_hit_ledger:
  assumes "ledger m0 (a # as) (p # ps) n m" "read_value m entry = Some (cv, X)"
    and "cache_value_clone cv = Some cv'" "pack_make_std_response_local p cv' = Some r"
    and "query_post_validate r = Some code"
  shows "\<exists>b m'. answer_hit_h a entry m = Some (b, m') \<and>
    ledger m0 (b # a # as) ((if code = RCODE_NOERROR then r else make_response_fail p code) # p # ps)
      (n + (if code = RCODE_NOERROR then 2 else 3)) m'"
proof -
  from ledger_read[OF assms(1)] obtain F where P: "read_packet m a = Some (p, F)" ..
  from hit_response_law[OF ledger_ok[OF assms(1)] P assms(2-4)] obtain c' m1 b m2 v m3 where
    H: "cache_value_clone_h entry m = Some (c', m1)" "pack_make_std_response_local_h a c' m1 = Some (b, m2)"
      "v_rrs c' = Some v" "free_rrs_h v m2 = Some m3" "built m b r 2 m3" by blast
  note L = ledger_built[OF assms(1) H(5)]
  from ledger_read[OF L] obtain G where G: "read_packet m3 b = Some (r, G)" ..
  show ?thesis
  proof (cases "code = RCODE_NOERROR")
    case True
    with H G assms(5) L show ?thesis by (auto simp: answer_hit_h_def)
  next
    case False
    from ledger_free[OF L] obtain m4 where M: "pack_free_h b m3 = Some m4" "ledger m0 (a # as) (p # ps) (n + 2) m4"
      by blast
    from ledger_read[OF M(2)] obtain I where "read_packet m4 a = Some (p, I)" ..
    from make_response_fail_law[OF ledger_ok[OF M(2)] this] obtain c m5 where E:
      "make_response_fail_h a code m4 = Some (c, m5)" "built m4 c (make_response_fail p code) 1 m5" by blast
    have "n + 2 + 1 = n + 3" by simp
    from ledger_built[OF M(2) E(2), unfolded this] H G assms(5) M(1) E(1) False show ?thesis
      by (auto simp: answer_hit_h_def)
  qed
qed

lemma conversation_ledger:
  assumes "pack_deserialize raw len = Some (0, Some p)" "pack_deserialize raw2 len2 = Some (0, Some q)"
    and "ledger m0 as ps n m"
  shows "\<exists>m'. conversation_h (raw, len, rid, raw2, len2, cid) m = Some m' \<and> ledger m0 as ps (n + 6) m'"
proof -
  from receive_law[OF assms(1,3)] obtain a m1 p' where A: "pack_deserialize_h raw len m = Some (0, Some a, m1)"
    "data_ok p'" "ledger m0 (a # as) (p' # ps) n m1" by blast
  from relay_query_ledger(2)[OF A(3,2)] obtain s m2 c where S: "relay_query_h a rid True m1 = Some (Some s, m2)"
    "ledger m0 (s # a # as) (c # p' # ps) (n + 4) m2" by blast
  from ledger_free[OF ledger_swap[OF S(2)]] obtain m3 where F: "pack_free_h a m2 = Some m3"
    "ledger m0 (s # as) (c # ps) (n + 4) m3" by blast
  from receive_law[OF assms(2) F(2)] obtain b m4 q' where B: "pack_deserialize_h raw2 len2 m3 = Some (0, Some b, m4)"
    "data_ok q'" "ledger m0 (b # s # as) (q' # c # ps) (n + 4) m4" by blast
  have "n + 4 + 2 = n + 6" by simp
  from relay_response_ledger[OF B(3,2), of cid, unfolded this] obtain m5 where R:
    "relay_response_h b s cid m4 = Some m5" "ledger m0 (b # as) (q' # ps) (n + 6) m5" by blast
  from ledger_free[OF R(2)] A(1) S(1) F(1) B(1) R(1) show ?thesis by (auto simp: conversation_h_def)
qed

lemma conversations_ledger:
  assumes "\<forall>(raw, len, rid, raw2, len2, cid) \<in> set cs.
      (\<exists>p. pack_deserialize raw len = Some (0, Some p)) \<and> (\<exists>q. pack_deserialize raw2 len2 = Some (0, Some q))"
    and "ledger m0 as ps n m"
  shows "\<exists>m'. conversations_h cs m = Some m' \<and> ledger m0 as ps (n + 6 * length cs) m'"
  using assms
proof (induction cs arbitrary: n m)
  case (Cons c cs)
  obtain raw len rid raw2 len2 cid where c: "c = (raw, len, rid, raw2, len2, cid)" by (metis surj_pair)
  with Cons.prems(1) obtain p q where "pack_deserialize raw len = Some (0, Some p)"
    "pack_deserialize raw2 len2 = Some (0, Some q)" by auto
  from conversation_ledger[OF this Cons.prems(2), of rid cid] obtain m1 where
    C: "conversation_h c m = Some m1" "ledger m0 as ps (n + 6) m1" unfolding c by blast
  have "\<forall>(raw, len, rid, raw2, len2, cid) \<in> set cs.
      (\<exists>p. pack_deserialize raw len = Some (0, Some p)) \<and> (\<exists>q. pack_deserialize raw2 len2 = Some (0, Some q))"
    using Cons.prems(1) by auto
  from Cons.IH[OF this C(2)] C(1) show ?case by (auto simp: algebra_simps)
qed simp

section \<open>Samples\<close>

text \<open>
  A query for the name \<open>a\<close>, and the response with an address record whose name is a
  compression pointer to the question.
\<close>

definition sample_query :: "byte list" where
  "sample_query = [0, 7, 1, 0, 0, 1, 0, 0, 0, 0, 0, 0, 1, 97, 0, 0, 1, 0, 1]"

definition sample_response :: "byte list" where
  "sample_response = [0, 9, 129, 128, 0, 1, 0, 1, 0, 0, 0, 0, 1, 97, 0, 0, 1, 0, 1,
     192, 12, 0, 1, 0, 1, 0, 0, 0, 60, 0, 4, 10, 0, 0, 1]"

text \<open>The packet of that response in a memory.\<close>

definition sample_memory :: Memory where
  "sample_memory = \<lparr>blocks = map_of [
     (1, PacketB \<lparr>p_header = \<lparr>hdr_id = 9, flags = 0x8180, qcount = 1, answer_RRs = 1, authority_RRs = 0,
        additional_RRs = 0\<rparr>, p_questions = 2, p_rrs = 4\<rparr>),
     (2, VectorB 3 1 2), (3, Slots [Some 6, None]), (4, VectorB 5 1 1), (5, Slots [Some 8]),
     (6, QuestionB \<lparr>q_name = Some 7, q_type = Some 1, q_class = Some 1\<rparr>), (7, Bytes [1, 97, 0]),
     (8, RecordB \<lparr>r_name = Some 9, r_type = Some 1, r_class = Some 1, r_ttl = Some 60, r_length = 4,
        r_data = Some 10\<rparr>), (9, Bytes [1, 97, 0]), (10, Bytes [10, 0, 0, 1])], fresh = 11\<rparr>"

definition sample_reply :: DnsPacket where
  "sample_reply = \<lparr>header = \<lparr>hdr_id = 9, flags = 0x8180, qcount = 1, answer_RRs = 1, authority_RRs = 0,
     additional_RRs = 0\<rparr>, questions = [\<lparr>qname = [1, 97], qtype = 1, qclass = 1\<rparr>],
     rrs = [\<lparr>rr_name = [1, 97], rr_type = 1, rr_class = 1, ttl = 60, rdata_length = 4,
       rdata = [10, 0, 0, 1]\<rparr>]\<rparr>"

lemma sample_read:
  "read_packet sample_memory 1 = Some (sample_reply, [1, 2, 3, 6, 7, 4, 5, 8, 9, 10])"
  by code_simp

declare name_deserialize.simps [code] label_scan.simps [code]

lemma sample_parsed:
  "pack_deserialize sample_response 35 = Some (0, Some sample_reply)"
  by code_simp

lemma sample_query_parsed:
  "\<exists>p. pack_deserialize sample_query 19 = Some (0, Some p)"
  by (rule exI[of _ "\<lparr>header = \<lparr>hdr_id = 7, flags = 0x0100, qcount = 1, answer_RRs = 0, authority_RRs = 0,
     additional_RRs = 0\<rparr>, questions = [\<lparr>qname = [1, 97], qtype = 1, qclass = 1\<rparr>], rrs = []\<rparr>"]) code_simp

lemma sample_memory_ok: "mem_ok sample_memory"
  by (auto simp: mem_ok_def sample_memory_def)

section \<open>Properties\<close>

text \<open>
  C18. \<open>pack_free\<close> releases a packet exactly: it returns, every block the packet owns is
  gone, no other block has changed, and releasing the packet a second time is an error.
\<close>

theorem pack_free_exact:
  assumes "read_packet m a = Some (p, F)" and "distinct F"
  shows "\<exists>m'. pack_free_h a m = Some m' \<and>
    (\<forall>b. blocks m' b = (if b \<in> set F then None else blocks m b)) \<and> pack_free_h a m' = None"
proof (intro exI conjI)
  show "pack_free_h a m = Some (without F m)" by (rule packet_mem.free_law[OF assms])
  show "\<forall>b. blocks (without F m) b = (if b \<in> set F then None else blocks m b)" by (simp add: memory_simps)
  have "a \<in> set F" using assms(1) by (auto simp: read_packet_iff)
  then show "pack_free_h a (without F m) = None"
    by (simp add: pack_free_h_def load_packet_def memory_simps)
qed

theorem pack_free_exact_witness:
  "\<exists>m'. pack_free_h 1 sample_memory = Some m' \<and>
    (\<forall>b. blocks m' b = (if b \<in> set [1, 2, 3, 6, 7, 4, 5, 8, 9, 10] then None else blocks sample_memory b)) \<and>
    pack_free_h 1 m' = None"
  by (rule pack_free_exact[OF sample_read]) simp

text \<open>
  C17. On the heap, the functions that make packets from packets compute what their models on
  values compute, out of new blocks only, and leave all old blocks as they were; but each
  loses vectors that \<open>pack_create\<close> made for it: \<open>packet_clone\<close>, and with it every relayed
  packet, two of them, an answer without records one, an answer from the cache two.
\<close>

theorem packet_memory_refines:
  assumes "mem_ok m" and "read_packet m a = Some (p, F)"
  shows "(packet_clone p = Some c \<longrightarrow> (\<exists>b m'. packet_clone_h a m = Some (b, m') \<and> built m b c 2 m')) \<and>
    (pack_make_query_relay p rid = Some q \<longrightarrow>
      (\<exists>b m'. pack_make_query_relay_h a rid m = Some (b, m') \<and> built m b q 2 m')) \<and>
    (\<exists>b m'. make_response_empty_h a m = Some (b, m') \<and> built m b (make_response_empty p) 1 m') \<and>
    (\<exists>b m'. make_response_fail_h a rc m = Some (b, m') \<and> built m b (make_response_fail p rc) 1 m') \<and>
    (read_value m v = Some (cv, X) \<and> v_rrs v \<noteq> None \<and> pack_make_std_response_local p cv = Some r \<longrightarrow>
      (\<exists>b m'. pack_make_std_response_local_h a v m = Some (b, m') \<and> built m b r 2 m'))"
  using packet_clone_law[OF assms] query_relay_law[OF assms] make_response_empty_law[OF assms]
    make_response_fail_law[OF assms] std_response_law[OF assms] by blast

theorem packet_memory_refines_witness:
  "(\<exists>b m'. packet_clone_h 1 sample_memory = Some (b, m') \<and> built sample_memory b sample_reply 2 m') \<and>
   (\<exists>b m'. make_response_fail_h 1 RCODE_SERVFAIL sample_memory = Some (b, m') \<and>
      built sample_memory b (make_response_fail sample_reply RCODE_SERVFAIL) 1 m')"
proof -
  have "packet_clone sample_reply = Some sample_reply" by code_simp
  then show ?thesis
    using packet_memory_refines[OF sample_memory_ok sample_read, where c = sample_reply and rc = RCODE_SERVFAIL]
    by blast
qed

text \<open>
  C19. Reading a datagram builds exactly the packet its model on values gives (up to bytes behind
  the stated length of a record's data), out of new blocks that all belong to that packet: the
  blocks of the names it expands on the way are released.
\<close>

theorem datagram_in_memory:
  assumes "pack_deserialize raw len = Some (0, Some p)" and "mem_ok m"
  shows "\<exists>a m' p' G. pack_deserialize_h raw len m = Some (0, Some a, m') \<and> read_packet m' a = Some (p', G) \<and>
    trim_packet p' = trim_packet p \<and> distinct G \<and> adds m (set G) m'"
  by (rule deserialize_law[OF assms])

theorem datagram_in_memory_witness:
  "\<exists>a m' p' G. pack_deserialize_h sample_response 35 empty_memory = Some (0, Some a, m') \<and>
    read_packet m' a = Some (p', G) \<and> trim_packet p' = trim_packet sample_reply \<and> distinct G \<and>
    adds empty_memory (set G) m'"
  by (rule datagram_in_memory[OF sample_parsed]) (simp add: mem_ok_def empty_memory_def)

text \<open>
  C16. The handlers keep the account of packets: with the incoming packet \<open>p\<close> alive, a relayed
  query that cannot be sent leaves nothing behind but two lost vectors, the end of a session
  after its last retry releases the session's packet and loses one vector, and an answer from
  the cache adds the reply alone and loses two vectors, or three when the check of its
  addresses replaces it.
\<close>

theorem handlers_account:
  assumes "ledger m0 (a # as) (p # ps) n m" and "data_ok p"
  shows "(\<exists>m'. relay_query_h a i False m = Some (None, m') \<and> ledger m0 (a # as) (p # ps) (n + 2) m') \<and>
    (\<exists>m'. timeout_close_h a i m = Some m' \<and> ledger m0 as ps (n + 1) m') \<and>
    (read_value m entry = Some (cv, X) \<and> cache_value_clone cv = Some cv' \<and>
       pack_make_std_response_local p cv' = Some r \<and> query_post_validate r = Some code \<longrightarrow>
     (\<exists>b m'. answer_hit_h a entry m = Some (b, m') \<and>
        ledger m0 (b # a # as) ((if code = RCODE_NOERROR then r else make_response_fail p code) # p # ps)
          (n + (if code = RCODE_NOERROR then 2 else 3)) m'))"
  using relay_query_ledger(1)[OF assms, of i] timeout_close_ledger[OF assms(1), of i]
    answer_hit_ledger[OF assms(1)] by blast

theorem handlers_account_witness:
  "\<exists>a m p. pack_deserialize_h sample_query 19 sample_memory = Some (0, Some a, m) \<and>
    (\<exists>m'. relay_query_h a 9 False m = Some (None, m') \<and> ledger sample_memory [a] [p] 2 m') \<and>
    (\<exists>m'. timeout_close_h a 9 m = Some m' \<and> ledger sample_memory [] [] 1 m') \<and>
    (\<exists>b m' r. answer_hit_h a \<lparr>v_answer = 1, v_authority = 0, v_additional = 0, v_rrs = Some 4\<rparr> m = Some (b, m') \<and>
       ledger sample_memory [b, a] [r, p] 2 m')"
proof -
  let ?e = "\<lparr>v_answer = 1, v_authority = 0, v_additional = 0, v_rrs = Some 4\<rparr>"
  let ?cv = "\<lparr>cv_answer = 1, cv_authority = 0, cv_additional = 0, cv_rrs = Some (rrs sample_reply)\<rparr>"
  from sample_query_parsed receive_law[OF _ ledger_start[OF sample_memory_ok]] obtain a m p where
    A: "pack_deserialize_h sample_query 19 sample_memory = Some (0, Some a, m)" "data_ok p"
      "ledger sample_memory [a] [p] 0 m" by blast
  from A(3) obtain G where G: "adds sample_memory G m" unfolding ledger_def by blast
  have "read_objects read_rr sample_memory 4 = Some (rrs sample_reply, [4, 5, 8, 9, 10])" by code_simp
  from rr_mem.read_objects_kept[OF sample_memory_ok this G]
  have v: "read_value m ?e = Some (?cv, [4, 5, 8, 9, 10])" by (simp add: read_value_def)
  have c: "rrs_clone (rrs sample_reply) = Some (rrs sample_reply)" by code_simp
  then have cv: "cache_value_clone ?cv = Some ?cv" by (simp add: cache_value_clone_def rrs_or_nil_def)
  obtain r where r: "pack_make_std_response_local p ?cv = Some r" "answer_RRs (header r) = 1" "rrs r = rrs sample_reply"
    using c by (auto simp: pack_make_std_response_local_def Let_def rrs_or_nil_def)
  have "post_loop 1 (rrs sample_reply) = Some RCODE_NOERROR" by code_simp
  then have "query_post_validate r = Some RCODE_NOERROR" by (simp add: query_post_validate_def r(2,3))
  with handlers_account[OF A(3,2), of 9 ?e ?cv "[4, 5, 8, 9, 10]" ?cv r RCODE_NOERROR] v cv r(1)
  have "(\<exists>m'. relay_query_h a 9 False m = Some (None, m') \<and> ledger sample_memory [a] [p] 2 m') \<and>
     (\<exists>m'. timeout_close_h a 9 m = Some m' \<and> ledger sample_memory [] [] 1 m') \<and>
     (\<exists>b m'. answer_hit_h a ?e m = Some (b, m') \<and> ledger sample_memory [b, a] [r, p] 2 m')"
    by (simp only: if_True add_0 simp_thms)
  with A(1) show ?thesis by blast
qed



end
