(* ===== verification/Net_Socket.thy ===== *)
theory Net_Socket
  imports Byte_Order
begin

text \<open>
  The socket layer, \<^verbatim>\<open>src/infra/sock_posix.c\<close> with
  \<^verbatim>\<open>include/infra/socket.h\<close>: what the relay does around the system calls. A
  \<open>SockAddr\<close> is what is given to \<open>sendto\<close>; the calls themselves (\<open>sendto\<close>,
  \<open>recvfrom\<close>, \<open>select\<close>, \<open>inet_pton\<close> and \<open>close\<close>) are
  parameters.
\<close>

section \<open>Endpoints\<close>

datatype IpVersion = IPV4 | IPV6

text \<open>\<open>end_addr\<close> is the 16-byte union, whose first four bytes are \<open>ipv4\<close>.\<close>

record NetEnd =
  end_addr :: "byte list"
  end_version :: IpVersion
  end_port :: "32 word"

datatype SockAddr = Inet4 "byte list" uint16_t | Inet6 "byte list" uint16_t

text \<open>The address \<open>socket_send\<close> builds for its destination.\<close>

definition dest_sockaddr :: "NetEnd \<Rightarrow> SockAddr" where
  "dest_sockaddr dest =
     (if end_version dest = IPV4 then Inet4 (take 4 (end_addr dest)) (ucast (end_port dest))
      else Inet6 (end_addr dest) (ucast (end_port dest)))"

definition socket_send :: "(byte list \<Rightarrow> SockAddr \<Rightarrow> int) \<Rightarrow> byte list \<Rightarrow> int \<Rightarrow> NetEnd \<Rightarrow> int option" where
  "socket_send sendto buf len dest = do {
     bytes \<leftarrow> arr_read buf 0 (nat len);
     Some (sendto bytes (dest_sockaddr dest)) }"

text \<open>\<open>IN6_IS_ADDR_V4MAPPED\<close> and the source \<open>socket_recv_nowait\<close> reports; \<open>old\<close> is its previous content.\<close>

definition v4_prefix :: "byte list" where
  "v4_prefix = replicate 10 0 @ [0xff, 0xff]"

definition source_netend :: "byte list \<Rightarrow> uint16_t \<Rightarrow> NetEnd \<Rightarrow> NetEnd" where
  "source_netend addr port old =
     (if take 12 addr = v4_prefix
      then old\<lparr>end_addr := drop 12 addr @ drop 4 (end_addr old), end_port := ucast port, end_version := IPV4\<rparr>
      else old\<lparr>end_addr := addr, end_port := ucast port, end_version := IPV6\<rparr>)"

text \<open>
  \<open>socket_recv_nowait\<close> after \<open>recvfrom\<close>: \<open>rn\<close> is its result, \<open>would_block\<close> says whether
  an error means that there is no data.
\<close>

definition socket_recv_nowait :: "int \<Rightarrow> bool \<Rightarrow> byte list \<Rightarrow> uint16_t \<Rightarrow> NetEnd \<Rightarrow> int \<times> NetEnd" where
  "socket_recv_nowait rn would_block addr port source =
     (if rn = -1 then (if would_block then (0, source) else (rn, source))
      else (rn, source_netend addr port source))"

section \<open>Opening\<close>

text \<open>
  The result code and the socket; \<open>fd\<close> is the result of \<open>socket\<close>. The option for both
  versions of IP is set without looking at the result. \<open>bind\<close> gets the address of every
  interface and the port in network order.
\<close>

definition socket_create :: "int \<Rightarrow> int \<Rightarrow> int \<times> int" where
  "socket_create fd socket_holder = (if fd = -1 then (-1, socket_holder) else (0, fd))"

definition socket_bind :: "(int \<Rightarrow> SockAddr \<Rightarrow> int) \<Rightarrow> bool \<Rightarrow> int \<Rightarrow> uint16_t \<Rightarrow> int" where
  "socket_bind bind_call le socket port = bind_call socket (Inet6 (replicate 16 0) (h2n_2 le port))"

section \<open>Timeouts\<close>

text \<open>The \<open>timeval\<close> of \<open>socket_sleep_on\<close>: seconds and microseconds, none for no limit.\<close>

definition sleep_timeval :: "ms \<Rightarrow> (int \<times> int) option" where
  "sleep_timeval timeout = (if timeout < 0 then None else Some (timeout div 1000, (timeout mod 1000) * 1000))"

text \<open>
  The result of \<open>select\<close>, called with the highest descriptor plus one and the set of the one
  socket, whatever the count of sockets says; \<open>True\<close> when an error was recorded.
\<close>

definition socket_sleep_on :: "(int \<Rightarrow> int set \<Rightarrow> (int \<times> int) option \<Rightarrow> int) \<Rightarrow> int \<Rightarrow> int \<Rightarrow> ms \<Rightarrow> int \<times> bool" where
  "socket_sleep_on select_call socket_holder socket_cnt timeout =
     (let ret = select_call (socket_holder + 1) {socket_holder} (sleep_timeval timeout) in (ret, ret < 0))"

text \<open>The result of \<open>close\<close> is not looked at; \<open>close_call\<close> is its effect on the open descriptors.\<close>

definition socket_release :: "(int \<Rightarrow> int set \<Rightarrow> int set) \<Rightarrow> int \<Rightarrow> int set \<Rightarrow> int \<times> int set" where
  "socket_release close_call socket open_fds = (0, close_call socket open_fds)"

section \<open>Addresses of the configuration\<close>

text \<open>\<open>ipstr2binary\<close>: the result code and the endpoint, whose union was cleared first.\<close>

definition ipstr2binary :: "bool \<Rightarrow> (cstr \<Rightarrow> byte list option) \<Rightarrow> (cstr \<Rightarrow> byte list option) \<Rightarrow> cstr
    \<Rightarrow> int \<times> NetEnd option" where
  "ipstr2binary le pton4 pton6 ip =
     (case pton4 ip of
        Some a \<Rightarrow> (0, Some \<lparr>end_addr = a @ replicate 12 0, end_version = IPV4, end_port = ucast (h2n_2 le (53 :: uint16_t))\<rparr>)
      | None \<Rightarrow> (case pton6 ip of
          Some a \<Rightarrow> (0, Some \<lparr>end_addr = a, end_version = IPV6, end_port = ucast (h2n_2 le (53 :: uint16_t))\<rparr>)
        | None \<Rightarrow> (-1, None)))"

section \<open>The reply goes where the query came from\<close>

text \<open>The endpoint of the dual-stack socket an address stands for.\<close>

fun endpoint :: "SockAddr \<Rightarrow> byte list \<times> uint16_t" where
  "endpoint (Inet4 a p) = (v4_prefix @ a, p)"
| "endpoint (Inet6 a p) = (a, p)"

lemma ucast_port [simp]: "ucast (ucast (p :: uint16_t) :: 32 word) = p"
  by (rule bit_word_eqI) (auto simp: bit_simps)

lemma reply_endpoint:
  assumes "length addr = 16" "length (end_addr old) = 16"
  shows "endpoint (dest_sockaddr (source_netend addr port old)) = (addr, port)"
proof (cases "take 12 addr = v4_prefix")
  case True
  have "take 4 (drop 12 addr @ drop 4 (end_addr old)) = drop 12 addr" using assms(1) by simp
  moreover have "v4_prefix @ drop 12 addr = addr" using True by (metis append_take_drop_id)
  ultimately show ?thesis using True by (simp add: dest_sockaddr_def source_netend_def)
qed (simp add: dest_sockaddr_def source_netend_def)

lemma source_netend_length:
  "length addr = 16 \<Longrightarrow> length (end_addr old) = 16 \<Longrightarrow> length (end_addr (source_netend addr port old)) = 16"
  by (simp add: source_netend_def)

lemma sleep_timeval_exact:
  assumes "sleep_timeval timeout = Some (sec, usec)"
  shows "sec * 1000000 + usec = timeout * 1000" "0 \<le> usec" "usec < 1000000"
proof -
  have s: "sec = timeout div 1000" "usec = (timeout mod 1000) * 1000"
    using assms by (auto simp: sleep_timeval_def split: if_splits)
  have "timeout = 1000 * (timeout div 1000) + timeout mod 1000" "0 \<le> timeout mod 1000" "timeout mod 1000 < 1000"
    by simp_all
  then show "sec * 1000000 + usec = timeout * 1000" "0 \<le> usec" "usec < 1000000"
    unfolding s by linarith+
qed

end
