(* ===== verification/Session_Factory.thy ===== *)
theory Session_Factory
  imports Dns_Packet Stl_LazyHeap Net_Socket
begin

text \<open>
  The sessions of \<^verbatim>\<open>src/server/session_factory.c\<close>: one for every query that waits for an
  upstream answer. They are found by relay identifier through a hash map and ordered by the
  time they were sent in a lazy heap. \<open>sessions\<close> is their memory (a freed address maps to
  \<open>None\<close>); the heap compares sessions by reading their times through it. The abstraction
  \<open>sview\<close> is the partial function from relay identifiers to sessions.
\<close>

section \<open>State\<close>

record Session =
  client_id :: uint16_t
  client_ip :: NetEnd
  timestamp :: ms
  retry_times :: "8 word"
  relay_packet :: DnsPacket

record SessionFactory =
  agent_id_sessions :: "(uint64_t, addr) HashMap option"
  sessions_queue :: "addr LazyHeap option"
  sessions :: "addr \<rightharpoonup> Session"
  next_session :: addr

definition relay_id :: "Session \<Rightarrow> uint16_t" where
  "relay_id s = hdr_id (header (relay_packet s))"

text \<open>The key of an identifier, \<open>(K) id\<close>.\<close>

definition id_key :: "uint16_t \<Rightarrow> uint64_t" where
  "id_key i = ucast i"

section \<open>Operations\<close>

text \<open>The sessions in the heap are never \<open>NULL\<close>.\<close>

definition session_comparator :: "(addr \<rightharpoonup> Session) \<Rightarrow> addr \<Rightarrow> addr \<Rightarrow> int option" where
  "session_comparator mem a b = do {
     a_session \<leftarrow> mem a;
     b_session \<leftarrow> mem b;
     let interval = timestamp a_session - timestamp b_session;
     Some (if interval > 0 then 1 else if interval < 0 then -1 else 0) }"

definition session_factory_init :: "(int \<times> SessionFactory) option" where
  "session_factory_init = do {
     q \<leftarrow> lazy_heap_create;
     t \<leftarrow> hash_map_create (Some hash_func_uint64) (Some compare_uint);
     let fac = \<lparr>agent_id_sessions = t, sessions_queue = q, sessions = Map.empty, next_session = 0\<rparr>;
     Some (if q = None \<or> t = None then 1 else 0, fac) }"

fun session_get :: "DnsPacket option \<Rightarrow> SessionFactory \<Rightarrow> addr option option" where
  "session_get None fac = Some None"
| "session_get (Some relay_response) fac = do {
     (r, ses) \<leftarrow> hash_map_get (agent_id_sessions fac) (id_key (hdr_id (header relay_response)));
     Some (if r \<noteq> 0 then None else ses) }"

definition session_close :: "addr \<Rightarrow> SessionFactory \<Rightarrow> SessionFactory option" where
  "session_close a fac = do {
     s \<leftarrow> sessions fac a;
     let key = id_key (relay_id s);
     q \<leftarrow> lazy_heap_remove (sessions_queue fac) key;
     t \<leftarrow> hash_map_remove (agent_id_sessions fac) key;
     Some (fac\<lparr>sessions_queue := q, agent_id_sessions := t, sessions := (sessions fac)(a := None)\<rparr>) }"

definition get_session_timeout_remain :: "ms \<Rightarrow> addr \<Rightarrow> ms \<Rightarrow> SessionFactory \<Rightarrow> ms option" where
  "get_session_timeout_remain now a timeout fac = do {
     s \<leftarrow> sessions fac a;
     let elapse = now - timestamp s;
     Some (timeout - elapse) }"

definition session_peek :: "SessionFactory \<Rightarrow> (addr option \<times> SessionFactory) option" where
  "session_peek fac = do {
     (r, q) \<leftarrow> lazy_heap_peek (session_comparator (sessions fac)) (sessions_queue fac);
     Some (r, fac\<lparr>sessions_queue := q\<rparr>) }"

definition session_wait :: "ms \<Rightarrow> addr \<Rightarrow> SessionFactory \<Rightarrow> SessionFactory option" where
  "session_wait now a fac = do {
     s \<leftarrow> sessions fac a;
     q1 \<leftarrow> lazy_heap_remove (sessions_queue fac) (id_key (relay_id s));
     let mem = (sessions fac)(a \<mapsto> s\<lparr>timestamp := now\<rparr>);
     s1 \<leftarrow> mem a;
     q2 \<leftarrow> lazy_heap_add (session_comparator mem) q1 (id_key (relay_id s1)) a;
     Some (fac\<lparr>sessions_queue := q2, sessions := mem\<rparr>) }"

text \<open>The time of a new session is not set before \<open>session_wait\<close> sets it.\<close>

definition session_open :: "ms \<Rightarrow> uint16_t \<Rightarrow> NetEnd \<Rightarrow> DnsPacket \<Rightarrow> SessionFactory \<Rightarrow> (int \<times> SessionFactory) option" where
  "session_open now cid ip relay_pack fac = do {
     p \<leftarrow> packet_clone relay_pack;
     let a = next_session fac;
     let s = \<lparr>client_id = cid, client_ip = ip, timestamp = 0, retry_times = 0, relay_packet = p\<rparr>;
     (r, t) \<leftarrow> hash_map_put (agent_id_sessions fac) (id_key (relay_id s)) a;
     fac1 \<leftarrow> session_wait now a (fac\<lparr>agent_id_sessions := t, sessions := (sessions fac)(a \<mapsto> s),
       next_session := a + 1\<rparr>);
     Some (0, fac1) }"

section \<open>Abstraction and invariant\<close>

definition sview :: "SessionFactory \<Rightarrow> uint16_t \<Rightarrow> Session option" where
  "sview fac i = (case hm_map (agent_id_sessions fac) (id_key i) of None \<Rightarrow> None | Some a \<Rightarrow> sessions fac a)"

definition ses_rank :: "(addr \<rightharpoonup> Session) \<Rightarrow> addr \<Rightarrow> int" where
  "ses_rank mem a = (case mem a of None \<Rightarrow> 0 | Some s \<Rightarrow> timestamp s)"

text \<open>
  The map and the heap hold the same sessions under the same keys, each under its own relay
  identifier, and there is no other session in memory.
\<close>

definition ses_inv :: "SessionFactory \<Rightarrow> bool" where
  "ses_inv fac \<longleftrightarrow> hm_inv (agent_id_sessions fac) \<and>
     heap_inv (ses_rank (sessions fac)) (sessions_queue fac) \<and>
     hview (sessions_queue fac) = hm_map (agent_id_sessions fac) \<and>
     (\<forall>k a. hm_map (agent_id_sessions fac) k = Some a \<longrightarrow>
        (\<exists>s. sessions fac a = Some s \<and> k = id_key (relay_id s))) \<and>
     dom (sessions fac) = ran (hm_map (agent_id_sessions fac)) \<and>
     (\<forall>a \<in> dom (sessions fac). a < next_session fac)"

lemma ses_invD:
  assumes "ses_inv fac"
  shows "hm_inv (agent_id_sessions fac)" "heap_inv (ses_rank (sessions fac)) (sessions_queue fac)"
    "hview (sessions_queue fac) = hm_map (agent_id_sessions fac)"
    "hm_map (agent_id_sessions fac) k = Some a \<Longrightarrow> \<exists>s. sessions fac a = Some s \<and> k = id_key (relay_id s)"
    "dom (sessions fac) = ran (hm_map (agent_id_sessions fac))"
    "a \<in> dom (sessions fac) \<Longrightarrow> a < next_session fac"
  using assms by (auto simp: ses_inv_def)

lemma ses_invI:
  assumes "hm_inv (agent_id_sessions fac)" "heap_inv (ses_rank (sessions fac)) (sessions_queue fac)"
    "hview (sessions_queue fac) = hm_map (agent_id_sessions fac)"
    "\<And>k a. hm_map (agent_id_sessions fac) k = Some a \<Longrightarrow> \<exists>s. sessions fac a = Some s \<and> k = id_key (relay_id s)"
    "dom (sessions fac) = ran (hm_map (agent_id_sessions fac))"
    "\<And>a. a \<in> dom (sessions fac) \<Longrightarrow> a < next_session fac"
  shows "ses_inv fac"
  using assms by (auto simp: ses_inv_def)

lemma id_key_back: "ucast (id_key i) = i"
  unfolding id_key_def by (rule bit_word_eqI) (auto simp: bit_simps)

lemma id_key_inj: "id_key i = id_key j \<longleftrightarrow> i = j"
  by (metis id_key_back)

text \<open>A session in memory is the one the map has under its identifier.\<close>

lemma session_key:
  assumes "ses_inv fac" "sessions fac a = Some s"
  shows "hm_map (agent_id_sessions fac) (id_key (relay_id s)) = Some a"
proof -
  have "a \<in> ran (hm_map (agent_id_sessions fac))"
    using ses_invD(5)[OF assms(1)] assms(2) by blast
  then obtain k where k: "hm_map (agent_id_sessions fac) k = Some a" by (auto simp: ran_def)
  with ses_invD(4)[OF assms(1) k] assms(2) show ?thesis by auto
qed

lemma session_view: "ses_inv fac \<Longrightarrow> sessions fac a = Some s \<Longrightarrow> sview fac (relay_id s) = Some s"
  using session_key by (simp add: sview_def)

lemma view_session:
  assumes "ses_inv fac" "sview fac i = Some s"
  obtains a where "hm_map (agent_id_sessions fac) (id_key i) = Some a" "sessions fac a = Some s" "relay_id s = i"
proof (cases "hm_map (agent_id_sessions fac) (id_key i)")
  case None
  then show thesis using assms(2) by (simp add: sview_def)
next
  case (Some a)
  then have a: "sessions fac a = Some s" using assms(2) by (simp add: sview_def)
  obtain s' where "sessions fac a = Some s'" "id_key i = id_key (relay_id s')"
    using ses_invD(4)[OF assms(1) Some] by blast
  then show thesis using that[OF Some a] a by (simp add: id_key_inj)
qed

lemma cmp_agrees: "D \<subseteq> dom mem \<Longrightarrow> agrees (session_comparator mem) (ses_rank mem) D"
  unfolding agrees_def
proof (intro ballI)
  fix a b assume "D \<subseteq> dom mem" "a \<in> D" "b \<in> D"
  then obtain s t where "mem a = Some s" "mem b = Some t" by blast
  then show "\<exists>r. session_comparator mem a b = Some r \<and>
      (0 < r \<longleftrightarrow> ses_rank mem b < ses_rank mem a) \<and> (r < 0 \<longleftrightarrow> ses_rank mem a < ses_rank mem b)"
    by (simp add: session_comparator_def ses_rank_def Let_def)
qed

lemma queue_members:
  assumes "ses_inv fac"
  shows "ran (hview (sessions_queue fac)) = dom (sessions fac)"
  using ses_invD(3,5)[OF assms] by simp

section \<open>What the operations do\<close>

lemma init_ses:
  "\<exists>fac. session_factory_init = Some (0, fac) \<and> ses_inv fac \<and> sview fac = Map.empty"
proof -
  obtain q :: "addr LazyHeap option" where q: "lazy_heap_create = Some q" "heap_inv (ses_rank Map.empty) q"
    "hview q = Map.empty" using create_heap_rep by blast
  then have "q \<noteq> None" by (cases q) (auto simp: heap_inv_def)
  obtain t :: "(uint64_t, addr) HashMap" where t:
    "hash_map_create (Some hash_func_uint64) (Some compare_uint) = Some (Some t)" "hm_rep t"
    "hm_map (Some t) = Map.empty"
    using create_hm_rep[of compare_uint hash_func_uint64] compare_uint_zero by blast
  define fac where "fac = \<lparr>agent_id_sessions = Some t, sessions_queue = q, sessions = Map.empty, next_session = 0\<rparr>"
  have "session_factory_init = Some (0, fac)"
    unfolding session_factory_init_def q(1) t(1) using \<open>q \<noteq> None\<close> by (simp add: fac_def)
  moreover have "ses_inv fac"
    using q(2,3) t(2,3) by (simp add: ses_inv_def fac_def hm_inv_def del: hm_map.simps)
  moreover have "sview fac = Map.empty"
    using t(3) by (simp add: sview_def fac_def fun_eq_iff del: hm_map.simps)
  ultimately show ?thesis by blast
qed

lemma get_spec:
  assumes "ses_inv fac"
  shows "session_get (Some p) fac = Some (hm_map (agent_id_sessions fac) (id_key (hdr_id (header p))))"
  using hmap.get_law[OF ses_invD(1)[OF assms]] by (simp split: option.split)

lemma peek_spec:
  assumes inv: "ses_inv fac"
  shows "\<exists>r fac'. session_peek fac = Some (r, fac') \<and> ses_inv fac' \<and> sview fac' = sview fac \<and>
    sessions fac' = sessions fac \<and> agent_id_sessions fac' = agent_id_sessions fac \<and>
    (case r of None \<Rightarrow> sview fac = Map.empty
     | Some a \<Rightarrow> \<exists>s. sessions fac a = Some s \<and> (\<forall>t \<in> ran (sview fac). timestamp s \<le> timestamp t))"
proof -
  note I = ses_invD[OF inv]
  have "agrees (session_comparator (sessions fac)) (ses_rank (sessions fac)) (ran (hview (sessions_queue fac)))"
    using queue_members[OF inv] by (intro cmp_agrees) simp
  from lheap.peek_law[OF I(2) this] obtain r q where q:
    "lazy_heap_peek (session_comparator (sessions fac)) (sessions_queue fac) = Some (r, q)"
    "heap_inv (ses_rank (sessions fac)) q" "hview q = hview (sessions_queue fac)"
    "case r of None \<Rightarrow> hview (sessions_queue fac) = Map.empty
       | Some x \<Rightarrow> x \<in> ran (hview (sessions_queue fac)) \<and>
           (\<forall>y \<in> ran (hview (sessions_queue fac)). ses_rank (sessions fac) x \<le> ses_rank (sessions fac) y)"
    by blast
  have "ses_inv (fac\<lparr>sessions_queue := q\<rparr>)" using inv q(2,3) by (simp add: ses_inv_def)
  moreover have "sview (fac\<lparr>sessions_queue := q\<rparr>) = sview fac" by (simp add: sview_def fun_eq_iff split: option.split)
  moreover have "case r of None \<Rightarrow> sview fac = Map.empty
     | Some a \<Rightarrow> \<exists>s. sessions fac a = Some s \<and> (\<forall>t \<in> ran (sview fac). timestamp s \<le> timestamp t)"
  proof (cases r)
    case None
    then show ?thesis using q(4) I(3) by (simp add: sview_def fun_eq_iff)
  next
    case (Some a)
    then have a: "a \<in> dom (sessions fac)"
      "\<And>b. b \<in> dom (sessions fac) \<Longrightarrow> ses_rank (sessions fac) a \<le> ses_rank (sessions fac) b"
      using q(4) queue_members[OF inv] by auto
    then obtain s where s: "sessions fac a = Some s" by blast
    have "timestamp s \<le> timestamp t" if t: "t \<in> ran (sview fac)" for t
    proof -
      obtain i where "sview fac i = Some t" using t by (auto simp: ran_def)
      then obtain b where "sessions fac b = Some t" by (rule view_session[OF inv])
      with a(2)[of b] s show ?thesis by (auto simp: ses_rank_def)
    qed
    with s Some show ?thesis by simp
  qed
  ultimately show ?thesis using q(1) by (auto simp: session_peek_def)
qed

lemma close_spec:
  assumes inv: "ses_inv fac" and s: "sessions fac a = Some s"
  shows "\<exists>fac'. session_close a fac = Some fac' \<and> ses_inv fac' \<and> sview fac' = (sview fac)(relay_id s := None)"
proof -
  note I = ses_invD[OF inv]
  let ?k = "id_key (relay_id s)"
  have ka: "hm_map (agent_id_sessions fac) ?k = Some a" by (rule session_key[OF inv s])
  obtain q where q: "lazy_heap_remove (sessions_queue fac) ?k = Some q"
    "heap_inv (ses_rank (sessions fac)) q" "hview q = (hview (sessions_queue fac))(?k := None)"
    using lheap.remove_law[OF I(2)] by blast
  obtain t where t: "hash_map_remove (agent_id_sessions fac) ?k = Some t" "hm_inv t"
    "hm_map t = (hm_map (agent_id_sessions fac))(?k := None)"
    using hmap.remove_law[OF I(1)] by blast
  define fac' where "fac' = fac\<lparr>sessions_queue := q, agent_id_sessions := t, sessions := (sessions fac)(a := None)\<rparr>"
  have run: "session_close a fac = Some fac'"
    by (simp add: session_close_def s q(1) t(1) fac'_def Let_def)
  have only: "k = ?k" if "hm_map (agent_id_sessions fac) k = Some a" for k
    using I(4)[OF that] s by auto
  have mem: "hm_map t k = Some b \<longleftrightarrow> k \<noteq> ?k \<and> hm_map (agent_id_sessions fac) k = Some b" for k b
    unfolding t(3) by auto
  have "b \<in> ran (hm_map t) \<longleftrightarrow> b \<in> ran (hm_map (agent_id_sessions fac)) \<and> b \<noteq> a" for b
  proof
    assume "b \<in> ran (hm_map t)"
    then obtain k where "hm_map t k = Some b" by (auto simp: ran_def)
    then have k: "k \<noteq> ?k" "hm_map (agent_id_sessions fac) k = Some b" by (simp_all add: mem)
    have "b \<noteq> a" using only[of k] k by (cases "b = a") simp_all
    then show "b \<in> ran (hm_map (agent_id_sessions fac)) \<and> b \<noteq> a" using k(2) by (auto simp: ran_def)
  next
    assume b: "b \<in> ran (hm_map (agent_id_sessions fac)) \<and> b \<noteq> a"
    then obtain k where k: "hm_map (agent_id_sessions fac) k = Some b" by (auto simp: ran_def)
    then have "k \<noteq> ?k" using ka b by auto
    then have "hm_map t k = Some b" using k by (simp add: mem)
    then show "b \<in> ran (hm_map t)" by (rule ranI)
  qed
  then have "ran (hm_map t) = ran (hm_map (agent_id_sessions fac)) - {a}" by blast
  then have dom: "dom (sessions fac') = ran (hm_map t)" using I(5) by (auto simp: fac'_def)
  have hv: "hview q = hm_map t" unfolding q(3) I(3) t(3) ..
  have "ses_rank (sessions fac') x = ses_rank (sessions fac) x" if "x \<in> ran (hview q)" for x
  proof -
    have "x \<in> dom (sessions fac')" using that unfolding hv dom .
    then show ?thesis by (auto simp: fac'_def ses_rank_def split: if_splits)
  qed
  then have heap: "heap_inv (ses_rank (sessions fac')) q" using lheap.rerank_law[OF q(2)] by blast
  have keys: "\<exists>s'. sessions fac' b = Some s' \<and> k = id_key (relay_id s')" if k: "hm_map t k = Some b" for k b
  proof -
    have "b \<noteq> a" using k only[of k] by (auto simp: mem)
    then show ?thesis using I(4)[of k b] k by (auto simp: fac'_def mem)
  qed
  have "ses_inv fac'"
  proof (rule ses_invI)
    show "a' < next_session fac'" if "a' \<in> dom (sessions fac')" for a'
      using that I(6)[of a'] by (auto simp: fac'_def split: if_splits)
    show "\<exists>s. sessions fac' a' = Some s \<and> k = id_key (relay_id s)" if "hm_map (agent_id_sessions fac') k = Some a'" for k a'
      using keys[of k a'] that by (simp add: fac'_def)
  qed (use t(2) heap hv dom in \<open>simp_all add: fac'_def\<close>)
  moreover have "sview fac' i = ((sview fac)(relay_id s := None)) i" for i
  proof (cases "i = relay_id s")
    case True
    then show ?thesis by (simp add: sview_def fac'_def t(3))
  next
    case False
    then have "hm_map t (id_key i) = hm_map (agent_id_sessions fac) (id_key i)"
      by (simp add: t(3) id_key_inj)
    moreover have "hm_map (agent_id_sessions fac) (id_key i) \<noteq> Some a"
      using only[of "id_key i"] False by (auto simp: id_key_inj)
    ultimately show ?thesis using False by (auto simp: sview_def fac'_def split: option.split)
  qed
  ultimately show ?thesis using run by blast
qed

text \<open>
  \<open>session_wait\<close>, for a session the map holds under its identifier and the queue may hold
  under it or not at all.
\<close>

lemma wait_spec:
  assumes hm: "hm_inv (agent_id_sessions fac)" and heap: "heap_inv (ses_rank (sessions fac)) (sessions_queue fac)"
    and s: "sessions fac a = Some s" and ka: "hm_map (agent_id_sessions fac) (id_key (relay_id s)) = Some a"
    and qk: "hview (sessions_queue fac) (id_key (relay_id s)) \<in> {None, Some a}"
    and qo: "\<forall>k. k \<noteq> id_key (relay_id s) \<longrightarrow> hview (sessions_queue fac) k = hm_map (agent_id_sessions fac) k"
    and keys: "\<forall>k b. hm_map (agent_id_sessions fac) k = Some b \<longrightarrow>
        (\<exists>s. sessions fac b = Some s \<and> k = id_key (relay_id s))"
    and mem: "dom (sessions fac) = ran (hm_map (agent_id_sessions fac))" "\<forall>b \<in> dom (sessions fac). b < next_session fac"
    and late: "\<forall>b t. sessions fac b = Some t \<longrightarrow> b \<noteq> a \<longrightarrow> timestamp t \<le> now" "timestamp s \<le> now"
  shows "\<exists>fac'. session_wait now a fac = Some fac' \<and> ses_inv fac' \<and>
    sview fac' = (sview fac)(relay_id s \<mapsto> s\<lparr>timestamp := now\<rparr>)"
proof -
  let ?k = "id_key (relay_id s)"
  let ?s = "s\<lparr>timestamp := now\<rparr>"
  let ?mem = "(sessions fac)(a \<mapsto> ?s)"
  let ?m = "hm_map (agent_id_sessions fac)"
  have only: "k = ?k" if "?m k = Some a" for k using keys that s by fastforce
  have sub: "hview (sessions_queue fac) k = Some b \<Longrightarrow> ?m k = Some b" for k b
    using qk qo ka by (cases "k = ?k") auto
  have members: "ran (hview (sessions_queue fac)) \<subseteq> dom (sessions fac)"
    unfolding mem(1) by (auto simp: ran_def dest: sub)
  have one: "\<forall>k'. k' \<noteq> ?k \<longrightarrow> hview (sessions_queue fac) k' \<noteq> Some a" using only sub by blast
  have same: "\<forall>y. y \<noteq> a \<longrightarrow> ses_rank ?mem y = ses_rank (sessions fac) y" by (simp add: ses_rank_def)
  have last: "\<forall>y \<in> ran (hview (sessions_queue fac)). ses_rank (sessions fac) y \<le> ses_rank ?mem a"
  proof
    fix y assume "y \<in> ran (hview (sessions_queue fac))"
    then obtain t where t: "sessions fac y = Some t" using members by blast
    show "ses_rank (sessions fac) y \<le> ses_rank ?mem a"
      using t s late(1)[rule_format, OF t] late(2) by (cases "y = a") (auto simp: ses_rank_def)
  qed
  have "insert a (ran (hview (sessions_queue fac))) \<subseteq> dom ?mem" using members by auto
  then have "agrees (session_comparator ?mem) (ses_rank ?mem) (insert a (ran (hview (sessions_queue fac))))"
    by (rule cmp_agrees)
  from lheap.restart[OF heap one same last this] obtain q1 q2 where q:
    "lazy_heap_remove (sessions_queue fac) ?k = Some q1"
    "lazy_heap_add (session_comparator ?mem) q1 ?k a = Some q2" "heap_inv (ses_rank ?mem) q2"
    "hview q2 = (hview (sessions_queue fac))(?k \<mapsto> a)" by blast
  define fac' where "fac' = fac\<lparr>sessions_queue := q2, sessions := ?mem\<rparr>"
  have rid: "relay_id ?s = relay_id s" by (simp add: relay_id_def)
  have run: "session_wait now a fac = Some fac'"
    by (simp add: session_wait_def s q(1,2) fac'_def Let_def rid)
  have hv: "hview q2 = ?m" unfolding q(4) using qo ka by (auto simp: fun_eq_iff)
  have keys': "\<exists>s'. ?mem b = Some s' \<and> k = id_key (relay_id s')" if k: "?m k = Some b" for k b
  proof (cases "b = a")
    case True
    then show ?thesis using only[of k] k rid by simp
  next
    case False
    then show ?thesis using keys k by simp
  qed
  have dom: "dom ?mem = dom (sessions fac)" using s by auto
  have ses': "sessions fac' = ?mem" by (simp add: fac'_def)
  have "ses_inv fac'"
  proof (rule ses_invI)
    show "b < next_session fac'" if "b \<in> dom (sessions fac')" for b
    proof -
      have "b \<in> dom (sessions fac)" using that unfolding ses' dom .
      then show ?thesis using mem(2) by (simp add: fac'_def)
    qed
    show "\<exists>s. sessions fac' b = Some s \<and> k = id_key (relay_id s)" if "hm_map (agent_id_sessions fac') k = Some b" for k b
      using keys'[of k b] that by (simp add: fac'_def)
    show "dom (sessions fac') = ran (hm_map (agent_id_sessions fac'))"
      unfolding ses' dom mem(1) by (simp add: fac'_def)
  qed (use hm q(3) hv in \<open>simp_all add: fac'_def\<close>)
  moreover have "sview fac' i = ((sview fac)(relay_id s \<mapsto> ?s)) i" for i
  proof (cases "i = relay_id s")
    case True
    then show ?thesis by (simp add: sview_def fac'_def ka)
  next
    case False
    then have "?m (id_key i) \<noteq> Some a" using only[of "id_key i"] by (auto simp: id_key_inj)
    then show ?thesis using False by (auto simp: sview_def fac'_def split: option.split)
  qed
  ultimately show ?thesis using run by blast
qed

text \<open>Restarting the timer of a session, and opening one.\<close>

definition not_later :: "SessionFactory \<Rightarrow> ms \<Rightarrow> bool" where
  "not_later fac now \<longleftrightarrow> (\<forall>s \<in> ran (sview fac). timestamp s \<le> now)"

lemma not_later_mem: "ses_inv fac \<Longrightarrow> not_later fac now \<Longrightarrow> sessions fac b = Some t \<Longrightarrow> timestamp t \<le> now"
  using session_view[of fac b t] by (auto simp: not_later_def ran_def)

lemma restart_spec:
  assumes inv: "ses_inv fac" and s: "sessions fac a = Some s" and late: "not_later fac now"
  shows "\<exists>fac'. session_wait now a fac = Some fac' \<and> ses_inv fac' \<and>
    sview fac' = (sview fac)(relay_id s \<mapsto> s\<lparr>timestamp := now\<rparr>)"
proof (rule wait_spec[OF ses_invD(1,2)[OF inv] s session_key[OF inv s]])
  show "hview (sessions_queue fac) (id_key (relay_id s)) \<in> {None, Some a}"
    using ses_invD(3)[OF inv] session_key[OF inv s] by simp
qed (use ses_invD[OF inv] not_later_mem[OF inv late] s in auto)

lemma open_spec:
  assumes inv: "ses_inv fac" and fresh: "sview fac (hdr_id (header p)) = None" and late: "not_later fac now" "0 \<le> now"
    and clone: "packet_clone p = Some p"
  shows "\<exists>fac'. session_open now cid ip p fac = Some (0, fac') \<and> ses_inv fac' \<and>
    sview fac' = (sview fac)(hdr_id (header p) \<mapsto>
      \<lparr>client_id = cid, client_ip = ip, timestamp = now, retry_times = 0, relay_packet = p\<rparr>)"
proof -
  note I = ses_invD[OF inv]
  let ?a = "next_session fac"
  let ?s = "\<lparr>client_id = cid, client_ip = ip, timestamp = 0, retry_times = 0, relay_packet = p\<rparr>"
  let ?k = "id_key (hdr_id (header p))"
  have rid: "relay_id ?s = hdr_id (header p)" by (simp add: relay_id_def)
  obtain r t where t: "hash_map_put (agent_id_sessions fac) ?k ?a = Some (r, t)" "hm_inv t"
    "hm_map t = (hm_map (agent_id_sessions fac))(?k \<mapsto> ?a)" using hmap.put_law[OF I(1), of ?k ?a] by blast
  have new: "sessions fac ?a = None" using I(6)[of ?a] by auto
  have old: "hm_map (agent_id_sessions fac) ?k = None"
    using fresh I(4)[of ?k] by (cases "hm_map (agent_id_sessions fac) ?k") (auto simp: sview_def)
  have notin: "hm_map (agent_id_sessions fac) k \<noteq> Some ?a" for k using I(4)[of k ?a] new by auto
  define fac1 where "fac1 = fac\<lparr>agent_id_sessions := t, sessions := (sessions fac)(?a \<mapsto> ?s), next_session := ?a + 1\<rparr>"
  have rank: "\<forall>x \<in> ran (hview (sessions_queue fac)). ses_rank (sessions fac1) x = ses_rank (sessions fac) x"
    using I(3) notin by (auto simp: ran_def ses_rank_def fac1_def)
  have "\<exists>fac'. session_wait now ?a fac1 = Some fac' \<and> ses_inv fac' \<and>
    sview fac' = (sview fac1)(relay_id ?s \<mapsto> ?s\<lparr>timestamp := now\<rparr>)"
  proof (rule wait_spec)
    show "heap_inv (ses_rank (sessions fac1)) (sessions_queue fac1)"
      using lheap.rerank_law[OF I(2) rank] by (simp add: fac1_def)
    show "hview (sessions_queue fac1) (id_key (relay_id ?s)) \<in> {None, Some ?a}"
      using I(3) old by (simp add: fac1_def rid)
    show "\<forall>k. k \<noteq> id_key (relay_id ?s) \<longrightarrow> hview (sessions_queue fac1) k = hm_map (agent_id_sessions fac1) k"
      using I(3) t(3) by (simp add: fac1_def rid)
    show "\<forall>k b. hm_map (agent_id_sessions fac1) k = Some b \<longrightarrow>
        (\<exists>s. sessions fac1 b = Some s \<and> k = id_key (relay_id s))"
      using I(4) notin t(3) rid by (auto simp: fac1_def)
    show "dom (sessions fac1) = ran (hm_map (agent_id_sessions fac1))"
      using I(5) old t(3) by (simp add: fac1_def)
    show "\<forall>b \<in> dom (sessions fac1). b < next_session fac1" using I(6) by (auto simp: fac1_def less_Suc_eq)
    show "\<forall>b t. sessions fac1 b = Some t \<longrightarrow> b \<noteq> ?a \<longrightarrow> timestamp t \<le> now"
      using not_later_mem[OF inv late(1)] by (simp add: fac1_def)
  qed (use t(2,3) rid late(2) in \<open>simp_all add: fac1_def\<close>)
  then obtain fac' where fac': "session_wait now ?a fac1 = Some fac'" "ses_inv fac'"
    "sview fac' = (sview fac1)(hdr_id (header p) \<mapsto> ?s\<lparr>timestamp := now\<rparr>)" unfolding rid by blast
  have "session_open now cid ip p fac = Some (0, fac')"
    using fac'(1) by (simp add: session_open_def clone t(1) rid Let_def fac1_def)
  moreover have "sview fac1 i = sview fac i" if "i \<noteq> hdr_id (header p)" for i
    using that notin[of "id_key i"] by (auto simp: sview_def fac1_def t(3) id_key_inj split: option.split)
  then have "sview fac' = (sview fac)(hdr_id (header p) \<mapsto> ?s\<lparr>timestamp := now\<rparr>)"
    unfolding fac'(3) by (auto simp: fun_eq_iff)
  ultimately show ?thesis using fac'(2) by auto
qed


lemma get_view:
  assumes "ses_inv fac"
  shows "\<exists>r. session_get (Some p) fac = Some r \<and>
    (case r of None \<Rightarrow> sview fac (hdr_id (header p)) = None
     | Some a \<Rightarrow> \<exists>s. sessions fac a = Some s \<and> relay_id s = hdr_id (header p) \<and>
         sview fac (hdr_id (header p)) = Some s)"
proof -
  let ?i = "hdr_id (header p)"
  show ?thesis
  proof (cases "hm_map (agent_id_sessions fac) (id_key ?i)")
    case None
    then show ?thesis using get_spec[OF assms, of p] by (simp add: sview_def)
  next
    case (Some a)
    then obtain s where "sessions fac a = Some s" "id_key ?i = id_key (relay_id s)"
      using ses_invD(4)[OF assms Some] by blast
    then show ?thesis using get_spec[OF assms, of p] Some by (simp add: sview_def id_key_inj)
  qed
qed

text \<open>A change of a session that its key and its rank do not see.\<close>

lemma touch_spec:
  assumes inv: "ses_inv fac" and s: "sessions fac a = Some s"
    and same: "relay_id s' = relay_id s" "timestamp s' = timestamp s"
  defines "fac' \<equiv> fac\<lparr>sessions := (sessions fac)(a \<mapsto> s')\<rparr>"
  shows "ses_inv fac'" "sview fac' = (sview fac)(relay_id s \<mapsto> s')"
proof -
  note I = ses_invD[OF inv]
  have rank: "ses_rank (sessions fac') x = ses_rank (sessions fac) x" for x
    using s same by (simp add: fac'_def ses_rank_def)
  then have "heap_inv (ses_rank (sessions fac')) (sessions_queue fac)" using lheap.rerank_law[OF I(2)] by blast
  moreover have "dom (sessions fac') = dom (sessions fac)" using s by (auto simp: fac'_def)
  moreover have "\<exists>t. sessions fac' b = Some t \<and> k = id_key (relay_id t)"
    if k: "hm_map (agent_id_sessions fac) k = Some b" for k b
    using I(4)[OF k] s same by (auto simp: fac'_def)
  ultimately show "ses_inv fac'"
    using I(1,3,5,6) s by (intro ses_invI) (auto simp: fac'_def)
  have "sview fac' i = ((sview fac)(relay_id s \<mapsto> s')) i" for i
  proof (cases "i = relay_id s")
    case True
    then show ?thesis using session_key[OF inv s] by (simp add: sview_def fac'_def)
  next
    case False
    then have "hm_map (agent_id_sessions fac) (id_key i) \<noteq> Some a"
      using I(4)[of "id_key i" a] s by (auto simp: id_key_inj)
    then show ?thesis using False by (auto simp: sview_def fac'_def split: option.split)
  qed
  then show "sview fac' = (sview fac)(relay_id s \<mapsto> s')" by blast
qed

text \<open>
  Closing a session whose packet no longer has the identifier it was opened under: its memory
  is freed, but map and heap still have it, and it is the next one \<open>session_peek\<close> returns.
\<close>

lemma close_renamed:
  assumes inv: "ses_inv fac" and peek: "session_peek fac = Some (Some a, fac1)"
    and x: "sessions fac a = Some x" and renamed: "relay_id x' \<noteq> relay_id x"
  shows "\<exists>fac2. session_close a (fac1\<lparr>sessions := (sessions fac1)(a \<mapsto> x')\<rparr>) = Some fac2 \<and>
    sessions fac2 a = None \<and> session_peek fac2 = Some (Some a, fac2)"
proof -
  note I = ses_invD[OF inv]
  let ?k = "id_key (relay_id x')"
  have ag: "agrees (session_comparator (sessions fac)) (ses_rank (sessions fac)) (ran (hview (sessions_queue fac)))"
    using queue_members[OF inv] by (intro cmp_agrees) simp
  obtain q where q: "lazy_heap_peek (session_comparator (sessions fac)) (sessions_queue fac) = Some (Some a, q)"
    "fac1 = fac\<lparr>sessions_queue := q\<rparr>"
    using peek by (auto simp: session_peek_def bind_eq_Some_conv)
  obtain r q' where "lazy_heap_peek (session_comparator (sessions fac)) (sessions_queue fac) = Some (r, q')"
    "hview q' = hview (sessions_queue fac)" using lheap.peek_law[OF I(2) ag] by blast
  then have "hview q = hm_map (agent_id_sessions fac)" using q(1) I(3) by simp
  then have "hview q ?k \<noteq> Some a" using I(4)[of ?k a] x renamed by (auto simp: id_key_inj)
  from peek_again[OF I(2) ag q(1) this] obtain p where p: "lazy_heap_remove q ?k = Some p"
    "\<forall>cmp'. lazy_heap_peek cmp' p = Some (Some a, p)" by blast
  obtain t where t: "hash_map_remove (agent_id_sessions fac) ?k = Some t" using hmap.remove_law[OF I(1)] by blast
  define fac2 where "fac2 = fac\<lparr>sessions_queue := p, agent_id_sessions := t, sessions := (sessions fac)(a := None)\<rparr>"
  have "session_close a (fac1\<lparr>sessions := (sessions fac1)(a \<mapsto> x')\<rparr>) = Some fac2"
    by (simp add: session_close_def q(2) p(1) t Let_def fac2_def)
  moreover have "session_peek fac2 = Some (Some a, fac2)"
    by (simp add: session_peek_def fac2_def p(2))
  ultimately show ?thesis by (auto simp: fac2_def)
qed

section \<open>Interface\<close>

text \<open>
  What the server relies on. \<open>mem\<close> reads a session through its address and \<open>alter\<close> stores
  one that keeps its relay identifier and its time.
\<close>

locale session_store =
  fixes inv :: "'f \<Rightarrow> bool"
    and view :: "'f \<Rightarrow> uint16_t \<Rightarrow> Session option"
    and mem :: "'f \<Rightarrow> addr \<Rightarrow> Session option"
    and alter :: "addr \<Rightarrow> Session \<Rightarrow> 'f \<Rightarrow> 'f"
    and find :: "DnsPacket option \<Rightarrow> 'f \<Rightarrow> addr option option"
    and close :: "addr \<Rightarrow> 'f \<Rightarrow> 'f option"
    and wait :: "ms \<Rightarrow> addr \<Rightarrow> 'f \<Rightarrow> 'f option"
    and peek :: "'f \<Rightarrow> (addr option \<times> 'f) option"
  assumes mem_law: "inv f \<Longrightarrow> mem f a = Some s \<Longrightarrow> view f (relay_id s) = Some s"
    and find_law: "inv f \<Longrightarrow> \<exists>r. find (Some p) f = Some r \<and>
      (case r of None \<Rightarrow> view f (hdr_id (header p)) = None
       | Some a \<Rightarrow> \<exists>s. mem f a = Some s \<and> relay_id s = hdr_id (header p) \<and> view f (hdr_id (header p)) = Some s)"
    and close_law: "inv f \<Longrightarrow> mem f a = Some s \<Longrightarrow>
      \<exists>f'. close a f = Some f' \<and> inv f' \<and> view f' = (view f)(relay_id s := None)"
    and wait_law: "inv f \<Longrightarrow> mem f a = Some s \<Longrightarrow> \<forall>t \<in> ran (view f). timestamp t \<le> now \<Longrightarrow>
      \<exists>f'. wait now a f = Some f' \<and> inv f' \<and> view f' = (view f)(relay_id s \<mapsto> s\<lparr>timestamp := now\<rparr>)"
    and peek_law: "inv f \<Longrightarrow> \<exists>r f'. peek f = Some (r, f') \<and> inv f' \<and> view f' = view f \<and> mem f' = mem f \<and>
      (case r of None \<Rightarrow> view f = Map.empty
       | Some a \<Rightarrow> \<exists>s. mem f a = Some s \<and> (\<forall>t \<in> ran (view f). timestamp s \<le> timestamp t))"
    and alter_law: "inv f \<Longrightarrow> mem f a = Some s \<Longrightarrow> relay_id s' = relay_id s \<Longrightarrow> timestamp s' = timestamp s \<Longrightarrow>
      inv (alter a s' f) \<and> view (alter a s' f) = (view f)(relay_id s \<mapsto> s') \<and> mem (alter a s' f) = (mem f)(a \<mapsto> s')"
begin

text \<open>The retry of a session: its counter goes up and its timer starts again.\<close>

lemma retry:
  assumes "inv f" "mem f a = Some s" "\<forall>t \<in> ran (view f). timestamp t \<le> now"
  shows "\<exists>f'. wait now a (alter a (s\<lparr>retry_times := n\<rparr>) f) = Some f' \<and> inv f' \<and>
    view f' = (view f)(relay_id s \<mapsto> s\<lparr>retry_times := n, timestamp := now\<rparr>)"
proof -
  let ?s = "s\<lparr>retry_times := n\<rparr>"
  let ?f = "alter a ?s f"
  have rid: "relay_id ?s = relay_id s" by (simp add: relay_id_def)
  from alter_law[OF assms(1,2) rid] have f: "inv ?f" "view ?f = (view f)(relay_id s \<mapsto> ?s)" "mem ?f a = Some ?s"
    by simp_all
  have "timestamp s \<le> now" using mem_law[OF assms(1,2)] assms(3) by (auto simp: ran_def)
  then have "\<forall>t \<in> ran (view ?f). timestamp t \<le> now" using assms(3) unfolding f(2) by (auto simp: ran_def)
  from wait_law[OF f(1,3) this] show ?thesis unfolding rid f(2) by auto
qed

text \<open>A response finds its session; once closed, the same response finds none.\<close>

lemma find_close:
  assumes "inv f" "find (Some p) f = Some (Some a)"
  shows "\<exists>f'. close a f = Some f' \<and> inv f' \<and> view f' = (view f)(hdr_id (header p) := None) \<and>
    find (Some p) f' = Some None"
proof -
  obtain s where s: "mem f a = Some s" "relay_id s = hdr_id (header p)" using find_law[OF assms(1), of p] assms(2) by auto
  then obtain f' where f': "close a f = Some f'" "inv f'" "view f' = (view f)(hdr_id (header p) := None)"
    using close_law[OF assms(1) s(1)] by auto
  have "find (Some p) f' = Some None" using find_law[OF f'(2), of p] f'(3) by (auto split: option.splits)
  with f' show ?thesis by blast
qed

end

interpretation ses: session_store ses_inv sview sessions
  "\<lambda>a s fac. fac\<lparr>sessions := (sessions fac)(a \<mapsto> s)\<rparr>" session_get session_close session_wait session_peek
proof unfold_locales
  fix fac :: SessionFactory and p :: DnsPacket
  assume inv: "ses_inv fac"
  show "\<exists>r. session_get (Some p) fac = Some r \<and>
      (case r of None \<Rightarrow> sview fac (hdr_id (header p)) = None
       | Some a \<Rightarrow> \<exists>s. sessions fac a = Some s \<and> relay_id s = hdr_id (header p) \<and>
           sview fac (hdr_id (header p)) = Some s)" by (rule get_view[OF inv])
  show "\<exists>r fac'. session_peek fac = Some (r, fac') \<and> ses_inv fac' \<and> sview fac' = sview fac \<and>
      sessions fac' = sessions fac \<and>
      (case r of None \<Rightarrow> sview fac = Map.empty
       | Some a \<Rightarrow> \<exists>s. sessions fac a = Some s \<and> (\<forall>t \<in> ran (sview fac). timestamp s \<le> timestamp t))"
    using peek_spec[OF inv] by blast
qed (auto simp: session_view touch_spec not_later_def intro: close_spec restart_spec)

section \<open>Properties\<close>

text \<open>
  C15. The sessions behave as a partial function from relay identifiers: \<open>session_get\<close> looks
  one up, \<open>session_open\<close> adds one under a free identifier with the given client and time,
  \<open>session_close\<close> and \<open>session_wait\<close> remove and restart exactly the session they are given,
  \<open>session_peek\<close> returns one that was sent first. Map, heap and memory stay in step,
  whatever entries earlier removals left in the heap. Times must not go backwards.
\<close>

theorem session_ops_correct:
  assumes "ses_inv fac" and "not_later fac now" and "0 \<le> now"
  shows "(\<exists>r. session_get (Some p) fac = Some r \<and> (r = None \<longleftrightarrow> sview fac (hdr_id (header p)) = None) \<and>
      (\<forall>a. r = Some a \<longrightarrow> sessions fac a = sview fac (hdr_id (header p)))) \<and>
    (sview fac (hdr_id (header p)) = None \<and> packet_clone p = Some p \<longrightarrow>
      (\<exists>fac'. session_open now cid ip p fac = Some (0, fac') \<and> ses_inv fac' \<and>
        sview fac' = (sview fac)(hdr_id (header p) \<mapsto>
          \<lparr>client_id = cid, client_ip = ip, timestamp = now, retry_times = 0, relay_packet = p\<rparr>))) \<and>
    (\<forall>s. sessions fac a = Some s \<longrightarrow>
      (\<exists>fac'. session_close a fac = Some fac' \<and> ses_inv fac' \<and> sview fac' = (sview fac)(relay_id s := None)) \<and>
      (\<exists>fac'. session_wait now a fac = Some fac' \<and> ses_inv fac' \<and>
        sview fac' = (sview fac)(relay_id s \<mapsto> s\<lparr>timestamp := now\<rparr>))) \<and>
    (\<exists>r fac'. session_peek fac = Some (r, fac') \<and> ses_inv fac' \<and> sview fac' = sview fac \<and>
      (r = None \<longleftrightarrow> sview fac = Map.empty) \<and>
      (\<forall>b. r = Some b \<longrightarrow> (\<exists>s. sessions fac b = Some s \<and> sview fac (relay_id s) = Some s \<and>
        (\<forall>t \<in> ran (sview fac). timestamp s \<le> timestamp t))))"
    (is "?get \<and> ?open \<and> ?upd \<and> ?peek")
proof (intro conjI)
  show ?get
    using get_view[OF assms(1), of p] by (auto simp del: session_get.simps split: option.splits)
  show ?open using open_spec[OF assms(1) _ assms(2,3)] by blast
  show ?upd using close_spec[OF assms(1)] restart_spec[OF assms(1) _ assms(2)] by blast
  obtain r fac' where p: "session_peek fac = Some (r, fac')" "ses_inv fac'" "sview fac' = sview fac"
    "case r of None \<Rightarrow> sview fac = Map.empty
     | Some b \<Rightarrow> \<exists>s. sessions fac b = Some s \<and> (\<forall>t \<in> ran (sview fac). timestamp s \<le> timestamp t)"
    using peek_spec[OF assms(1)] by blast
  show ?peek
  proof (cases r)
    case None
    then show ?thesis using p by simp
  next
    case (Some b)
    with p(4) obtain s where s: "sessions fac b = Some s" "\<forall>t \<in> ran (sview fac). timestamp s \<le> timestamp t"
      by auto
    have "sview fac (relay_id s) = Some s" by (rule session_view[OF assms(1) s(1)])
    moreover from this have "sview fac \<noteq> Map.empty" by auto
    ultimately show ?thesis using p Some s by auto
  qed
qed

text \<open>The sessions of a fresh factory, and one query in it.\<close>

definition relay_sample :: DnsPacket where
  "relay_sample = sample_packet\<lparr>header := (header sample_packet)\<lparr>hdr_id := 65535\<rparr>\<rparr>"

definition client_sample :: NetEnd where
  "client_sample = \<lparr>end_addr = v4_prefix @ [10, 0, 0, 7], end_version = IPV6, end_port = 5353\<rparr>"

theorem session_ops_correct_witness:
  "\<exists>fac fac'. session_factory_init = Some (0, fac) \<and>
    session_open 5 7 client_sample relay_sample fac = Some (0, fac') \<and>
    sview fac' = [65535 \<mapsto> \<lparr>client_id = 7, client_ip = client_sample, timestamp = 5, retry_times = 0,
      relay_packet = relay_sample\<rparr>]"
proof -
  obtain fac where fac: "session_factory_init = Some (0, fac)" "ses_inv fac" "sview fac = Map.empty"
    using init_ses by blast
  have "not_later fac 5" by (simp add: not_later_def fac(3))
  moreover have "packet_clone relay_sample = Some relay_sample"
    by (rule clone_exact) (simp add: relay_sample_def sample_packet_def)
  moreover have "hdr_id (header relay_sample) = 65535" by (simp add: relay_sample_def)
  ultimately show ?thesis
    using session_ops_correct[OF fac(2), of 5 relay_sample 7 client_sample 0] fac(1,3)
    by (simp del: session_get.simps) blast
qed

end
