(* ===== verification/Server.thy ===== *)
theory Server
  imports Session_Factory Dns_Resolver Id_Factory Stl_LinkedList
begin

text \<open>
  The relay's event loop, \<^verbatim>\<open>src/server/server.c\<close>: choosing an upstream server, sending and
  receiving packets, handling a packet, handling timeouts, and one iteration of
  \<open>server_loop\<close>. The file's static variables are the record \<open>Server\<close>; \<open>outbox\<close> records
  the \<open>sendto\<close> calls in order with their results. What the relay does not decide is an
  argument: the results of the system calls (in \<open>Config\<close> and as \<open>arrival\<close>s) and the time
  each call of the clock returns. Log lines and the error chain are left out.
\<close>

section \<open>State\<close>

record Config =
  request_timeout :: ms
  max_retry_time :: int
  use_cache :: bool
  sendto :: "nat \<Rightarrow> byte list \<Rightarrow> SockAddr \<Rightarrow> int"

record Server =
  id_pool :: IdPool
  factory :: SessionFactory
  dns_cache :: "DnsCache option"
  upstreams :: "NetEnd LinkedList"
  next_upstream :: "addr option"
  send_buf :: "byte list"
  recv_buf :: "byte list"
  outbox :: "(byte list \<times> SockAddr \<times> int) list"

definition DNS_SEND_BUF_SIZE :: int where "DNS_SEND_BUF_SIZE = 4096"
definition DNS_RECV_BUF_SIZE :: nat where "DNS_RECV_BUF_SIZE = 4096"
definition MAX_PACKET_SIZE :: int where "MAX_PACKET_SIZE = 512"

section \<open>Sending\<close>

text \<open>The \<open>n\<close>-th \<open>sendto\<close> call has the result \<open>sendto cf n\<close>.\<close>

definition packet_send :: "Config \<Rightarrow> DnsPacket \<Rightarrow> NetEnd \<Rightarrow> Server \<Rightarrow> (int \<times> Server) option" where
  "packet_send cf dns_pack dest s = do {
     (buf, raw_pack_size) \<leftarrow> pack_serialize dns_pack (send_buf s) DNS_SEND_BUF_SIZE;
     let s1 = s\<lparr>send_buf := buf\<rparr>;
     if raw_pack_size < 0 \<or> raw_pack_size > MAX_PACKET_SIZE then Some (1, s1)
     else do {
       r \<leftarrow> socket_send (sendto cf (length (outbox s1))) buf raw_pack_size dest;
       bytes \<leftarrow> arr_read buf 0 (nat raw_pack_size);
       Some (if r \<ge> 0 then 0 else 1, s1\<lparr>outbox := outbox s1 @ [(bytes, dest_sockaddr dest, r)]\<rparr>) } }"

definition pick_upstream :: "Server \<Rightarrow> (NetEnd \<times> Server) option" where
  "pick_upstream s = do {
     a \<leftarrow> (case next_upstream s of None \<Rightarrow> list_head (upstreams s) | Some a \<Rightarrow> Some a);
     nd \<leftarrow> nodes (upstreams s) a;
     Some (node_data nd, s\<lparr>next_upstream := node_next nd\<rparr>) }"

section \<open>Receiving\<close>

text \<open>
  What the socket holds for the next call of \<open>recvfrom\<close>: a datagram with the 16 bytes of its
  source address and its port, or an error. \<open>None\<close> is the empty socket.
\<close>

datatype arrival = Datagram "byte list" "byte list" uint16_t | Receive_Error

definition recv_call :: "arrival option \<Rightarrow> NetEnd \<Rightarrow> byte list \<Rightarrow> int \<times> NetEnd \<times> byte list" where
  "recv_call x source buf =
     (case x of
        None \<Rightarrow> (case socket_recv_nowait (-1) True [] 0 source of (n, src) \<Rightarrow> (n, src, buf))
      | Some Receive_Error \<Rightarrow> (case socket_recv_nowait (-1) False [] 0 source of (n, src) \<Rightarrow> (n, src, buf))
      | Some (Datagram bytes adr port) \<Rightarrow>
          (let got = take DNS_RECV_BUF_SIZE bytes
           in case socket_recv_nowait (int (length got)) False adr port source of
                (n, src) \<Rightarrow> (n, src, got @ drop (length got) buf)))"

text \<open>The return code (1: no data, -1: failure), the packet, and the source.\<close>

definition pack_recv :: "arrival option \<Rightarrow> NetEnd \<Rightarrow> Server
    \<Rightarrow> (int \<times> DnsPacket option \<times> NetEnd \<times> Server) option" where
  "pack_recv x source s =
     (case recv_call x source (recv_buf s) of (len, src, buf) \<Rightarrow>
        (let s1 = s\<lparr>recv_buf := buf\<rparr>
         in if len = 0 then Some (1, None, src, s1)
            else if len = -1 then Some (-1, None, src, s1)
            else do { (r, p) \<leftarrow> pack_deserialize buf len; Some (r, p, src, s1) }))"

section \<open>Timeouts\<close>

text \<open>
  The identifier of the session's packet is overwritten with the client's before
  \<open>session_close\<close>, which computes its key from that packet. \<open>now\<close> is the time at
  \<open>session_wait\<close>; \<open>retry_times\<close> is a signed \<open>char\<close>.
\<close>

definition do_handle_timeout :: "Config \<Rightarrow> ms \<Rightarrow> addr \<Rightarrow> Server \<Rightarrow> Server option" where
  "do_handle_timeout cf now a s = do {
     session \<leftarrow> sessions (factory s) a;
     let rid = relay_id session;
     if sint (retry_times session) \<ge> max_retry_time cf
     then do {
       let query = (relay_packet session)\<lparr>header := (header (relay_packet session))\<lparr>hdr_id := client_id session\<rparr>\<rparr>;
       let s0 = s\<lparr>factory := (factory s)\<lparr>sessions := (sessions (factory s))(a \<mapsto> session\<lparr>relay_packet := query\<rparr>)\<rparr>\<rparr>;
       let fail_pack = pack_make_inner_error query;
       (r, s1) \<leftarrow> packet_send cf fail_pack (client_ip session) s0;
       fac \<leftarrow> session_close a (factory s1);
       Some (s1\<lparr>factory := fac, id_pool := id_free rid (id_pool s1)\<rparr>) }
     else do {
       (upstream, s1) \<leftarrow> pick_upstream s;
       (r, s2) \<leftarrow> packet_send cf (relay_packet session) upstream s1;
       session2 \<leftarrow> sessions (factory s2) a;
       let fac = (factory s2)\<lparr>sessions := (sessions (factory s2))(a \<mapsto> session2\<lparr>retry_times := retry_times session2 + 1\<rparr>)\<rparr>;
       fac1 \<leftarrow> session_wait now a fac;
       Some (s2\<lparr>factory := fac1\<rparr>) } }"

text \<open>The loop reads the clock twice in every iteration, for the remaining time and for the restart.\<close>

partial_function (option) batch_timeout :: "Config \<Rightarrow> (nat \<Rightarrow> ms) \<Rightarrow> nat \<Rightarrow> Server \<Rightarrow> Server option" where
  "batch_timeout cf clock i s = do {
     (session, fac) \<leftarrow> session_peek (factory s);
     let s1 = s\<lparr>factory := fac\<rparr>;
     (case session of
        None \<Rightarrow> Some s1
      | Some a \<Rightarrow> do {
          time_remain \<leftarrow> get_session_timeout_remain (clock (2 * i)) a (request_timeout cf) fac;
          if time_remain > 0 then Some s1
          else do {
            s2 \<leftarrow> do_handle_timeout cf (clock (2 * i + 1)) a s1;
            batch_timeout cf clock (Suc i) s2 } }) }"

section \<open>Packets\<close>

text \<open>
  \<open>clock 0\<close> is the time at which a session is opened or an answer cached, the later ones are
  those of the look-ups in the cache.
\<close>

definition handle_dns_packet :: "Config \<Rightarrow> (nat \<Rightarrow> ms) \<Rightarrow> DnsPacket \<Rightarrow> NetEnd \<Rightarrow> Server \<Rightarrow> Server option" where
  "handle_dns_packet cf clock packet_in source_end s =
     (if packet_is_query packet_in
      then do {
        (direction, local, c) \<leftarrow> pack_try_response_local (\<lambda>i. clock (Suc i)) packet_in (dns_cache s);
        let s1 = s\<lparr>dns_cache := c\<rparr>;
        if direction = CLIENT
        then do {
          packet_out \<leftarrow> local;
          (r, s2) \<leftarrow> packet_send cf packet_out source_end s1;
          Some s2 }
        else (case id_alloc True (id_pool s1) of (full, allocated, pl) \<Rightarrow>
          if full \<noteq> 0
          then do {
            (r, s2) \<leftarrow> packet_send cf (pack_make_inner_error packet_in) source_end (s1\<lparr>id_pool := pl\<rparr>);
            Some s2 }
          else do {
            rid \<leftarrow> allocated;
            packet_out \<leftarrow> pack_make_query_relay packet_in rid;
            (upstream, s2) \<leftarrow> pick_upstream (s1\<lparr>id_pool := pl\<rparr>);
            (failed, s3) \<leftarrow> packet_send cf packet_out upstream s2;
            if failed \<noteq> 0 then Some (s3\<lparr>id_pool := id_free rid (id_pool s3)\<rparr>)
            else do {
              (r, fac) \<leftarrow> session_open (clock 0) (hdr_id (header packet_in)) source_end packet_out (factory s3);
              Some (s3\<lparr>factory := fac\<rparr>) } }) }
      else do {
        found \<leftarrow> session_get (Some packet_in) (factory s);
        (case found of
           None \<Rightarrow> Some s
         | Some a \<Rightarrow> do {
             session \<leftarrow> sessions (factory s) a;
             (packet_out, c) \<leftarrow> pack_make_response_relay (use_cache cf) (clock 0) packet_in (client_id session) (dns_cache s);
             (r, s1) \<leftarrow> packet_send cf packet_out (client_ip session) (s\<lparr>dns_cache := c\<rparr>);
             fac \<leftarrow> session_close a (factory s1);
             Some (s1\<lparr>factory := fac, id_pool := id_free (hdr_id (header packet_in)) (id_pool s1)\<rparr>) }) })"

section \<open>The loop\<close>

text \<open>
  The inner loop over the socket: the arrivals are what is in it and what comes while it is
  read. A packet that does not parse ends the loop, as an error does. \<open>clock i\<close> is the clock
  of the \<open>i\<close>-th packet; the result is what is left in the socket and the state.
\<close>

fun recv_loop :: "Config \<Rightarrow> (nat \<Rightarrow> nat \<Rightarrow> ms) \<Rightarrow> nat \<Rightarrow> arrival list \<Rightarrow> NetEnd \<Rightarrow> Server
    \<Rightarrow> (arrival list \<times> Server) option" where
  "recv_loop cf clock i [] source s = do {
     (ret, p, src, s1) \<leftarrow> pack_recv None source s;
     Some ([], s1) }"
| "recv_loop cf clock i (x # xs) source s = do {
     (ret, p, src, s1) \<leftarrow> pack_recv (Some x) source s;
     if ret = 1 \<or> ret = -1 then Some (xs, s1)
     else do {
       packet \<leftarrow> p;
       s2 \<leftarrow> handle_dns_packet cf (clock i) packet src s1;
       recv_loop cf clock (Suc i) xs src s2 } }"

text \<open>
  One iteration of \<open>server_loop\<close>; \<open>source_end\<close> is its uninitialised local variable and
  \<open>select\<close> what the system call returns. The flag says whether the loop goes on.
\<close>

record Inputs =
  started :: ms
  select_result :: "(int \<times> int) option \<Rightarrow> int"
  source_end :: NetEnd
  arrivals :: "arrival list"
  packet_clock :: "nat \<Rightarrow> nat \<Rightarrow> ms"
  timeout_clock :: "nat \<Rightarrow> ms"

definition server_round :: "Config \<Rightarrow> Inputs \<Rightarrow> Server \<Rightarrow> (bool \<times> arrival list \<times> Server) option" where
  "server_round cf x s = do {
     (earliest, fac) \<leftarrow> session_peek (factory s);
     let s1 = s\<lparr>factory := fac\<rparr>;
     next_timeout \<leftarrow> (case earliest of
         None \<Rightarrow> Some (-1)
       | Some a \<Rightarrow> get_session_timeout_remain (started x) a (request_timeout cf) fac);
     if select_result x (sleep_timeval next_timeout) \<ge> 0
     then do {
       (rest, s2) \<leftarrow> recv_loop cf (packet_clock x) 0 (arrivals x) (source_end x) s1;
       s3 \<leftarrow> batch_timeout cf (timeout_clock x) 0 s2;
       Some (True, rest, s3) }
     else Some (False, arrivals x, s1) }"

section \<open>Invariant\<close>

text \<open>The bytes a received packet may need without compression, half of the send buffer.\<close>

definition ROOM :: nat where "ROOM = 2048"

definition upstreams_ok :: "NetEnd LinkedList \<Rightarrow> addr option \<Rightarrow> bool" where
  "upstreams_ok l nxt \<longleftrightarrow> (\<exists>as. lrep l as \<and> as \<noteq> [] \<and> nxt \<in> insert None (Some ` set as))"

definition relay_ok :: "Session \<Rightarrow> bool" where
  "relay_ok t \<longleftrightarrow> packet_sound (relay_packet t) \<and> packet_room (relay_packet t) \<le> ROOM"

text \<open>Identifiers and sessions: the identifiers in use are those of the sessions.\<close>

definition books_ok :: "ms \<Rightarrow> IdPool \<Rightarrow> SessionFactory \<Rightarrow> bool" where
  "books_ok now pl fac \<longleftrightarrow> pool_inv pl \<and> ses_inv fac \<and> used_ids pl = dom (sview fac) \<and>
     (\<forall>t \<in> ran (sview fac). timestamp t \<le> now \<and> relay_ok t) \<and> 0 \<le> now"

definition cache_fine :: "DnsCache option \<Rightarrow> bool" where
  "cache_fine c \<longleftrightarrow> (\<exists>cap L. cache_opt cap c L \<and> cache_sound ROOM L)"

definition server_inv :: "ms \<Rightarrow> Server \<Rightarrow> bool" where
  "server_inv now s \<longleftrightarrow> books_ok now (id_pool s) (factory s) \<and> cache_fine (dns_cache s) \<and>
     upstreams_ok (upstreams s) (next_upstream s) \<and> length (send_buf s) = 4096 \<and> length (recv_buf s) = 4096"

text \<open>A packet the parser may hand to the relay.\<close>

definition packet_fine :: "bool \<Rightarrow> DnsPacket \<Rightarrow> bool" where
  "packet_fine caching p \<longleftrightarrow> packet_sound p \<and> names_ok (questions p) \<and> packet_room p \<le> ROOM \<and>
     (caching \<and> \<not> packet_is_query p \<longrightarrow> questions p \<noteq> [])"

section \<open>What the operations do\<close>

lemma send_spec:
  assumes "packet_sound p" "packet_room p \<le> 4096" "length (send_buf s) = 4096"
  shows "\<exists>r b out. packet_send cf p dest s = Some (r, s\<lparr>send_buf := b, outbox := out\<rparr>) \<and> length b = 4096 \<and> r \<in> {0, 1}"
proof -
  have "packet_room p \<le> length (send_buf s)" "int (packet_room p) \<le> DNS_SEND_BUF_SIZE"
    using assms by (simp_all add: DNS_SEND_BUF_SIZE_def)
  from pack_serialize_total[OF assms(1) this] obtain e where e:
    "pack_serialize p (send_buf s) DNS_SEND_BUF_SIZE = Some (e @ drop (length e) (send_buf s), int (length e))"
    "length e \<le> packet_room p" by blast
  let ?b = "e @ drop (length e) (send_buf s)"
  have len: "length ?b = 4096" using e(2) assms(2,3) by simp
  have rd: "arr_read ?b 0 (length e) = Some e" by (simp add: arr_read_def)
  have s0: "s\<lparr>send_buf := ?b\<rparr> = s\<lparr>send_buf := ?b, outbox := outbox s\<rparr>" by simp
  show ?thesis
  proof (cases "int (length e) > MAX_PACKET_SIZE")
    case True
    then have "packet_send cf p dest s = Some (1, s\<lparr>send_buf := ?b, outbox := outbox s\<rparr>)"
      using e(1) s0 by (simp add: packet_send_def Let_def)
    with len show ?thesis by blast
  next
    case False
    define r where "r = sendto cf (length (outbox s)) e (dest_sockaddr dest)"
    have "packet_send cf p dest s = Some (if r \<ge> 0 then 0 else 1,
        s\<lparr>send_buf := ?b, outbox := outbox s @ [(e, dest_sockaddr dest, r)]\<rparr>)"
      using False e(1) rd by (simp add: packet_send_def socket_send_def Let_def r_def)
    with len show ?thesis by (cases "r \<ge> 0") auto
  qed
qed

lemma pick_spec:
  assumes "upstreams_ok (upstreams s) (next_upstream s)"
  shows "\<exists>up nxt. pick_upstream s = Some (up, s\<lparr>next_upstream := nxt\<rparr>) \<and> upstreams_ok (upstreams s) nxt \<and>
    up \<in> set (lseq (upstreams s))"
proof -
  obtain as where as: "lrep (upstreams s) as" "as \<noteq> []" "next_upstream s \<in> insert None (Some ` set as)"
    using assms by (auto simp: upstreams_ok_def)
  have "list_head (upstreams s) = Some (hd as)" using as(1,2) by (cases as) (auto simp: lrep_def)
  with as obtain a where a: "(case next_upstream s of None \<Rightarrow> list_head (upstreams s) | Some a \<Rightarrow> Some a) = Some a"
    "a \<in> set as" by (cases "next_upstream s") auto
  then obtain xs ys where split: "as = xs @ a # ys" by (auto simp: in_set_conv_decomp)
  with as(1) obtain nd where nd: "nodes (upstreams s) a = Some nd" "node_next nd = first_or ys None"
    using lrep_split by metis
  have "node_next nd \<in> insert None (Some ` set as)" using nd(2) split by (cases ys) auto
  then have "upstreams_ok (upstreams s) (node_next nd)" using as(1,2) by (auto simp: upstreams_ok_def)
  moreover have "node_data nd \<in> set (lseq (upstreams s))"
    using a(2) nd(1) lrep_lseq[OF as(1)] by (force simp: ndata_def)
  ultimately show ?thesis using a(1) nd(1) by (auto simp: pick_upstream_def)
qed

lemma relay_packet_made:
  assumes "packet_sound p"
  shows "pack_make_query_relay p rid = Some (p\<lparr>header := (header p)\<lparr>hdr_id := rid\<rparr>\<rparr>)"
  using clone_exact[OF packet_sound_data[OF assms]] by (simp add: pack_make_query_relay_def)

lemma new_id_sound [simp]:
  "packet_sound (p\<lparr>header := (header p)\<lparr>hdr_id := i\<rparr>\<rparr>) = packet_sound p"
  "packet_room (p\<lparr>header := (header p)\<lparr>hdr_id := i\<rparr>\<rparr>) = packet_room p"
  by (simp_all add: packet_sound_def rr_count_def packet_room_def)

lemma reply_fits: "reply_to ROOM p r \<Longrightarrow> packet_room p \<le> ROOM \<Longrightarrow> packet_sound r \<and> packet_room r \<le> 4096"
  by (auto simp: reply_to_def ROOM_def)

lemma server_inv_parts:
  assumes "server_inv now s"
  shows "books_ok now (id_pool s) (factory s)" "cache_fine (dns_cache s)"
    "upstreams_ok (upstreams s) (next_upstream s)" "length (send_buf s) = 4096" "length (recv_buf s) = 4096"
  using assms by (auto simp: server_inv_def)

lemma books_later: "books_ok t pl fac \<Longrightarrow> t \<le> now \<Longrightarrow> books_ok now pl fac"
  by (force simp: books_ok_def)

text \<open>The bookkeeping of a new session, and of one that ends.\<close>

lemma books_open:
  assumes b: "books_ok t pl fac" and alloc: "id_alloc True pl = (0, Some rid, pl')" and now: "t \<le> now"
    and p: "packet_sound p" "packet_room p \<le> ROOM" "hdr_id (header p) = rid"
  shows "\<exists>fac'. session_open now cid ip p fac = Some (0, fac') \<and> books_ok now pl' fac' \<and>
    sview fac' = (sview fac)(rid \<mapsto>
      \<lparr>client_id = cid, client_ip = ip, timestamp = now, retry_times = 0, relay_packet = p\<rparr>)"
proof -
  have B: "pool_inv pl" "ses_inv fac" "used_ids pl = dom (sview fac)"
    "\<forall>t \<in> ran (sview fac). timestamp t \<le> now \<and> relay_ok t" "0 \<le> now"
    using books_later[OF b now] by (auto simp: books_ok_def)
  have fresh: "sview fac (hdr_id (header p)) = None"
    using pool.alloc_fresh[OF B(1) alloc] B(3) p(3) by blast
  have late: "not_later fac now" using B(4) by (simp add: not_later_def)
  from open_spec[OF B(2) fresh late B(5) clone_exact[OF packet_sound_data[OF p(1)]]]
  obtain fac' where f: "session_open now cid ip p fac = Some (0, fac')" "ses_inv fac'"
    "sview fac' = (sview fac)(rid \<mapsto>
      \<lparr>client_id = cid, client_ip = ip, timestamp = now, retry_times = 0, relay_packet = p\<rparr>)"
    unfolding p(3) by blast
  have "books_ok now pl' fac'" unfolding books_ok_def f(3)
    using f(2) B pool.alloc_inv[OF B(1) alloc] pool.alloc_used[OF B(1) alloc] p
    by (auto simp: relay_ok_def ran_def)
  with f show ?thesis by blast
qed

lemma books_close:
  assumes b: "books_ok now pl fac" and s: "sessions fac a = Some ses"
  shows "\<exists>fac'. session_close a fac = Some fac' \<and> books_ok now (id_free (relay_id ses) pl) fac' \<and>
    sview fac' = (sview fac)(relay_id ses := None)"
proof -
  have B: "pool_inv pl" "ses_inv fac" "used_ids pl = dom (sview fac)" using b by (auto simp: books_ok_def)
  obtain fac' where f: "session_close a fac = Some fac'" "ses_inv fac'" "sview fac' = (sview fac)(relay_id ses := None)"
    using ses.close_law[OF B(2) s] by blast
  have "books_ok now (id_free (relay_id ses) pl) fac'" unfolding books_ok_def f(3)
    using f(2) B b pool.release_inv[OF B(1)] pool.release_used[OF B(1)]
    by (auto simp: books_ok_def ran_def)
  with f show ?thesis by blast
qed


section \<open>Every packet is handled\<close>

lemma reply_sent:
  assumes "reply_to ROOM p q" "packet_room p \<le> ROOM" "length (send_buf s) = 4096"
  shows "\<exists>r b out. packet_send cf q dest s = Some (r, s\<lparr>send_buf := b, outbox := out\<rparr>) \<and> length b = 4096"
  using send_spec[of q s] reply_fits[OF assms(1,2)] assms(3) by blast

text \<open>The three outcomes of a query: answered, refused for lack of identifiers, forwarded.\<close>

lemma query_answered:
  assumes inv: "server_inv t s" and p: "packet_room p \<le> ROOM" "packet_is_query p" and now: "t \<le> now"
    and dec: "pack_try_response_local (\<lambda>i. clock (Suc i)) p (dns_cache s) = Some (CLIENT, Some q, c')"
    and q: "reply_to ROOM p q" and c': "cache_fine c'"
  shows "\<exists>r b out. packet_send cf q src (s\<lparr>dns_cache := c'\<rparr>) =
      Some (r, s\<lparr>dns_cache := c', send_buf := b, outbox := out\<rparr>) \<and>
    handle_dns_packet cf clock p src s = Some (s\<lparr>dns_cache := c', send_buf := b, outbox := out\<rparr>) \<and>
    server_inv now (s\<lparr>dns_cache := c', send_buf := b, outbox := out\<rparr>)"
proof -
  note I = server_inv_parts[OF inv]
  obtain r b out where send: "packet_send cf q src (s\<lparr>dns_cache := c'\<rparr>) =
      Some (r, s\<lparr>dns_cache := c', send_buf := b, outbox := out\<rparr>)" "length b = 4096"
    using reply_sent[OF q p(1), of "s\<lparr>dns_cache := c'\<rparr>" cf src] I(4) by auto
  moreover have "handle_dns_packet cf clock p src s = Some (s\<lparr>dns_cache := c', send_buf := b, outbox := out\<rparr>)"
    using p(2) dec send(1) by (simp add: handle_dns_packet_def)
  ultimately show ?thesis using books_later[OF I(1) now] c' I by (auto simp: server_inv_def)
qed

lemma query_refused:
  assumes inv: "server_inv t s" and p: "packet_sound p" "packet_room p \<le> ROOM" "packet_is_query p" and now: "t \<le> now"
    and dec: "pack_try_response_local (\<lambda>i. clock (Suc i)) p (dns_cache s) = Some (UPSTREAM, None, c')"
    and c': "cache_fine c'" and full: "used_ids (id_pool s) = UNIV"
  shows "\<exists>r b out. packet_send cf (make_response_fail p RCODE_SERVFAIL) src (s\<lparr>dns_cache := c'\<rparr>) =
      Some (r, s\<lparr>dns_cache := c', send_buf := b, outbox := out\<rparr>) \<and>
    handle_dns_packet cf clock p src s = Some (s\<lparr>dns_cache := c', send_buf := b, outbox := out\<rparr>) \<and>
    server_inv now (s\<lparr>dns_cache := c', send_buf := b, outbox := out\<rparr>)"
proof -
  note I = server_inv_parts[OF inv]
  have pool: "pool_inv (id_pool s)" using I(1) by (simp add: books_ok_def)
  obtain r b out where send: "packet_send cf (make_response_fail p RCODE_SERVFAIL) src (s\<lparr>dns_cache := c'\<rparr>) =
      Some (r, s\<lparr>dns_cache := c', send_buf := b, outbox := out\<rparr>)" "length b = 4096"
    using reply_sent[OF fail_reply[OF p(1)] p(2), of "s\<lparr>dns_cache := c'\<rparr>" cf RCODE_SERVFAIL src] I(4) by auto
  moreover have "(s\<lparr>dns_cache := c'\<rparr>)\<lparr>id_pool := id_pool s\<rparr> = s\<lparr>dns_cache := c'\<rparr>" by simp
  then have "handle_dns_packet cf clock p src s = Some (s\<lparr>dns_cache := c', send_buf := b, outbox := out\<rparr>)"
    using p(3) dec send(1) pool.alloc_full[OF pool full]
    by (simp add: handle_dns_packet_def pack_make_inner_error_def)
  ultimately show ?thesis using books_later[OF I(1) now] c' I by (auto simp: server_inv_def)
qed

definition new_session :: "DnsPacket \<Rightarrow> NetEnd \<Rightarrow> uint16_t \<Rightarrow> ms \<Rightarrow> Session" where
  "new_session p src rid now = \<lparr>client_id = hdr_id (header p), client_ip = src, timestamp = now, retry_times = 0,
     relay_packet = p\<lparr>header := (header p)\<lparr>hdr_id := rid\<rparr>\<rparr>\<rparr>"

lemma query_forwarded:
  assumes inv: "server_inv t s" and p: "packet_sound p" "packet_room p \<le> ROOM" "packet_is_query p"
    and now: "t \<le> clock 0"
    and dec: "pack_try_response_local (\<lambda>i. clock (Suc i)) p (dns_cache s) = Some (UPSTREAM, None, c')"
    and c': "cache_fine c'" and alloc: "id_alloc True (id_pool s) = (0, Some rid, pl)"
  shows "\<exists>u s2 r s3 s'. pick_upstream (s\<lparr>dns_cache := c', id_pool := pl\<rparr>) = Some (u, s2) \<and>
    u \<in> set (lseq (upstreams s)) \<and> send_buf s2 = send_buf s \<and> outbox s2 = outbox s \<and>
    packet_send cf (p\<lparr>header := (header p)\<lparr>hdr_id := rid\<rparr>\<rparr>) u s2 = Some (r, s3) \<and>
    handle_dns_packet cf clock p src s = Some s' \<and> server_inv (clock 0) s' \<and>
    outbox s' = outbox s3 \<and> send_buf s' = send_buf s3 \<and> dns_cache s' = c' \<and>
    (r \<noteq> 0 \<longrightarrow> factory s' = factory s) \<and> (r = 0 \<longrightarrow> id_pool s' = pl \<and>
      sview (factory s') = (sview (factory s))(rid \<mapsto> new_session p src rid (clock 0)))"
proof -
  note I = server_inv_parts[OF inv]
  let ?q = "p\<lparr>header := (header p)\<lparr>hdr_id := rid\<rparr>\<rparr>" and ?x = "s\<lparr>dns_cache := c', id_pool := pl\<rparr>"
  obtain u nxt where pick: "pick_upstream ?x = Some (u, ?x\<lparr>next_upstream := nxt\<rparr>)" "upstreams_ok (upstreams s) nxt"
    "u \<in> set (lseq (upstreams s))" using pick_spec[of ?x] I(3) by auto
  obtain r b out where send: "packet_send cf ?q u (?x\<lparr>next_upstream := nxt\<rparr>) =
      Some (r, ?x\<lparr>next_upstream := nxt, send_buf := b, outbox := out\<rparr>)" "length b = 4096"
    using send_spec[of ?q "?x\<lparr>next_upstream := nxt\<rparr>" cf u] p I(4) by (auto simp: ROOM_def)
  let ?y = "?x\<lparr>next_upstream := nxt, send_buf := b, outbox := out\<rparr>"
  note run = handle_dns_packet_def[of cf clock p src s]
  have "\<exists>s'. handle_dns_packet cf clock p src s = Some s' \<and> server_inv (clock 0) s' \<and> outbox s' = out \<and>
    send_buf s' = b \<and> dns_cache s' = c' \<and> (r \<noteq> 0 \<longrightarrow> factory s' = factory s) \<and> (r = 0 \<longrightarrow> id_pool s' = pl \<and>
      sview (factory s') = (sview (factory s))(rid \<mapsto> new_session p src rid (clock 0)))"
  proof (cases "r = 0")
    case failed: False
    have pool: "pool_inv (id_pool s)" using I(1) by (simp add: books_ok_def)
    have "handle_dns_packet cf clock p src s = Some (?y\<lparr>id_pool := id_free rid pl\<rparr>)"
      using p(3) dec alloc relay_packet_made[OF p(1)] pick(1) send(1) failed by (simp add: run)
    moreover have "books_ok (clock 0) (id_free rid pl) (factory s)"
      using books_later[OF I(1) now] pool.release_alloc[OF pool alloc] pool.release_inv[OF pool.alloc_inv[OF pool alloc]]
      by (auto simp: books_ok_def)
    ultimately show ?thesis using failed c' I pick(2) send(2) by (auto simp: server_inv_def)
  next
    case True
    obtain fac' where o: "session_open (clock 0) (hdr_id (header p)) src ?q (factory s) = Some (0, fac')"
      "books_ok (clock 0) pl fac'" "sview fac' = (sview (factory s))(rid \<mapsto> new_session p src rid (clock 0))"
      using books_open[OF I(1) alloc now, of ?q "hdr_id (header p)" src] p by (auto simp: new_session_def)
    have "handle_dns_packet cf clock p src s = Some (?y\<lparr>factory := fac'\<rparr>)"
      using p(3) dec alloc relay_packet_made[OF p(1)] pick(1) send(1) True o(1) by (simp add: run)
    then show ?thesis using True o(2,3) c' I pick(2) send(2) by (auto simp: server_inv_def)
  qed
  then show ?thesis using pick(1,3) send(1) by fastforce
qed

lemma handle_query_ok:
  assumes inv: "server_inv t s" and p: "packet_fine (use_cache cf) p" "packet_is_query p" and now: "t \<le> clock 0"
  shows "\<exists>s'. handle_dns_packet cf clock p src s = Some s' \<and> server_inv (clock 0) s' \<and>
    (\<forall>x \<in> ran (sview (factory s')). x \<in> ran (sview (factory s)) \<or> retry_times x = 0)"
proof -
  note I = server_inv_parts[OF inv]
  have P: "packet_sound p" "names_ok (questions p)" "packet_room p \<le> ROOM" using p(1) by (auto simp: packet_fine_def)
  obtain cap L where c: "cache_opt cap (dns_cache s) L" "cache_sound ROOM L" using I(2) by (auto simp: cache_fine_def)
  obtain d out c' L' where t: "pack_try_response_local (\<lambda>i. clock (Suc i)) p (dns_cache s) = Some (d, out, c')"
    "cache_opt cap c' L'" "set L' \<subseteq> set L"
    "case out of None \<Rightarrow> d = UPSTREAM | Some r \<Rightarrow> d = CLIENT \<and> reply_to ROOM p r"
    using try_response_any[OF c P(1,2)] by blast
  have c': "cache_fine c'" using t(2) cache_sound_mono[OF c(2) t(3)] by (auto simp: cache_fine_def)
  show ?thesis
  proof (cases out)
    case (Some q)
    then show ?thesis using query_answered[OF inv P(3) p(2) now, of clock q c' cf src] t(1,4) c' by auto
  next
    case None
    then have dec: "pack_try_response_local (\<lambda>i. clock (Suc i)) p (dns_cache s) = Some (UPSTREAM, None, c')"
      using t(1,4) by simp
    show ?thesis
    proof (cases "used_ids (id_pool s) = UNIV")
      case True
      then show ?thesis using query_refused[OF inv P(1,3) p(2) now dec c', of cf src] by auto
    next
      case False
      then obtain rid pl where "id_alloc True (id_pool s) = (0, Some rid, pl)"
        using pool.alloc_ok[of "id_pool s"] I(1) by (auto simp: books_ok_def)
      from query_forwarded[OF inv P(1,3) p(2) now dec c' this] obtain r s' where f:
        "handle_dns_packet cf clock p src s = Some s'" "server_inv (clock 0) s'"
        "r \<noteq> (0 :: int) \<longrightarrow> factory s' = factory s"
        "r = 0 \<longrightarrow> sview (factory s') = (sview (factory s))(rid \<mapsto> new_session p src rid (clock 0))" by blast
      have "x \<in> ran (sview (factory s)) \<or> retry_times x = 0" if "x \<in> ran (sview (factory s'))" for x
        using that f(3,4) by (cases "r = 0") (auto simp: ran_def new_session_def split: if_splits)
      with f(1,2) show ?thesis by blast
    qed
  qed
qed

text \<open>A response without a session is dropped; one with a session is relayed and ends it.\<close>

lemma response_relayed:
  assumes inv: "server_inv t s" and p: "packet_fine (use_cache cf) p" "\<not> packet_is_query p" and now: "t \<le> now"
    "now = clock 0" and x: "sview (factory s) (hdr_id (header p)) = Some x"
  shows "\<exists>c' e s1 s'. packet_send cf (p\<lparr>header := (header p)\<lparr>hdr_id := client_id x\<rparr>\<rparr>) (client_ip x) (s\<lparr>dns_cache := c'\<rparr>) =
      Some (e, s1) \<and>
    handle_dns_packet cf clock p src s = Some s' \<and> server_inv now s' \<and> outbox s' = outbox s1 \<and>
    sview (factory s') = (sview (factory s))(hdr_id (header p) := None) \<and>
    id_pool s' = id_free (hdr_id (header p)) (id_pool s)"
proof -
  note I = server_inv_parts[OF inv]
  have P: "packet_sound p" "packet_room p \<le> ROOM" "use_cache cf \<Longrightarrow> questions p \<noteq> []"
    using p by (auto simp: packet_fine_def)
  note B = books_later[OF I(1) now(1)]
  then have sinv: "ses_inv (factory s)" by (simp add: books_ok_def)
  obtain a where a: "session_get (Some p) (factory s) = Some (Some a)" "sessions (factory s) a = Some x"
    "relay_id x = hdr_id (header p)" using ses.find_law[OF sinv, of p] x by (auto split: option.splits)
  let ?q = "p\<lparr>header := (header p)\<lparr>hdr_id := client_id x\<rparr>\<rparr>"
  obtain cap L where c: "cache_opt cap (dns_cache s) L" "cache_sound ROOM L" using I(2) by (auto simp: cache_fine_def)
  have "rrs_room (rrs p) \<le> ROOM" using P(2) by (simp add: packet_room_def)
  from relay_any[OF c P(1) this P(3)] obtain c' L' where r:
    "pack_make_response_relay (use_cache cf) now p (client_id x) (dns_cache s) = Some (?q, c')"
    "cache_opt cap c' L'" "cache_sound ROOM L'" by blast
  obtain e b out where send: "packet_send cf ?q (client_ip x) (s\<lparr>dns_cache := c'\<rparr>) =
      Some (e, s\<lparr>dns_cache := c', send_buf := b, outbox := out\<rparr>)" "length b = 4096"
    using send_spec[of ?q "s\<lparr>dns_cache := c'\<rparr>" cf "client_ip x"] P I(4) by (auto simp: ROOM_def)
  obtain fac' where close: "session_close a (factory s) = Some fac'"
    "books_ok now (id_free (relay_id x) (id_pool s)) fac'" "sview fac' = (sview (factory s))(relay_id x := None)"
    using books_close[OF B a(2)] by blast
  let ?s = "s\<lparr>dns_cache := c', send_buf := b, outbox := out, factory := fac', id_pool := id_free (relay_id x) (id_pool s)\<rparr>"
  have "handle_dns_packet cf clock p src s = Some ?s"
    using p(2) a r(1) send(1) close(1) now(2) by (simp add: handle_dns_packet_def del: session_get.simps)
  moreover have "cache_fine c'" using r(2,3) by (auto simp: cache_fine_def)
  then have "server_inv now ?s" using close(2) I send(2) by (auto simp: server_inv_def)
  ultimately show ?thesis using close(3) a(3) send(1) by fastforce
qed

lemma handle_response_ok:
  assumes inv: "server_inv t s" and p: "packet_fine (use_cache cf) p" "\<not> packet_is_query p" and now: "t \<le> clock 0"
  shows "\<exists>s'. handle_dns_packet cf clock p src s = Some s' \<and> server_inv (clock 0) s' \<and>
    sview (factory s') = (sview (factory s))(hdr_id (header p) := None)"
proof (cases "sview (factory s) (hdr_id (header p))")
  case None
  have sinv: "ses_inv (factory s)" using inv by (simp add: server_inv_def books_ok_def)
  have "session_get (Some p) (factory s) = Some None" using ses.find_law[OF sinv, of p] None by (auto split: option.splits)
  then have "handle_dns_packet cf clock p src s = Some s" using p(2) by (simp add: handle_dns_packet_def del: session_get.simps)
  then show ?thesis using inv now None books_later by (auto simp: server_inv_def)
next
  case (Some x)
  from response_relayed[where clock = clock, OF inv p now refl Some] show ?thesis by blast
qed

lemma handle_ok:
  assumes "server_inv t s" "packet_fine (use_cache cf) p" "t \<le> clock 0"
  shows "\<exists>s'. handle_dns_packet cf clock p src s = Some s' \<and> server_inv (clock 0) s' \<and>
    (\<forall>x \<in> ran (sview (factory s')). x \<in> ran (sview (factory s)) \<or> retry_times x = 0)"
proof (cases "packet_is_query p")
  case True
  then show ?thesis using handle_query_ok[where clock = clock, OF assms(1,2) True assms(3)] by blast
next
  case False
  from handle_response_ok[where clock = clock and src = src, OF assms(1,2) False assms(3)] obtain s' where
    "handle_dns_packet cf clock p src s = Some s'" "server_inv (clock 0) s'"
    "sview (factory s') = (sview (factory s))(hdr_id (header p) := None)" by blast
  then show ?thesis by (auto simp: ran_def)
qed

section \<open>Timeouts\<close>

lemma books_retry:
  assumes b: "books_ok t pl fac" and x: "sessions fac a = Some x" and now: "t \<le> now"
  shows "\<exists>fac'. session_wait now a (fac\<lparr>sessions := (sessions fac)(a \<mapsto> x\<lparr>retry_times := n\<rparr>)\<rparr>) = Some fac' \<and>
    books_ok now pl fac' \<and> sview fac' = (sview fac)(relay_id x \<mapsto> x\<lparr>retry_times := n, timestamp := now\<rparr>)"
proof -
  have B: "pool_inv pl" "ses_inv fac" "used_ids pl = dom (sview fac)"
    "\<forall>t \<in> ran (sview fac). timestamp t \<le> now \<and> relay_ok t" "0 \<le> now"
    using books_later[OF b now] by (auto simp: books_ok_def)
  have late: "\<forall>t \<in> ran (sview fac). timestamp t \<le> now" using B(4) by blast
  obtain fac' where f: "session_wait now a (fac\<lparr>sessions := (sessions fac)(a \<mapsto> x\<lparr>retry_times := n\<rparr>)\<rparr>) = Some fac'"
    "ses_inv fac'" "sview fac' = (sview fac)(relay_id x \<mapsto> x\<lparr>retry_times := n, timestamp := now\<rparr>)"
    using ses.retry[OF B(2) x late] by blast
  have v: "sview fac (relay_id x) = Some x" by (rule session_view[OF B(2) x])
  then have "relay_ok x" using B(4) by (auto simp: ran_def)
  then have "books_ok now pl fac'" unfolding books_ok_def f(3)
    using f(2) B v by (auto simp: ran_def relay_ok_def)
  with f show ?thesis by blast
qed

text \<open>A session that has retries left is sent again and waits again.\<close>

lemma timeout_retries:
  assumes inv: "server_inv t s" and x: "sessions (factory s) a = Some x"
    and left: "sint (retry_times x) < max_retry_time cf" and now: "t \<le> now"
  shows "\<exists>u s1 r s2 s'. pick_upstream s = Some (u, s1) \<and> packet_send cf (relay_packet x) u s1 = Some (r, s2) \<and>
    do_handle_timeout cf now a s = Some s' \<and> server_inv now s' \<and> outbox s' = outbox s2 \<and> id_pool s' = id_pool s \<and>
    sview (factory s') = (sview (factory s))(relay_id x \<mapsto> x\<lparr>retry_times := retry_times x + 1, timestamp := now\<rparr>)"
proof -
  note I = server_inv_parts[OF inv]
  have "sview (factory s) (relay_id x) = Some x" using I(1) x by (auto simp: books_ok_def session_view)
  then have ok: "packet_sound (relay_packet x)" "packet_room (relay_packet x) \<le> 4096"
    using I(1) by (auto simp: books_ok_def ran_def relay_ok_def ROOM_def)
  obtain u nxt where pick: "pick_upstream s = Some (u, s\<lparr>next_upstream := nxt\<rparr>)" "upstreams_ok (upstreams s) nxt"
    using pick_spec[OF I(3)] by blast
  obtain r b out where send: "packet_send cf (relay_packet x) u (s\<lparr>next_upstream := nxt\<rparr>) =
      Some (r, s\<lparr>next_upstream := nxt, send_buf := b, outbox := out\<rparr>)" "length b = 4096"
    using send_spec[OF ok, of "s\<lparr>next_upstream := nxt\<rparr>" cf u] I(4) by auto
  obtain fac' where f: "session_wait now a ((factory s)\<lparr>sessions := (sessions (factory s))(a \<mapsto>
      x\<lparr>retry_times := retry_times x + 1\<rparr>)\<rparr>) = Some fac'" "books_ok now (id_pool s) fac'"
    "sview fac' = (sview (factory s))(relay_id x \<mapsto> x\<lparr>retry_times := retry_times x + 1, timestamp := now\<rparr>)"
    using books_retry[OF I(1) x now] by blast
  let ?s = "s\<lparr>next_upstream := nxt, send_buf := b, outbox := out, factory := fac'\<rparr>"
  have "do_handle_timeout cf now a s = Some ?s"
    using left x pick(1) send(1) f(1) by (simp add: do_handle_timeout_def Let_def not_le)
  moreover have "server_inv now ?s" using f(2) I pick(2) send(2) by (simp add: server_inv_def)
  ultimately show ?thesis using pick(1) send(1) f(3) by fastforce
qed

text \<open>The peek before every decision.\<close>

lemma peek_server:
  assumes "server_inv t s"
  shows "\<exists>r fac. session_peek (factory s) = Some (r, fac) \<and> server_inv t (s\<lparr>factory := fac\<rparr>) \<and>
    sview fac = sview (factory s) \<and> sessions fac = sessions (factory s) \<and>
    (case r of None \<Rightarrow> sview fac = Map.empty
     | Some a \<Rightarrow> \<exists>x. sessions fac a = Some x \<and> sview fac (relay_id x) = Some x \<and>
         (\<forall>y \<in> ran (sview fac). timestamp x \<le> timestamp y))"
proof -
  have inv: "ses_inv (factory s)" using assms by (simp add: server_inv_def books_ok_def)
  obtain r fac where p: "session_peek (factory s) = Some (r, fac)" "ses_inv fac" "sview fac = sview (factory s)"
    "sessions fac = sessions (factory s)" "case r of None \<Rightarrow> sview (factory s) = Map.empty
      | Some a \<Rightarrow> \<exists>x. sessions (factory s) a = Some x \<and> (\<forall>y \<in> ran (sview (factory s)). timestamp x \<le> timestamp y)"
    using ses.peek_law[OF inv] by blast
  moreover have "server_inv t (s\<lparr>factory := fac\<rparr>)"
    using assms p(2,3) by (simp add: server_inv_def books_ok_def)
  moreover have "case r of None \<Rightarrow> sview fac = Map.empty
     | Some a \<Rightarrow> \<exists>x. sessions fac a = Some x \<and> sview fac (relay_id x) = Some x \<and>
         (\<forall>y \<in> ran (sview fac). timestamp x \<le> timestamp y)"
    using p(3-5) session_view[OF p(2)] by (cases r) auto
  ultimately show ?thesis by blast
qed

text \<open>One iteration of the pass: it ends, or a session whose time is up is sent again.\<close>

lemma batch_step:
  assumes inv: "server_inv t s" and now: "t \<le> clock (2 * i)" "clock (2 * i) \<le> clock (2 * i + 1)"
    and left: "\<forall>x \<in> ran (sview (factory s)). timestamp x + request_timeout cf \<le> clock (2 * i) \<longrightarrow>
      sint (retry_times x) < max_retry_time cf"
  shows "(\<exists>fac. batch_timeout cf clock i s = Some (s\<lparr>factory := fac\<rparr>) \<and> server_inv (clock (2 * i)) (s\<lparr>factory := fac\<rparr>) \<and>
      sview fac = sview (factory s) \<and> (\<forall>y \<in> ran (sview fac). clock (2 * i) < timestamp y + request_timeout cf)) \<or>
    (\<exists>x s2. sview (factory s) (relay_id x) = Some x \<and> timestamp x + request_timeout cf \<le> clock (2 * i) \<and>
      batch_timeout cf clock i s = batch_timeout cf clock (Suc i) s2 \<and> server_inv (clock (2 * i + 1)) s2 \<and>
      id_pool s2 = id_pool s \<and> sview (factory s2) = (sview (factory s))(relay_id x \<mapsto>
        x\<lparr>retry_times := retry_times x + 1, timestamp := clock (2 * i + 1)\<rparr>))"
proof -
  obtain r fac where p: "session_peek (factory s) = Some (r, fac)" "server_inv t (s\<lparr>factory := fac\<rparr>)"
    "sview fac = sview (factory s)" "sessions fac = sessions (factory s)"
    "case r of None \<Rightarrow> sview fac = Map.empty
     | Some a \<Rightarrow> \<exists>x. sessions fac a = Some x \<and> sview fac (relay_id x) = Some x \<and>
         (\<forall>y \<in> ran (sview fac). timestamp x \<le> timestamp y)"
    using peek_server[OF inv] by blast
  let ?s = "s\<lparr>factory := fac\<rparr>" and ?c = "clock (2 * i)" and ?c' = "clock (2 * i + 1)"
  have run: "batch_timeout cf clock i s = (case r of None \<Rightarrow> Some ?s | Some a \<Rightarrow> do {
      time_remain \<leftarrow> get_session_timeout_remain ?c a (request_timeout cf) fac;
      if time_remain > 0 then Some ?s
      else do { s2 \<leftarrow> do_handle_timeout cf ?c' a ?s; batch_timeout cf clock (Suc i) s2 } })"
    using p(1) by (subst batch_timeout.simps) (simp add: Let_def)
  have inv': "server_inv ?c ?s" using p(2) now(1) books_later by (auto simp: server_inv_def)
  show ?thesis
  proof (cases "\<exists>y \<in> ran (sview fac). timestamp y + request_timeout cf \<le> ?c")
    case False
    have "batch_timeout cf clock i s = Some ?s"
    proof (cases r)
      case (Some a)
      with p(5) obtain x where x: "sessions fac a = Some x" "sview fac (relay_id x) = Some x" by auto
      then have "?c < timestamp x + request_timeout cf" using False by (auto simp: ran_def not_le)
      then show ?thesis using run Some x(1) by (simp add: get_session_timeout_remain_def Let_def)
    qed (simp add: run)
    then show ?thesis using inv' p(3) False by (auto simp: not_le)
  next
    case True
    then have "r \<noteq> None" using p(5) by (cases r) auto
    with p(5) obtain a x where x: "r = Some a" "sessions fac a = Some x" "sview fac (relay_id x) = Some x"
      "\<forall>y \<in> ran (sview fac). timestamp x \<le> timestamp y" by auto
    have late: "timestamp x + request_timeout cf \<le> ?c" using True x(4) by auto
    moreover have "x \<in> ran (sview (factory s))" using x(3) p(3) by (auto simp: ran_def)
    ultimately have "sint (retry_times x) < max_retry_time cf" using left by blast
    then obtain s2 where s2: "do_handle_timeout cf ?c' a ?s = Some s2" "server_inv ?c' s2" "id_pool s2 = id_pool s"
      "sview (factory s2) = (sview (factory s))(relay_id x \<mapsto> x\<lparr>retry_times := retry_times x + 1, timestamp := ?c'\<rparr>)"
      using timeout_retries[OF inv', of a x cf ?c'] x(2) now(2) p(3) by auto
    have "batch_timeout cf clock i s = batch_timeout cf clock (Suc i) s2"
      using run x(1,2) late s2(1) by (simp add: get_session_timeout_remain_def Let_def)
    then show ?thesis using x(3) p(3) late s2 by metis
  qed
qed

text \<open>What one pass does to a session: nothing, or one retry once its time is up.\<close>

definition renewed :: "Config \<Rightarrow> ms \<Rightarrow> ms \<Rightarrow> Session \<Rightarrow> Session \<Rightarrow> bool" where
  "renewed cf lo hi x y \<longleftrightarrow> y = x \<or> (\<exists>c. lo \<le> c \<and> c \<le> hi \<and> timestamp x + request_timeout cf \<le> c \<and>
     y = x\<lparr>retry_times := retry_times x + 1, timestamp := c\<rparr>)"

lemma renewed_same: "rel_option (renewed cf lo hi) v v"
  by (cases v) (auto simp: renewed_def)

lemma renewed_once:
  assumes "renewed cf lo hi (x\<lparr>retry_times := n, timestamp := c\<rparr>) y" "lo \<le> c" "hi < lo + request_timeout cf"
  shows "y = x\<lparr>retry_times := n, timestamp := c\<rparr>"
  using assms by (auto simp: renewed_def)

definition old :: "ms \<Rightarrow> Server \<Rightarrow> uint16_t set" where
  "old lo s = {i. \<exists>x. sview (factory s) i = Some x \<and> timestamp x < lo}"

text \<open>Every iteration makes an old session a new one, so the pass ends.\<close>

lemma batch_loop:
  assumes "server_inv t s" "t \<le> clock (2 * i)" "lo \<le> clock (2 * i)" "mono clock"
    and "\<forall>j. clock j < lo + request_timeout cf"
    and "\<forall>x \<in> ran (sview (factory s)). timestamp x < lo \<longrightarrow> sint (retry_times x) < max_retry_time cf"
  shows "\<exists>s' now. batch_timeout cf clock i s = Some s' \<and> server_inv now s' \<and>
    clock (2 * i) \<le> now \<and> now < lo + request_timeout cf \<and> id_pool s' = id_pool s \<and>
    (\<forall>k. rel_option (renewed cf lo now) (sview (factory s) k) (sview (factory s') k)) \<and>
    (\<forall>y \<in> ran (sview (factory s')). now < timestamp y + request_timeout cf)"
  using assms
proof (induction "card (old lo s)" arbitrary: s i t rule: less_induct)
  case less
  let ?c = "clock (2 * i)" and ?c' = "clock (2 * i + 1)"
  have cc: "?c \<le> ?c'" "?c' \<le> clock (2 * Suc i)" using less.prems(4) by (simp_all add: mono_def)
  have young: "timestamp x < lo" if "timestamp x + request_timeout cf \<le> ?c" for x
    using that less.prems(5)[rule_format, of "2 * i"] by linarith
  have "\<forall>x \<in> ran (sview (factory s)). timestamp x + request_timeout cf \<le> ?c \<longrightarrow>
      sint (retry_times x) < max_retry_time cf"
    using less.prems(6) young by blast
  from batch_step[OF less.prems(1,2) cc(1) this] show ?case
  proof (elim disjE exE conjE, goal_cases)
    case (1 fac)
    then show ?case using less.prems(5) renewed_same by (intro exI[of _ "s\<lparr>factory := fac\<rparr>"] exI[of _ ?c]) auto
  next
    case (2 x s2)
    let ?x = "x\<lparr>retry_times := retry_times x + 1, timestamp := ?c'\<rparr>"
    have "old lo s2 = old lo s - {relay_id x}" "relay_id x \<in> old lo s"
      using young[OF 2(2)] 2(1) less.prems(3) cc(1) unfolding old_def 2(6) by (auto split: if_splits)
    then have "card (old lo s2) < card (old lo s)" by (intro psubset_card_mono) auto
    moreover have "\<forall>y \<in> ran (sview (factory s2)). timestamp y < lo \<longrightarrow> sint (retry_times y) < max_retry_time cf"
      using less.prems(3,6) cc(1) unfolding 2(6) by (auto simp: ran_def)
    moreover have "lo \<le> clock (2 * Suc i)" using less.prems(3) cc by linarith
    ultimately obtain s' fin where s': "batch_timeout cf clock (Suc i) s2 = Some s'" "server_inv fin s'"
      "clock (2 * Suc i) \<le> fin" "fin < lo + request_timeout cf" "id_pool s' = id_pool s2"
      "\<forall>k. rel_option (renewed cf lo fin) (sview (factory s2) k) (sview (factory s') k)"
      "\<forall>y \<in> ran (sview (factory s')). fin < timestamp y + request_timeout cf"
      using less.hyps[OF _ 2(4) cc(2) _ less.prems(4,5)] by blast
    have lo: "lo \<le> ?c'" "?c' \<le> fin" using less.prems(3) cc s'(3) by linarith+
    have "rel_option (renewed cf lo fin) (sview (factory s) k) (sview (factory s') k)" for k
    proof (cases "k = relay_id x")
      case True
      then obtain y where y: "sview (factory s') k = Some y" "renewed cf lo fin ?x y"
        using s'(6)[rule_format, of k] by (auto simp: 2(6) rel_option_iff split: option.splits)
      have "y = ?x" by (rule renewed_once[OF y(2) lo(1) s'(4)])
      then have "renewed cf lo fin x y" using 2(2) cc lo by (auto simp: renewed_def)
      then show ?thesis using True y(1) 2(1) by simp
    next
      case False
      then show ?thesis using s'(6)[rule_format, of k] by (simp add: 2(6))
    qed
    then show ?case using s' 2(3,5) cc by (intro exI[of _ s'] exI[of _ fin]) auto
  qed
qed


section \<open>Rounds\<close>

text \<open>
  The datagrams the theorems speak of: those \<open>pack_deserialize\<close> refuses by their length, and
  those it reads without looking behind their end, with a packet the relay can copy.
\<close>

definition datagram_ok :: "bool \<Rightarrow> byte list \<Rightarrow> bool" where
  "datagram_ok caching bytes \<longleftrightarrow> length bytes < 12 \<or> 512 < length bytes \<or>
     (\<forall>rest. \<exists>p. pack_deserialize (bytes @ rest) (int (length bytes)) = Some (0, Some p) \<and> packet_fine caching p)"

fun arrival_ok :: "bool \<Rightarrow> arrival \<Rightarrow> bool" where
  "arrival_ok caching (Datagram bytes adr port) \<longleftrightarrow> datagram_ok caching bytes"
| "arrival_ok caching Receive_Error \<longleftrightarrow> True"

lemma recv_spec:
  assumes "length (recv_buf s) = 4096" "arrival_ok caching x"
  shows "\<exists>ret p src' buf. pack_recv (Some x) src s = Some (ret, p, src', s\<lparr>recv_buf := buf\<rparr>) \<and> length buf = 4096 \<and>
    (ret = 1 \<or> ret = -1 \<or> (ret = 0 \<and> (\<exists>q. p = Some q \<and> packet_fine caching q)))"
proof (cases x)
  case Receive_Error
  then have "pack_recv (Some x) src s = Some (-1, None, src, s\<lparr>recv_buf := recv_buf s\<rparr>)"
    by (simp add: pack_recv_def recv_call_def socket_recv_nowait_def Let_def)
  then show ?thesis using assms(1) by blast
next
  case (Datagram bytes adr port)
  define got where "got = take DNS_RECV_BUF_SIZE bytes"
  let ?buf = "got @ drop (length got) (recv_buf s)"
  have len: "length ?buf = 4096" using assms(1) by (simp add: got_def DNS_RECV_BUF_SIZE_def)
  have run: "pack_recv (Some x) src s = (if length got = 0 then Some (1, None, source_netend adr port src, s\<lparr>recv_buf := ?buf\<rparr>)
      else do { (r, p) \<leftarrow> pack_deserialize ?buf (int (length got));
                Some (r, p, source_netend adr port src, s\<lparr>recv_buf := ?buf\<rparr>) })"
    by (simp add: Datagram pack_recv_def recv_call_def socket_recv_nowait_def Let_def flip: got_def)
  show ?thesis
  proof (cases "length bytes < 12 \<or> 512 < length bytes")
    case True
    then have "pack_deserialize ?buf (int (length got)) = Some (-1, None)"
      by (auto simp: pack_deserialize_def got_def DNS_RECV_BUF_SIZE_def)
    then have "pack_recv (Some x) src s =
        Some (if length got = 0 then 1 else -1, None, source_netend adr port src, s\<lparr>recv_buf := ?buf\<rparr>)"
      unfolding run by (simp split: if_splits)
    then show ?thesis using len by (auto split: if_splits intro!: exI[of _ ?buf])
  next
    case False
    then have got: "got = bytes" "length got \<noteq> 0" by (auto simp: got_def DNS_RECV_BUF_SIZE_def)
    obtain q where "pack_deserialize ?buf (int (length got)) = Some (0, Some q)" "packet_fine caching q"
      using assms(2) Datagram False unfolding got(1) by (auto simp: datagram_ok_def)
    then show ?thesis using run got(2) len by auto
  qed
qed

lemma recv_none:
  "pack_recv None src s = Some (1, None, src, s)"
  by (simp add: pack_recv_def recv_call_def socket_recv_nowait_def)

lemma recv_loop_ok:
  assumes "server_inv t s" "\<forall>x \<in> set xs. arrival_ok (use_cache cf) x" "t \<le> clock i 0"
    and "mono (\<lambda>i. clock i 0)" "\<forall>j. clock j 0 \<le> hi" "0 < max_retry_time cf"
    and "\<forall>x \<in> ran (sview (factory s)). sint (retry_times x) < max_retry_time cf"
  shows "\<exists>rest s'. recv_loop cf clock i xs src s = Some (rest, s') \<and> server_inv hi s' \<and> set rest \<subseteq> set xs \<and>
    (\<forall>x \<in> ran (sview (factory s')). sint (retry_times x) < max_retry_time cf)"
  using assms
proof (induction xs arbitrary: t i src s)
  case Nil
  have "t \<le> hi" using Nil.prems(3,5) by (meson order_trans)
  then have "server_inv hi s" using Nil.prems(1) books_later by (auto simp: server_inv_def)
  then show ?case using Nil.prems(7) by (simp add: recv_none)
next
  case (Cons x xs)
  obtain ret p src' buf where r: "pack_recv (Some x) src s = Some (ret, p, src', s\<lparr>recv_buf := buf\<rparr>)" "length buf = 4096"
    "ret = 1 \<or> ret = -1 \<or> (ret = 0 \<and> (\<exists>q. p = Some q \<and> packet_fine (use_cache cf) q))"
    using recv_spec[of s "use_cache cf" x src] Cons.prems(1,2) by (auto simp: server_inv_def)
  let ?s = "s\<lparr>recv_buf := buf\<rparr>"
  have inv: "server_inv t ?s" using Cons.prems(1) r(2) by (simp add: server_inv_def)
  show ?case
  proof (cases "ret = 0")
    case False
    have "t \<le> hi" using Cons.prems(3,5) by (meson order_trans)
    then have "server_inv hi ?s" using inv books_later by (auto simp: server_inv_def)
    then show ?thesis using False r Cons.prems(7) by auto
  next
    case True
    then obtain q where q: "p = Some q" "packet_fine (use_cache cf) q" using r(3) by auto
    obtain s2 where s2: "handle_dns_packet cf (clock i) q src' ?s = Some s2" "server_inv (clock i 0) s2"
      "\<forall>x \<in> ran (sview (factory s2)). x \<in> ran (sview (factory ?s)) \<or> retry_times x = 0"
      using handle_ok[where clock = "clock i", OF inv q(2) Cons.prems(3)] by blast
    have left: "\<forall>x \<in> ran (sview (factory s2)). sint (retry_times x) < max_retry_time cf"
      using s2(3) Cons.prems(6,7) by auto
    have mono: "clock i 0 \<le> clock (Suc i) 0" using Cons.prems(4) by (simp add: mono_def)
    have "\<forall>x \<in> set xs. arrival_ok (use_cache cf) x" using Cons.prems(2) by simp
    from Cons.IH[where src = src', OF s2(2) this mono Cons.prems(4-6) left] show ?thesis
      using True r(1) q(1) s2(1) by auto
  qed
qed

text \<open>
  The admissible inputs of a round: readable datagrams, clocks that do not go back, and less
  than the timeout spent in handling the timeouts.
\<close>

definition inputs_ok :: "Config \<Rightarrow> ms \<Rightarrow> Inputs \<Rightarrow> bool" where
  "inputs_ok cf t x \<longleftrightarrow> (\<forall>a \<in> set (arrivals x). arrival_ok (use_cache cf) a) \<and>
     t \<le> packet_clock x 0 0 \<and> mono (\<lambda>i. packet_clock x i 0) \<and> mono (timeout_clock x) \<and>
     (\<forall>i. packet_clock x i 0 \<le> timeout_clock x 0) \<and>
     (\<forall>j. timeout_clock x j < timeout_clock x 0 + request_timeout cf)"

definition retries_left :: "Config \<Rightarrow> Server \<Rightarrow> bool" where
  "retries_left cf s \<longleftrightarrow> (\<forall>x \<in> ran (sview (factory s)). sint (retry_times x) < max_retry_time cf)"

lemma round_ok:
  assumes inv: "server_inv t s" and left: "retries_left cf s" "0 < max_retry_time cf" and x: "inputs_ok cf t x"
  shows "\<exists>go rest s' now. server_round cf x s = Some (go, rest, s') \<and> server_inv now s' \<and> t \<le> now \<and>
    set rest \<subseteq> set (arrivals x) \<and> (go \<longrightarrow> (\<forall>y \<in> ran (sview (factory s')). now < timestamp y + request_timeout cf))"
proof -
  obtain r fac where p: "session_peek (factory s) = Some (r, fac)" "server_inv t (s\<lparr>factory := fac\<rparr>)"
    "sview fac = sview (factory s)" "case r of None \<Rightarrow> sview fac = Map.empty
     | Some a \<Rightarrow> \<exists>x. sessions fac a = Some x \<and> sview fac (relay_id x) = Some x \<and>
         (\<forall>y \<in> ran (sview fac). timestamp x \<le> timestamp y)"
    using peek_server[OF inv] by blast
  let ?s = "s\<lparr>factory := fac\<rparr>"
  have X: "\<forall>a \<in> set (arrivals x). arrival_ok (use_cache cf) a" "t \<le> packet_clock x 0 0"
    "mono (\<lambda>i. packet_clock x i 0)" "mono (timeout_clock x)" "\<forall>i. packet_clock x i 0 \<le> timeout_clock x 0"
    "\<forall>j. timeout_clock x j < timeout_clock x 0 + request_timeout cf"
    using x by (auto simp: inputs_ok_def)
  obtain w where w: "(case r of None \<Rightarrow> Some (-1)
       | Some a \<Rightarrow> get_session_timeout_remain (started x) a (request_timeout cf) fac) = Some w"
    using p(4) by (cases r) (auto simp: get_session_timeout_remain_def Let_def)
  note run = server_round_def[of cf x s, unfolded p(1), simplified, unfolded Let_def w]
  show ?thesis
  proof (cases "select_result x (sleep_timeval w) \<ge> 0")
    case False
    then show ?thesis using run p(2) by auto
  next
    case True
    obtain rest s2 where l: "recv_loop cf (packet_clock x) 0 (arrivals x) (source_end x) ?s = Some (rest, s2)"
      "server_inv (timeout_clock x 0) s2" "set rest \<subseteq> set (arrivals x)"
      "\<forall>y \<in> ran (sview (factory s2)). sint (retry_times y) < max_retry_time cf"
      using recv_loop_ok[where clock = "packet_clock x" and i = 0 and src = "source_end x", OF p(2) X(1,2,3,5) left(2)]
        left(1) p(3) by (auto simp: retries_left_def)
    obtain s' now where b: "batch_timeout cf (timeout_clock x) 0 s2 = Some s'" "server_inv now s'"
      "timeout_clock x 0 \<le> now" "\<forall>y \<in> ran (sview (factory s')). now < timestamp y + request_timeout cf"
      using batch_loop[OF l(2), of "timeout_clock x" 0 "timeout_clock x 0" cf] X(4,6) l(4) by auto
    have "t \<le> now" using X(2,5) b(3) by (meson order_trans)
    then show ?thesis using run True l(1,3) b by auto
  qed
qed


section \<open>The state the loop starts in\<close>

text \<open>
  The rest of \<open>main\<close> and \<open>server_start\<close> around the pool, the sessions and the upstream
  servers; the cache comes filled with the fixed addresses, the two buffers come from
  \<open>malloc\<close>. The result is the return code, and the state when the loop is entered.
\<close>

definition server_boot :: "IdPool \<Rightarrow> DnsCache option \<Rightarrow> NetEnd LinkedList option \<Rightarrow> byte list \<Rightarrow> byte list
    \<Rightarrow> (int \<times> Server option) option" where
  "server_boot p0 c ups sbuf rbuf = do {
     let (e1, pl) = id_pool_init p0;
     if e1 \<noteq> 0 then Some (1, None)
     else do {
       (e2, fac) \<leftarrow> session_factory_init;
       if e2 \<noteq> 0 then Some (1, None)
       else if linked_list_is_empty ups then Some (-1, None)
       else do {
         l \<leftarrow> ups;
         Some (0, Some \<lparr>id_pool = pl, factory = fac, dns_cache = c, upstreams = l, next_upstream = None,
           send_buf = sbuf, recv_buf = rbuf, outbox = []\<rparr>) } } }"

lemma boot_ok:
  assumes "linv l" "lseq l \<noteq> []" "cache_fine c" "length sbuf = 4096" "length rbuf = 4096" "0 \<le> t"
  shows "\<exists>s. server_boot p0 c (Some l) sbuf rbuf = Some (0, Some s) \<and> server_inv t s \<and>
    sview (factory s) = Map.empty \<and> upstreams s = l \<and> next_upstream s = None \<and> dns_cache s = c \<and> outbox s = [] \<and>
    used_ids (id_pool s) = {} \<and> id_pool s = snd (id_pool_init p0)"
proof -
  obtain fac where fac: "session_factory_init = Some (0, fac)" "ses_inv fac" "sview fac = Map.empty"
    using init_ses by blast
  have l: "lrep l (laddrs l)" "laddrs l \<noteq> []" using assms(1,2) by (auto simp: linv_def lseq_def)
  then have "list_size l \<noteq> 0" by (simp add: lrep_def)
  moreover have "upstreams_ok l None" using l by (auto simp: upstreams_ok_def)
  moreover have used: "used_ids (snd (id_pool_init p0)) = {}" by (simp add: id_pool_init_def used_ids_def)
  then have "books_ok t (snd (id_pool_init p0)) fac"
    using fac(2,3) init_inv assms(6) by (simp add: books_ok_def)
  moreover have "fst (id_pool_init p0) = 0" by (simp add: id_pool_init_def)
  moreover define s where "s = \<lparr>id_pool = snd (id_pool_init p0), factory = fac, dns_cache = c, upstreams = l,
    next_upstream = None, send_buf = sbuf, recv_buf = rbuf, outbox = []\<rparr>"
  ultimately have "server_boot p0 c (Some l) sbuf rbuf = Some (0, Some s)" "server_inv t s"
    using assms(3-5) by (simp_all add: server_boot_def fac(1) split_beta server_inv_def)
  then show ?thesis using fac(3) used by (simp add: s_def)
qed

text \<open>
  A turn of the thread that keeps the cache clean: it does not touch anything else, and takes
  the lock of the cache while it works. Here it runs between two rounds of the loop.
\<close>

definition daemon_dnscache_ttl :: "(nat \<Rightarrow> ms) \<Rightarrow> Server \<Rightarrow> Server option" where
  "daemon_dnscache_ttl clock s = do {
     (r, c) \<leftarrow> dns_cache_prune clock (dns_cache s);
     Some (s\<lparr>dns_cache := c\<rparr>) }"

lemma prune_fine:
  assumes "cache_fine c"
  shows "\<exists>r c'. dns_cache_prune clock c = Some (r, c') \<and> cache_fine c'"
proof (cases c)
  case None
  then show ?thesis using assms by auto
next
  case (Some d)
  then obtain cap L where L: "cache_abs cap d L" "cache_sound ROOM L" using assms by (auto simp: cache_fine_def cache_opt_def)
  obtain d' where d': "dns_cache_prune clock (Some d) = Some (0, Some d')" "cache_abs cap d' (lru_prune clock 0 L)"
    using prune_refines[OF L(1)] by blast
  have "cache_sound ROOM (lru_prune clock 0 L)" by (rule cache_sound_mono[OF L(2) lru_prune_subset])
  then show ?thesis using d' Some by (auto simp: cache_fine_def cache_opt_def simp del: dns_cache_prune.simps)
qed

lemma daemon_ok:
  assumes "server_inv t s"
  shows "\<exists>s'. daemon_dnscache_ttl clock s = Some s' \<and> server_inv t s' \<and> sview (factory s') = sview (factory s)"
proof -
  obtain r c' where "dns_cache_prune clock (dns_cache s) = Some (r, c')" "cache_fine c'"
    using prune_fine assms by (fastforce simp: server_inv_def)
  then show ?thesis using assms by (intro exI[of _ "s\<lparr>dns_cache := c'\<rparr>"])
    (simp add: daemon_dnscache_ttl_def server_inv_def)
qed

text \<open>
  The states the loop goes through: every round with admissible inputs, as long as no session
  has used up its retries, and every turn of the thread between rounds. \<open>t\<close> is a time no
  earlier than any the state has seen.
\<close>

inductive reachable :: "Config \<Rightarrow> ms \<Rightarrow> Server \<Rightarrow> bool" for cf where
  boot: "linv l \<Longrightarrow> lseq l \<noteq> [] \<Longrightarrow> cache_fine c \<Longrightarrow> length sbuf = 4096 \<Longrightarrow> length rbuf = 4096 \<Longrightarrow>
    server_boot p0 c (Some l) sbuf rbuf = Some (0, Some s) \<Longrightarrow> 0 \<le> t \<Longrightarrow> reachable cf t s"
| round: "reachable cf t s \<Longrightarrow> retries_left cf s \<Longrightarrow> inputs_ok cf t x \<Longrightarrow>
    server_round cf x s = Some (True, rest, s') \<Longrightarrow> t \<le> t' \<Longrightarrow> \<forall>y \<in> ran (sview (factory s')). timestamp y \<le> t' \<Longrightarrow>
    reachable cf t' s'"
| heartbeat: "reachable cf t s \<Longrightarrow> use_cache cf \<Longrightarrow> daemon_dnscache_ttl clock s = Some s' \<Longrightarrow> reachable cf t s'"

inductive_cases reachableE: "reachable cf t s"

lemma inv_earlier:
  assumes "server_inv now s" "\<forall>y \<in> ran (sview (factory s)). timestamp y \<le> t" "0 \<le> t"
  shows "server_inv t s"
  using assms by (auto simp: server_inv_def books_ok_def)

lemma reachable_inv:
  assumes "reachable cf t s" "0 < max_retry_time cf"
  shows "server_inv t s"
  using assms(1)
proof (induction rule: reachable.induct)
  case (boot l c sbuf rbuf p0 s t)
  then show ?case using boot_ok[of l c sbuf rbuf t p0] by auto
next
  case (round t s x rest s' t')
  have "0 \<le> t" using round.IH by (simp add: server_inv_def books_ok_def)
  then show ?case
    using round_ok[OF round.IH round.hyps(2) assms(2) round.hyps(3)] round.hyps(4-6) inv_earlier[of _ s' t'] by auto
next
  case (heartbeat t s clock s')
  then show ?case using daemon_ok[OF heartbeat.IH, of clock] by auto
qed

section \<open>Sending exactly\<close>

lemma send_exact:
  assumes ok: "packet_ok p" "questions p = [q]" "\<forall>r \<in> set (rrs p). rr_name r = qname q" and room: "packet_room p \<le> 512"
    and len: "length (send_buf s) = 4096"
  shows "\<exists>b enc. (let n = sendto cf (length (outbox s)) enc (dest_sockaddr dest) in
      packet_send cf p dest s = Some (if n \<ge> 0 then 0 else 1,
        s\<lparr>send_buf := b, outbox := outbox s @ [(enc, dest_sockaddr dest, n)]\<rparr>)) \<and>
    (\<forall>rest. pack_deserialize (enc @ rest) (int (length enc)) = Some (0, Some p))"
proof -
  have "packet_room p \<le> length (send_buf s)" "int (packet_room p) \<le> DNS_SEND_BUF_SIZE" "packet_room p \<le> 0x3FFF"
    using room len by (simp_all add: DNS_SEND_BUF_SIZE_def)
  from answer_roundtrip_lemma[OF ok this] obtain e where e:
    "pack_serialize p (send_buf s) DNS_SEND_BUF_SIZE = Some (e @ drop (length e) (send_buf s), int (length e))"
    "length e \<le> packet_room p"
    "int (length e) \<le> 512 \<longrightarrow> (\<forall>rest. pack_deserialize (e @ rest) (int (length e)) = Some (0, Some p))" by blast
  have "arr_read (e @ drop (length e) (send_buf s)) 0 (length e) = Some e" by (simp add: arr_read_def)
  then show ?thesis using e room
    by (intro exI[of _ "e @ drop (length e) (send_buf s)"] exI[of _ e])
      (auto simp: packet_send_def socket_send_def Let_def MAX_PACKET_SIZE_def)
qed


end
