(* ===== verification/Server_Correct.thy ===== *)
theory Server_Correct
  imports Server
begin

text \<open>
  The properties of the event loop of \<open>Server\<close>: it never fails while its inputs are
  readable and sessions have retries left, a query and its answer make a conversation, a pass
  over the timeouts ends, upstream servers take turns, and the two ways in which it does fail.
\<close>

section \<open>A state to start from\<close>

text \<open>One upstream server, an empty cache, and a system that sends everything.\<close>

definition upstream_sample :: NetEnd where
  "upstream_sample = \<lparr>end_addr = [192, 0, 2, 1] @ replicate 12 0, end_version = IPV4, end_port = 0x3500\<rparr>"

definition config_sample :: "int \<Rightarrow> Config" where
  "config_sample retries = \<lparr>request_timeout = 3000, max_retry_time = retries, use_cache = True, sendto = (\<lambda>n bytes dest. int (length bytes))\<rparr>"

definition pool_sample :: IdPool where
  "pool_sample = \<lparr>ids = (\<lambda>_. 0), top_idx = 0, st = (\<lambda>_. False)\<rparr>"

lemma start_sample:
  "\<exists>l c s. linv l \<and> lseq l = [upstream_sample] \<and> cache_fine (Some c) \<and> cache_abs DNS_CACHE_DEFAULT_CAPACITY c [] \<and>
    server_boot p0 (Some c) (Some l) (replicate 4096 0) (replicate 4096 0) = Some (0, Some s) \<and>
    server_inv 0 s \<and> dns_cache s = Some c \<and> upstreams s = l \<and> next_upstream s = None \<and>
    sview (factory s) = Map.empty \<and> used_ids (id_pool s) = {} \<and> outbox s = [] \<and> id_pool s = snd (id_pool_init p0)"
proof -
  obtain l where l: "linked_list_addFirst linked_list_create upstream_sample = Some (Some l)" "linv l" "lseq l = [upstream_sample]"
  proof -
    obtain l0 :: "NetEnd LinkedList" where l0: "linked_list_create = Some l0" "lrep l0 []" using create_rep by blast
    obtain l a where "linked_list_addFirst (Some l0) upstream_sample = Some (Some l)" "lrep l [a]"
      "map (ndata l) [a] = [upstream_sample]" using addFirst_rep[OF l0(2), of upstream_sample] by auto
    then show thesis using that l0(1) by (simp add: lrep_linv lrep_lseq)
  qed
  obtain c where c: "cache_abs DNS_CACHE_DEFAULT_CAPACITY c []" using init_abs by blast
  then have fine: "cache_fine (Some c)" by (auto simp: cache_fine_def cache_opt_def cache_sound_def intro!: exI[of _ "[]"])
  show ?thesis
    using boot_ok[OF l(2) _ fine, of "replicate 4096 0" "replicate 4096 0" 0 p0] l(2,3) fine c by auto
qed

lemma query_ab_facts:
  "packet_ok query_ab" "packet_sound query_ab" "names_ok (questions query_ab)" "packet_room query_ab = 21"
  "packet_is_query query_ab" "packet_fine caching query_ab"
proof -
  have w: "wire_labels [[97], [98]]" by (simp add: wire_label_def)
  show ok: "packet_ok query_ab"
    using wire_no_zero[OF w] by (simp add: packet_ok_def query_ab_def question_ab_def rr_count_def del: wire_name.simps)
  show s: "packet_sound query_ab" by (simp add: packet_sound_def query_ab_def rr_count_def)
  show n: "names_ok (questions query_ab)"
    unfolding names_ok_def using w by (auto simp: query_ab_def question_ab_def simp del: wire_name.simps intro!: exI[of _ "[[97], [98]]"])
  show r: "packet_room query_ab = 21"
    by (simp add: packet_room_def query_ab_def questions_bytes_def question_bytes_def question_ab_def rrs_room_def)
  show q: "packet_is_query query_ab" by (simp add: packet_is_query_def IS_QUERY_def query_ab_def)
  show "packet_fine caching query_ab" using s n r q by (simp add: packet_fine_def ROOM_def)
qed

lemma query_ab_upstream:
  assumes "cache_abs cap c []"
  shows "\<exists>c'. pack_try_response_local (\<lambda>_. now) query_ab (Some c) = Some (UPSTREAM, None, c')"
proof -
  obtain c' where "pack_try_response_local (\<lambda>_. now) query_ab (Some c) =
      Some (fst (local_decision now [] [[97], [98]] query_ab question_ab),
        snd (local_decision now [] [[97], [98]] query_ab question_ab), Some c')"
    using try_response_lemma[OF assms, of query_ab question_ab "[[97], [98]]" now] plain_query_ab
    by (auto simp: plain_query_def)
  moreover have "bit (flags (header query_ab)) 8" by (simp add: query_ab_def bit_numeral_rec)
  then have "local_decision now [] [[97], [98]] query_ab question_ab = (UPSTREAM, None)"
    by (simp add: local_decision_def blocked_name_def live_def del: wire_name.simps)
  ultimately show ?thesis by simp
qed

lemma query_ab_bytes:
  "\<exists>enc. datagram_ok caching enc \<and> (\<forall>rest. pack_deserialize (enc @ rest) (int (length enc)) = Some (0, Some query_ab))"
proof -
  have "questions query_ab = [question_ab]" "rrs query_ab = []" by (simp_all add: query_ab_def)
  then obtain e where e: "length e \<le> packet_room query_ab"
    "int (length e) \<le> 512 \<longrightarrow> (\<forall>rest. pack_deserialize (e @ rest) (int (length e)) = Some (0, Some query_ab))"
    using answer_roundtrip_lemma[OF query_ab_facts(1), of question_ab "replicate 512 0" 512] query_ab_facts(4) by auto
  then show ?thesis using query_ab_facts(4,6) by (auto simp: datagram_ok_def)
qed

definition inputs_sample :: "byte list \<Rightarrow> Inputs" where
  "inputs_sample bytes = \<lparr>started = 0, select_result = (\<lambda>_. 1), source_end = upstream_sample,
     arrivals = [Datagram bytes (v4_prefix @ [10, 0, 0, 7]) 5353], packet_clock = (\<lambda>_ _. 5), timeout_clock = (\<lambda>_. 6)\<rparr>"

abbreviation with_id :: "DnsPacket \<Rightarrow> uint16_t \<Rightarrow> DnsPacket" where
  "with_id p i \<equiv> p\<lparr>header := (header p)\<lparr>hdr_id := i\<rparr>\<rparr>"

lemma with_id_ok [simp]:
  "packet_ok (with_id p i) = packet_ok p" "packet_fine b (with_id p i) = packet_fine b p"
  "packet_is_query (with_id p i) = packet_is_query p"
  by (simp_all add: packet_ok_def packet_fine_def packet_is_query_def rr_count_def)

text \<open>Packets that are sent as they are: one question, records of its name, short enough.\<close>

definition plain_packet :: "Config \<Rightarrow> DnsPacket \<Rightarrow> bool" where
  "plain_packet cf p \<longleftrightarrow> packet_ok p \<and> packet_fine (use_cache cf) p \<and> packet_room p \<le> 512 \<and>
     (\<exists>q. questions p = [q] \<and> (\<forall>r \<in> set (rrs p). rr_name r = qname q))"

definition reads_as :: "byte list \<Rightarrow> DnsPacket \<Rightarrow> bool" where
  "reads_as bytes p \<longleftrightarrow> (\<forall>rest. pack_deserialize (bytes @ rest) (int (length bytes)) = Some (0, Some p))"

lemma plain_sent:
  assumes "plain_packet cf p" "length (send_buf s) = 4096" "packet_send cf (with_id p i) dest s = Some (e, s')"
    and "\<forall>n bs d. 0 \<le> sendto cf n bs d"
  shows "e = 0" "\<exists>b n. outbox s' = outbox s @ [(b, dest_sockaddr dest, n)] \<and> reads_as b (with_id p i)"
proof -
  obtain q where "questions p = [q]" "\<forall>r \<in> set (rrs p). rr_name r = qname q" using assms(1) by (auto simp: plain_packet_def)
  then show "e = 0" "\<exists>b n. outbox s' = outbox s @ [(b, dest_sockaddr dest, n)] \<and> reads_as b (with_id p i)"
    using send_exact[of "with_id p i" q s cf dest] assms by (auto simp: plain_packet_def reads_as_def Let_def)
qed

lemma query_sent:
  assumes inv: "server_inv t s" and free: "used_ids (id_pool s) \<noteq> UNIV" and sends: "\<forall>n bs d. 0 \<le> sendto cf n bs d"
    and p: "plain_packet cf p" "packet_is_query p" and time: "t \<le> clock 0"
    and dec: "pack_try_response_local (\<lambda>i. clock (Suc i)) p (dns_cache s) = Some (UPSTREAM, None, c')"
  shows "\<exists>rid pl u s1 b n. id_alloc True (id_pool s) = (0, Some rid, pl) \<and> u \<in> set (lseq (upstreams s)) \<and>
    handle_dns_packet cf clock p src s = Some s1 \<and> outbox s1 = outbox s @ [(b, dest_sockaddr u, n)] \<and>
    reads_as b (with_id p rid) \<and> server_inv (clock 0) s1 \<and> id_pool s1 = pl \<and>
    sview (factory s1) = (sview (factory s))(rid \<mapsto> new_session p src rid (clock 0))"
proof -
  note I = server_inv_parts[OF inv]
  have P: "packet_sound p" "names_ok (questions p)" "packet_room p \<le> ROOM"
    using p(1) by (auto simp: packet_fine_def plain_packet_def)
  obtain cap L where c: "cache_opt cap (dns_cache s) L" "cache_sound ROOM L" using I(2) by (auto simp: cache_fine_def)
  have "cache_fine c'" using try_response_any[OF c P(1,2), of "\<lambda>i. clock (Suc i)"] dec cache_sound_mono[OF c(2)]
    by (auto simp: cache_fine_def)
  moreover obtain rid pl where alloc: "id_alloc True (id_pool s) = (0, Some rid, pl)"
    using pool.alloc_ok[of "id_pool s"] free I(1) by (auto simp: books_ok_def)
  ultimately obtain u x2 e x3 s1 where f: "u \<in> set (lseq (upstreams s))" "send_buf x2 = send_buf s" "outbox x2 = outbox s"
    "packet_send cf (with_id p rid) u x2 = Some (e, x3)" "handle_dns_packet cf clock p src s = Some s1"
    "server_inv (clock 0) s1" "outbox s1 = outbox x3"
    "e = 0 \<longrightarrow> id_pool s1 = pl \<and> sview (factory s1) = (sview (factory s))(rid \<mapsto> new_session p src rid (clock 0))"
    using query_forwarded[OF inv P(1,3) p(2) time dec, of rid pl cf src] by blast
  have len: "length (send_buf x2) = 4096" using f(2) I(4) by simp
  note sent = plain_sent[OF p(1) len f(4) sends]
  from sent(2) f(3) obtain b n where "outbox x3 = outbox s @ [(b, dest_sockaddr u, n)]" "reads_as b (with_id p rid)" by auto
  with alloc f sent(1) show ?thesis by auto
qed

lemma response_sent:
  assumes inv: "server_inv t s" and sends: "\<forall>n bs d. 0 \<le> sendto cf n bs d"
    and r: "plain_packet cf r" "\<not> packet_is_query r" and time: "t \<le> clock 0" and x: "sview (factory s) rid = Some x"
  shows "\<exists>s' b n. handle_dns_packet cf clock (with_id r rid) src s = Some s' \<and>
    outbox s' = outbox s @ [(b, dest_sockaddr (client_ip x), n)] \<and> reads_as b (with_id r (client_id x)) \<and>
    server_inv (clock 0) s' \<and> sview (factory s') = (sview (factory s))(rid := None) \<and> id_pool s' = id_free rid (id_pool s)"
proof -
  have fine: "packet_fine (use_cache cf) (with_id r rid)" "\<not> packet_is_query (with_id r rid)"
    and x': "sview (factory s) (hdr_id (header (with_id r rid))) = Some x"
    using r x by (simp_all add: plain_packet_def)
  obtain c2 e s1 s' where g: "packet_send cf (with_id r (client_id x)) (client_ip x) (s\<lparr>dns_cache := c2\<rparr>) = Some (e, s1)"
    "handle_dns_packet cf clock (with_id r rid) src s = Some s'" "server_inv (clock 0) s'" "outbox s' = outbox s1"
    "sview (factory s') = (sview (factory s))(rid := None)" "id_pool s' = id_free rid (id_pool s)"
    using response_relayed[where clock = clock and src = src and cf = cf, OF inv fine time refl x'] by auto
  have "length (send_buf (s\<lparr>dns_cache := c2\<rparr>)) = 4096" using inv by (simp add: server_inv_def)
  from plain_sent(2)[OF r(1) this g(1) sends] g show ?thesis by auto
qed

lemma plain_query_ab_packet: "plain_packet cf query_ab"
  using query_ab_facts by (auto simp: plain_packet_def query_ab_def)

lemma plain_answer_ab: "plain_packet cf answer_ab" "\<not> packet_is_query answer_ab"
proof -
  have w: "wire_labels [[97], [98]]" by (simp add: wire_label_def)
  show q: "\<not> packet_is_query answer_ab" by (simp add: packet_is_query_def IS_QUERY_def answer_ab_def)
  have ok: "packet_ok answer_ab"
    using wire_no_zero[OF w] w
    by (auto simp: packet_ok_def answer_ab_def question_ab_def rr_count_def rr_ok_def QTYPE_A_def QTYPE_MX_def
        QTYPE_CNAME_def QTYPE_NS_def simp del: wire_name.simps intro!: exI[of _ "[[97], [98]]"])
  then have "packet_sound answer_ab" by (auto simp: packet_sound_def packet_ok_def rr_ok_sound)
  moreover have "names_ok (questions answer_ab)"
    unfolding names_ok_def using w
    by (auto simp: answer_ab_def question_ab_def simp del: wire_name.simps intro!: exI[of _ "[[97], [98]]"])
  moreover have "packet_room answer_ab = 40"
    by (simp add: packet_room_def answer_ab_def questions_bytes_def question_bytes_def question_ab_def rrs_room_def rr_room_def)
  ultimately show "plain_packet cf answer_ab"
    using ok q by (auto simp: plain_packet_def packet_fine_def ROOM_def) (auto simp: answer_ab_def question_ab_def)
qed

text \<open>The relay after its first query.\<close>

lemma waiting_sample:
  "\<exists>s. server_inv 5 s \<and> sview (factory s) = [65535 \<mapsto> new_session query_ab upstream_sample 65535 5]"
proof -
  obtain l c s where s: "cache_abs DNS_CACHE_DEFAULT_CAPACITY c []" "server_inv 0 s"
    "dns_cache s = Some c" "used_ids (id_pool s) = {}" "sview (factory s) = Map.empty" "id_pool s = snd (id_pool_init pool_sample)"
    using start_sample[of pool_sample] by auto
  obtain c' where dec: "pack_try_response_local (\<lambda>_. 5) query_ab (dns_cache s) = Some (UPSTREAM, None, c')"
    using query_ab_upstream[OF s(1), of 5] s(3) by auto
  have "used_ids (id_pool s) \<noteq> UNIV" "\<forall>n bs d. 0 \<le> sendto (config_sample 2) n bs d"
    by (simp_all add: s(4) config_sample_def)
  from query_sent[where clock = "\<lambda>_. 5" and src = upstream_sample, OF s(2) this plain_query_ab_packet query_ab_facts(5) _ dec]
  obtain rid pl s1 where "id_alloc True (id_pool s) = (0, Some rid, pl)" "server_inv 5 s1"
    "sview (factory s1) = (sview (factory s))(rid \<mapsto> new_session query_ab upstream_sample rid 5)" by auto
  moreover from this(1) have "rid = 65535" by (simp add: s(6) id_pool_init_def id_alloc_def Let_def)
  ultimately show ?thesis using s(5) by auto
qed

text \<open>The timeout of a session without retries left, whose client chose another identifier.\<close>

lemma exhausted_step:
  assumes inv: "server_inv t s" and peek: "session_peek (factory s) = Some (Some a, fac)"
    and x: "sessions fac a = Some x" and same: "sessions fac = sessions (factory s)"
    and used: "max_retry_time cf \<le> sint (retry_times x)" and other: "client_id x \<noteq> relay_id x"
  shows "\<exists>s2. do_handle_timeout cf now a (s\<lparr>factory := fac\<rparr>) = Some s2 \<and> sessions (factory s2) a = None \<and>
    session_peek (factory s2) = Some (Some a, factory s2)"
proof -
  let ?q = "with_id (relay_packet x) (client_id x)" and ?x = "x\<lparr>relay_packet := with_id (relay_packet x) (client_id x)\<rparr>"
  let ?s = "s\<lparr>factory := fac\<lparr>sessions := (sessions fac)(a \<mapsto> ?x)\<rparr>\<rparr>"
  have sinv: "ses_inv (factory s)" using inv by (simp add: server_inv_def books_ok_def)
  then have "sview (factory s) (relay_id x) = Some x" using x same by (simp add: session_view)
  then have ok: "packet_sound ?q" "packet_room ?q \<le> ROOM"
    using server_inv_parts(1)[OF inv] by (auto simp: books_ok_def relay_ok_def ran_def)
  have len: "length (send_buf ?s) = 4096" using server_inv_parts(4)[OF inv] by simp
  from reply_sent[OF fail_reply[OF ok(1)] ok(2) len] obtain e b out where
    send: "packet_send cf (pack_make_inner_error ?q) (client_ip x) ?s = Some (e, ?s\<lparr>send_buf := b, outbox := out\<rparr>)"
    unfolding pack_make_inner_error_def by blast
  have "sessions (factory s) a = Some x" "relay_id ?x \<noteq> relay_id x" using x same other by (simp_all add: relay_id_def)
  from close_renamed[OF sinv peek this] obtain fac2 where c:
    "session_close a (fac\<lparr>sessions := (sessions fac)(a \<mapsto> ?x)\<rparr>) = Some fac2" "sessions fac2 a = None"
    "session_peek fac2 = Some (Some a, fac2)" by blast
  let ?s2 = "?s\<lparr>send_buf := b, outbox := out, factory := fac2, id_pool := id_free (relay_id x) (id_pool s)\<rparr>"
  have "do_handle_timeout cf now a (s\<lparr>factory := fac\<rparr>) = Some ?s2"
    using used x send c(1) by (simp add: do_handle_timeout_def Let_def)
  with c(2,3) show ?thesis by (intro exI[of _ ?s2]) simp
qed

section \<open>Properties\<close>



text \<open>
  C4. A conversation: a query that is neither answered locally nor refused is sent, with the
  same questions and a fresh identifier, to an upstream server; when a response with that
  identifier comes, whatever its source, it is sent to the address and port the query came
  from, under the identifier the client chose and otherwise unchanged, the session is over and
  the identifier is free again. What is sent reads back as stated.
\<close>

theorem conversation:
  assumes "server_inv t s" and "used_ids (id_pool s) \<noteq> UNIV" and "\<forall>n bs d. 0 \<le> sendto cf n bs d"
    and "plain_packet cf p" and "packet_is_query p" and "t \<le> clock 0"
    and "pack_try_response_local (\<lambda>i. clock (Suc i)) p (dns_cache s) = Some (UPSTREAM, None, c')"
    and "plain_packet cf r" and "\<not> packet_is_query r" and "clock 0 \<le> clock' 0"
    and "length adr = 16" and "length (end_addr old_end) = 16"
  shows "\<exists>rid u s1 s2 b1 b2 d n1 n2. rid \<notin> used_ids (id_pool s) \<and> u \<in> set (lseq (upstreams s)) \<and>
    handle_dns_packet cf clock p (source_netend adr port old_end) s = Some s1 \<and>
    outbox s1 = outbox s @ [(b1, dest_sockaddr u, n1)] \<and> reads_as b1 (with_id p rid) \<and>
    handle_dns_packet cf clock' (with_id r rid) src s1 = Some s2 \<and>
    outbox s2 = outbox s1 @ [(b2, d, n2)] \<and> endpoint d = (adr, port) \<and> reads_as b2 (with_id r (hdr_id (header p))) \<and>
    used_ids (id_pool s2) = used_ids (id_pool s) \<and> sview (factory s2) = sview (factory s) \<and> server_inv (clock' 0) s2"
proof -
  let ?src = "source_netend adr port old_end"
  obtain rid pl u s1 b1 n1 where f: "id_alloc True (id_pool s) = (0, Some rid, pl)" "u \<in> set (lseq (upstreams s))"
    "handle_dns_packet cf clock p ?src s = Some s1" "outbox s1 = outbox s @ [(b1, dest_sockaddr u, n1)]"
    "reads_as b1 (with_id p rid)" "server_inv (clock 0) s1" "id_pool s1 = pl"
    "sview (factory s1) = (sview (factory s))(rid \<mapsto> new_session p ?src rid (clock 0))"
    using query_sent[OF assms(1-7), of ?src] by blast
  have x: "sview (factory s1) rid = Some (new_session p ?src rid (clock 0))" using f(8) by simp
  obtain s2 b2 n2 where g: "handle_dns_packet cf clock' (with_id r rid) src s1 = Some s2"
    "outbox s2 = outbox s1 @ [(b2, dest_sockaddr ?src, n2)]" "reads_as b2 (with_id r (hdr_id (header p)))"
    "server_inv (clock' 0) s2" "sview (factory s2) = (sview (factory s1))(rid := None)" "id_pool s2 = id_free rid pl"
    using response_sent[where clock = clock' and src = src, OF f(6) assms(3,8,9,10) x] f(7)
    by (auto simp: new_session_def)
  have pool: "pool_inv (id_pool s)" "used_ids (id_pool s) = dom (sview (factory s))"
    using server_inv_parts(1)[OF assms(1)] by (auto simp: books_ok_def)
  have fresh: "rid \<notin> used_ids (id_pool s)" by (rule pool.alloc_fresh[OF pool(1) f(1)])
  have "used_ids (id_pool s2) = used_ids (id_pool s)" using pool.release_alloc[OF pool(1) f(1)] g(6) by simp
  moreover have "sview (factory s2) = sview (factory s)" using g(5) f(8) fresh pool(2) by (auto simp: fun_eq_iff dom_def)
  ultimately show ?thesis using fresh f g reply_endpoint[OF assms(11,12)] by metis
qed

theorem conversation_witness:
  "\<exists>s rid s1 s2 b1 b2 d n1 n2. outbox s = [] \<and> handle_dns_packet (config_sample 2) (\<lambda>_. 5) query_ab
      (source_netend (v4_prefix @ [10, 0, 0, 7]) 5353 upstream_sample) s = Some s1 \<and>
    outbox s1 = [(b1, dest_sockaddr upstream_sample, n1)] \<and> reads_as b1 (with_id query_ab rid) \<and>
    handle_dns_packet (config_sample 2) (\<lambda>_. 9) (with_id answer_ab rid) upstream_sample s1 = Some s2 \<and>
    outbox s2 = outbox s1 @ [(b2, d, n2)] \<and> endpoint d = (v4_prefix @ [10, 0, 0, 7], 5353) \<and>
    reads_as b2 (with_id answer_ab 7) \<and> used_ids (id_pool s2) = {}"
proof -
  obtain l c s where s: "lseq l = [upstream_sample]" "cache_abs DNS_CACHE_DEFAULT_CAPACITY c []" "server_inv 0 s"
    "dns_cache s = Some c" "upstreams s = l" "used_ids (id_pool s) = {}" "outbox s = []"
    using start_sample[of pool_sample] by auto
  obtain c' where dec: "pack_try_response_local (\<lambda>_. 5) query_ab (dns_cache s) = Some (UPSTREAM, None, c')"
    using query_ab_upstream[OF s(2), of 5] s(4) by auto
  have "used_ids (id_pool s) \<noteq> UNIV" "\<forall>n bs d. 0 \<le> sendto (config_sample 2) n bs d"
    "length (v4_prefix @ [10, 0, 0, 7]) = 16" "length (end_addr upstream_sample) = 16"
    by (simp_all add: s(6) config_sample_def v4_prefix_def upstream_sample_def)
  from conversation[where clock = "\<lambda>_. 5" and clock' = "\<lambda>_. 9" and src = upstream_sample and port = 5353,
      OF s(3) this(1,2) plain_query_ab_packet query_ab_facts(5) _ dec plain_answer_ab _ this(3,4)]
  obtain rid u s1 s2 b1 b2 d n1 n2 where r: "u \<in> set (lseq (upstreams s))"
    "handle_dns_packet (config_sample 2) (\<lambda>_. 5) query_ab
      (source_netend (v4_prefix @ [10, 0, 0, 7]) 5353 upstream_sample) s = Some s1"
    "outbox s1 = outbox s @ [(b1, dest_sockaddr u, n1)]" "reads_as b1 (with_id query_ab rid)"
    "handle_dns_packet (config_sample 2) (\<lambda>_. 9) (with_id answer_ab rid) upstream_sample s1 = Some s2"
    "outbox s2 = outbox s1 @ [(b2, d, n2)]" "endpoint d = (v4_prefix @ [10, 0, 0, 7], 5353)"
    "reads_as b2 (with_id answer_ab (hdr_id (header query_ab)))" "used_ids (id_pool s2) = used_ids (id_pool s)" by auto
  moreover have "hdr_id (header query_ab) = 7" by (simp add: query_ab_def)
  moreover have "u = upstream_sample" using r(1) s(1,5) by simp
  ultimately show ?thesis using s(6,7)
    by (intro exI[of _ s] exI[of _ rid] exI[of _ s1] exI[of _ s2] exI[of _ b1] exI[of _ b2] exI[of _ d]
        exI[of _ n1] exI[of _ n2]) simp
qed



text \<open>
  C6. When the earliest session has used up its retries, handling its timeout overwrites the
  identifier of the session's packet before \<open>session_close\<close>, so the session is freed but not
  taken out of the map and the queue: unless the client happened to choose the relay's
  identifier, the next iteration reads the freed session.
\<close>

theorem exhausted_session_used_after_free:
  assumes "server_inv t s" and "sview (factory s) i = Some x"
    and "\<forall>j y. j \<noteq> i \<and> sview (factory s) j = Some y \<longrightarrow> timestamp x < timestamp y"
    and "timestamp x + request_timeout cf \<le> clock 0" and "max_retry_time cf \<le> sint (retry_times x)"
    and "client_id x \<noteq> i"
  shows "batch_timeout cf clock 0 s = None"
proof -
  obtain r fac where p: "session_peek (factory s) = Some (r, fac)" "sview fac = sview (factory s)"
    "sessions fac = sessions (factory s)" "case r of None \<Rightarrow> sview fac = Map.empty
     | Some a \<Rightarrow> \<exists>x. sessions fac a = Some x \<and> sview fac (relay_id x) = Some x \<and>
         (\<forall>y \<in> ran (sview fac). timestamp x \<le> timestamp y)"
    using peek_server[OF assms(1)] by blast
  have "r \<noteq> None" using p(2,4) assms(2) by (cases r) auto
  then obtain a y where a: "r = Some a" "sessions fac a = Some y" "sview fac (relay_id y) = Some y"
    "\<forall>z \<in> ran (sview fac). timestamp y \<le> timestamp z" using p(4) by auto
  have "timestamp y \<le> timestamp x" using a(4) assms(2) p(2) by (auto simp: ran_def)
  then have "relay_id y = i" using assms(3) a(3) p(2) by force
  then have y: "y = x" "relay_id x = i" using assms(2) a(3) p(2) by auto
  obtain s2 where s2: "do_handle_timeout cf (clock 1) a (s\<lparr>factory := fac\<rparr>) = Some s2"
    "sessions (factory s2) a = None" "session_peek (factory s2) = Some (Some a, factory s2)"
    using exhausted_step[where now = "clock 1", OF assms(1) p(1)[unfolded a(1)] a(2)[unfolded y] p(3) assms(5)] assms(6) y(2) by blast
  have "batch_timeout cf clock (Suc 0) s2 = None"
    using s2(2,3) by (subst batch_timeout.simps) (simp add: get_session_timeout_remain_def Let_def)
  then show ?thesis using p(1) a(1,2) y assms(4) s2(1)
    by (subst batch_timeout.simps) (simp add: get_session_timeout_remain_def Let_def)
qed

theorem exhausted_session_used_after_free_witness:
  "\<exists>s. sview (factory s) = [65535 \<mapsto> new_session query_ab upstream_sample 65535 5] \<and> server_inv 5 s \<and>
    batch_timeout (config_sample 0) (\<lambda>_. 4000) 0 s = None"
proof -
  obtain s where s: "server_inv 5 s" "sview (factory s) = [65535 \<mapsto> new_session query_ab upstream_sample 65535 5]"
    using waiting_sample by blast
  have "batch_timeout (config_sample 0) (\<lambda>_. 4000) 0 s = None"
    by (rule exhausted_session_used_after_free[OF s(1), of 65535 "new_session query_ab upstream_sample 65535 5"])
      (simp_all add: s(2) new_session_def config_sample_def query_ab_def split: if_splits)
  with s show ?thesis by blast
qed

text \<open>
  C36. A response to an open session that has no question makes the relay read the first
  element of an empty vector, when it caches: any host that guesses an identifier in use can
  do this, for the source of a response has no influence on how it is handled.
\<close>

theorem response_without_question_fails:
  assumes "server_inv t s" and "use_cache cf" and "\<not> packet_is_query r" and "questions r = []"
    and "sview (factory s) (hdr_id (header r)) = Some x"
  shows "handle_dns_packet cf clock r src s = None \<and>
    (\<not> packet_is_query r' \<longrightarrow> handle_dns_packet cf clock r' src s' = handle_dns_packet cf clock r' src' s')"
proof -
  have "ses_inv (factory s)" using assms(1) by (simp add: server_inv_def books_ok_def)
  then obtain a y where "session_get (Some r) (factory s) = Some (Some a)" "sessions (factory s) a = Some y"
    using ses.find_law[of "factory s" r] assms(5) by (auto split: option.splits)
  moreover have "pack_make_response_relay True now r cid c = None" for now cid c
    using assms(4) by (cases "packet_clone r") (simp_all add: pack_make_response_relay_def Let_def)
  ultimately show ?thesis using assms(2,3) by (simp add: handle_dns_packet_def del: session_get.simps)
qed

definition no_question :: DnsPacket where
  "no_question = \<lparr>header = \<lparr>hdr_id = 65535, flags = 0x8000, qcount = 0, answer_RRs = 0, authority_RRs = 0,
     additional_RRs = 0\<rparr>, questions = [], rrs = []\<rparr>"

theorem response_without_question_fails_witness:
  "\<exists>s. server_inv 5 s \<and> handle_dns_packet (config_sample 2) (\<lambda>_. 7) no_question upstream_sample s = None"
proof -
  obtain s where s: "server_inv 5 s" "sview (factory s) = [65535 \<mapsto> new_session query_ab upstream_sample 65535 5]"
    using waiting_sample by blast
  have "use_cache (config_sample 2)" "\<not> packet_is_query no_question" "questions no_question = []"
    "sview (factory s) (hdr_id (header no_question)) = Some (new_session query_ab upstream_sample 65535 5)"
    by (simp_all add: config_sample_def packet_is_query_def IS_QUERY_def no_question_def s(2))
  from response_without_question_fails[OF s(1) this] s(1) show ?thesis by blast
qed

fun picks :: "nat \<Rightarrow> Server \<Rightarrow> NetEnd list option" where
  "picks 0 s = Some []"
| "picks (Suc n) s = do { (u, s1) \<leftarrow> pick_upstream s; us \<leftarrow> picks n s1; Some (u # us) }"

lemma pick_at:
  assumes rep: "lrep (upstreams s) as" and k: "k < length as"
    and at: "next_upstream s = Some (as ! k) \<or> k = 0 \<and> next_upstream s = None"
  shows "pick_upstream s = Some (ndata (upstreams s) (as ! k),
    s\<lparr>next_upstream := if Suc k < length as then Some (as ! Suc k) else None\<rparr>)"
proof -
  have split: "as = take k as @ as ! k # drop (Suc k) as" using k by (rule id_take_nth_drop)
  then obtain nd where nd: "nodes (upstreams s) (as ! k) = Some nd" "node_next nd = first_or (drop (Suc k) as) None"
    using rep lrep_split by metis
  have "first_or (drop (Suc k) as) None = (if Suc k < length as then Some (as ! Suc k) else None)"
    by (cases "Suc k < length as") (simp_all add: Cons_nth_drop_Suc[symmetric])
  moreover have "list_head (upstreams s) = Some (as ! 0)" using rep k by (cases as) (auto simp: lrep_def)
  ultimately show ?thesis using at nd by (auto simp: pick_upstream_def ndata_def)
qed

lemma picks_from:
  assumes "lrep (upstreams s) as" "k < length as" "next_upstream s = Some (as ! k) \<or> k = 0 \<and> next_upstream s = None"
  shows "picks n s = Some (map (\<lambda>j. lseq (upstreams s) ! ((k + j) mod length as)) [0..<n])"
  using assms
proof (induction n arbitrary: s k)
  case (Suc n)
  let ?s = "s\<lparr>next_upstream := if Suc k < length as then Some (as ! Suc k) else None\<rparr>"
  have "lseq (upstreams s) ! k = ndata (upstreams s) (as ! k)" using Suc.prems(1,2) by (simp add: lrep_lseq)
  then have pick: "pick_upstream s = Some (lseq (upstreams s) ! k, ?s)" using pick_at[OF Suc.prems] by simp
  have "Suc k mod length as < length as" using Suc.prems(2) by (intro mod_less_divisor) linarith
  moreover have "next_upstream ?s = Some (as ! (Suc k mod length as)) \<or> Suc k mod length as = 0 \<and> next_upstream ?s = None"
    using Suc.prems(2) by (cases "Suc k = length as") auto
  ultimately have "picks n ?s = Some (map (\<lambda>j. lseq (upstreams s) ! ((Suc k mod length as + j) mod length as)) [0..<n])"
    using Suc.IH[of ?s "Suc k mod length as"] Suc.prems(1) by simp
  moreover have "[0..<Suc n] = 0 # map Suc [0..<n]" by (simp add: upt_conv_Cons map_Suc_upt del: upt_Suc)
  ultimately show ?case using pick Suc.prems(2) by (simp add: mod_add_left_eq comp_def del: upt_Suc)
qed simp

text \<open>
  C28. The upstream servers take turns: of any number of consecutive choices from the start on,
  the \<open>n\<close>-th is the server at position \<open>n\<close> modulo the number of servers of the list.
\<close>

theorem upstreams_take_turns:
  assumes "linv (upstreams s)" and "lseq (upstreams s) \<noteq> []" and "next_upstream s = None"
  shows "picks n s = Some (map (\<lambda>j. lseq (upstreams s) ! (j mod length (lseq (upstreams s)))) [0..<n])"
proof -
  have "lrep (upstreams s) (laddrs (upstreams s))" "0 < length (laddrs (upstreams s))"
    using assms(1,2) by (auto simp: linv_def lseq_def)
  from picks_from[OF this] assms(3) show ?thesis by (simp add: lseq_def)
qed

theorem upstreams_take_turns_witness:
  "\<exists>s. lseq (upstreams s) = [upstream_sample] \<and> picks 2 s = Some [upstream_sample, upstream_sample]"
proof -
  obtain l and s :: Server where s: "linv l" "lseq l = [upstream_sample]" "upstreams s = l" "next_upstream s = None"
    using start_sample[of pool_sample] by blast
  with upstreams_take_turns[of s 2] have "picks 2 s = Some [upstream_sample, upstream_sample]"
    by (simp add: numeral_2_eq_2)
  with s show ?thesis by blast
qed

end
