(* ===== verification/C_Library.thy ===== *)
theory C_Library
  imports Stl_HashMap
begin

text \<open>
  The functions of the C library that the readers of files and settings use: character
  classes, comparison without case, numbers in texts, and \<open>fgets\<close>. The locale is the C
  locale; \<open>strcmp\<close> is in \<open>Stl_HashMap\<close>.
\<close>

section \<open>Characters\<close>

definition NEWLINE :: byte where "NEWLINE = 10"
definition HASH :: byte where "HASH = 35"
definition COMMA :: byte where "COMMA = 44"
definition EQUALS :: byte where "EQUALS = 61"

definition isspace :: "byte \<Rightarrow> bool" where
  "isspace b \<longleftrightarrow> b = 32 \<or> 9 \<le> b \<and> b \<le> 13"

definition tolower :: "byte \<Rightarrow> byte" where
  "tolower b = (if 65 \<le> b \<and> b \<le> 90 then b + 32 else b)"

definition strcasecmp :: "cstr \<Rightarrow> cstr \<Rightarrow> int" where
  "strcasecmp a b = strcmp (map tolower a) (map tolower b)"

text \<open>The string in an array that begins with the given bytes, with a zero byte behind.\<close>

definition c_string :: "byte list \<Rightarrow> cstr" where
  "c_string bs = takeWhile (\<lambda>b. b \<noteq> 0) bs"

lemma isspace_newline: "isspace NEWLINE"
  by (simp add: isspace_def NEWLINE_def)

section \<open>Numbers\<close>

text \<open>
  The number a text begins with, behind blanks and a sign; 0 without digits. Outside the
  range of the type the standard gives no result.
\<close>

definition digit :: "byte \<Rightarrow> bool" where
  "digit b \<longleftrightarrow> 48 \<le> b \<and> b \<le> 57"

definition digits_value :: "cstr \<Rightarrow> int" where
  "digits_value ds = foldl (\<lambda>n d. 10 * n + (uint d - 48)) 0 ds"

definition leading_number :: "cstr \<Rightarrow> int" where
  "leading_number s =
     (case dropWhile isspace s of
        [] \<Rightarrow> 0
      | b # bs \<Rightarrow> if b = 45 then - digits_value (takeWhile digit bs)
                  else if b = 43 then digits_value (takeWhile digit bs)
                  else digits_value (takeWhile digit (b # bs)))"

definition atoi :: "cstr \<Rightarrow> int option" where
  "atoi s = (let n = leading_number s in if - (2 ^ 31) \<le> n \<and> n < 2 ^ 31 then Some n else None)"

definition atol :: "cstr \<Rightarrow> int option" where
  "atol s = (let n = leading_number s in if - (2 ^ 63) \<le> n \<and> n < 2 ^ 63 then Some n else None)"

section \<open>Lines\<close>

text \<open>
  \<open>fgets\<close> fills a buffer of \<open>size\<close> bytes up to a newline, the end of the file or its last
  byte but one and appends a zero byte; the bytes behind keep what they held. No result at
  the end of the file.
\<close>

fun take_line :: "nat \<Rightarrow> byte list \<Rightarrow> byte list \<times> byte list" where
  "take_line 0 xs = ([], xs)"
| "take_line (Suc n) [] = ([], [])"
| "take_line (Suc n) (x # xs) =
     (if x = NEWLINE then ([x], xs) else (case take_line n xs of (l, rest) \<Rightarrow> (x # l, rest)))"

definition fgets :: "nat \<Rightarrow> byte list \<Rightarrow> byte list \<Rightarrow> (byte list \<times> byte list) option" where
  "fgets sz line file =
     (if file = [] then None
      else (case take_line (sz - 1) file of (l, rest) \<Rightarrow>
        Some (l @ 0 # drop (length l + 1) line, rest)))"

lemma take_line_split: "take_line n xs = (l, rest) \<Longrightarrow> xs = l @ rest"
  by (induction n xs arbitrary: l rule: take_line.induct) (auto split: if_splits prod.splits)

lemma fgets_shorter:
  assumes "fgets n line input = Some (line1, rest)" "1 < n"
  shows "length rest < length input"
proof -
  obtain x xs where f: "input = x # xs" using assms(1) by (cases input) (auto simp: fgets_def)
  obtain m where m: "n - 1 = Suc m" using assms(2) by (cases "n - 1") simp_all
  obtain l r where lr: "take_line (n - 1) input = (l, r)" by (cases "take_line (n - 1) input")
  then have "rest = r" using assms(1) by (simp add: fgets_def f)
  moreover have "l \<noteq> []" using lr unfolding f m by (auto split: if_splits prod.splits)
  moreover have "input = l @ r" by (rule take_line_split[OF lr])
  ultimately show ?thesis by simp
qed

lemma take_line_whole:
  "NEWLINE \<notin> set xs \<Longrightarrow> length xs < n \<Longrightarrow> take_line n (xs @ NEWLINE # rest) = (xs @ [NEWLINE], rest)"
proof (induction xs arbitrary: n)
  case Nil
  then show ?case by (cases n) auto
next
  case (Cons x xs)
  then show ?case by (cases n) auto
qed

lemma fgets_line:
  assumes "NEWLINE \<notin> set xs" "length xs + 1 < n"
  shows "fgets n line (xs @ NEWLINE # rest) =
    Some (xs @ NEWLINE # 0 # drop (length xs + 2) line, rest)"
  using take_line_whole[OF assms(1), of "n - 1"] assms(2) by (simp add: fgets_def)

lemma fgets_end: "fgets n line [] = None"
  by (simp add: fgets_def)

end
