(* ===== verification/Config_Center.thy ===== *)
theory Config_Center
  imports C_Library
begin

text \<open>
  The configuration of \<^verbatim>\<open>src/infra/config_center.c\<close>: sections of entries in hash maps, values
  that are read from a file as text and parsed when they are first asked for, the registries
  of parsers and cleaners, and the reader of configuration files. Sections and values are
  reached through addresses, because \<open>config_get\<close> changes an entry through its pointer. What
  a parser makes of a text is of a type of the clients, \<open>'v\<close>. The state as clients see it is
  the partial function \<open>cfg_view\<close>.

  The out parameter of \<open>config_get\<close> is never \<open>NULL\<close> in the program; the branch that reports
  it is left out.
\<close>

section \<open>Data\<close>

text \<open>
  A value is the text from the file or what a client made of it. A parser and a cleaner may
  have undefined executions; the result of a parser is its code and what it stored, if it
  stored anything; the result of a cleaner is what it freed.
\<close>

datatype 'v T = Text cstr | Object 'v

type_synonym 'v ConfigParser = "cstr \<Rightarrow> cstr \<Rightarrow> (int \<times> 'v T option) option"
type_synonym 'v ConfigCleaner = "cstr \<Rightarrow> 'v T \<Rightarrow> 'v list option"

record 'v ConfigValue =
  is_cook :: bool
  cfg_value :: "'v T"

record ConfigSection =
  section_entries :: "(cstr, addr) HashMap option"

text \<open>\<open>cleaned\<close> lists what the cleaners have freed so far.\<close>

record 'v ConfigCenter =
  configs_sections :: "(cstr, addr) HashMap option"
  config_parsers :: "(cstr, 'v ConfigParser) HashMap option"
  config_cleaners :: "(cstr, 'v ConfigCleaner) HashMap option"
  sec_mem :: "addr \<rightharpoonup> ConfigSection"
  val_mem :: "addr \<rightharpoonup> 'v ConfigValue"
  next_addr :: addr
  cleaned :: "'v list"

definition KEY_SIZE :: nat where "KEY_SIZE = 64"
definition VALUE_STR_SIZE :: nat where "VALUE_STR_SIZE = 128"

definition key_compare :: "cstr \<Rightarrow> cstr \<Rightarrow> int" where
  "key_compare a b = compare_cstr (Some a) (Some b)"

section \<open>Registries\<close>

text \<open>
  The keys of the two registries point to arrays on the stack of calls that have returned.
  \<open>stale k\<close> is what is read today where \<open>k\<close> was written: \<open>with_keys stale\<close> is the registry
  whose comparator reads the stored key, its first argument, in this way. (Stored keys are
  hashed again only when a registry grows, beyond twelve sections; the program has three.)
\<close>

definition with_keys :: "(cstr \<Rightarrow> cstr) \<Rightarrow> (cstr, 'w) HashMap option \<Rightarrow> (cstr, 'w) HashMap option" where
  "with_keys stale p = map_option (\<lambda>m. m\<lparr>comparator := \<lambda>a b. key_compare (stale a) b\<rparr>) p"

text \<open>\<open>strcpy\<close> into an array of \<open>KEY_SIZE\<close> bytes.\<close>

definition copy_key :: "cstr \<Rightarrow> cstr option" where
  "copy_key s = (if length s < KEY_SIZE then Some s else None)"

definition config_register_parser :: "(cstr \<Rightarrow> cstr) \<Rightarrow> cstr \<Rightarrow> 'v ConfigParser \<Rightarrow> 'v ConfigCenter
    \<Rightarrow> 'v ConfigCenter option" where
  "config_register_parser stale section parser c = do {
     sec \<leftarrow> copy_key section;
     (r, m) \<leftarrow> hash_map_put (with_keys stale (config_parsers c)) sec parser;
     Some (c\<lparr>config_parsers := with_keys (\<lambda>k. k) m\<rparr>) }"

definition config_register_cleaner :: "(cstr \<Rightarrow> cstr) \<Rightarrow> cstr \<Rightarrow> 'v ConfigCleaner \<Rightarrow> 'v ConfigCenter
    \<Rightarrow> 'v ConfigCenter option" where
  "config_register_cleaner stale section cleaner c = do {
     sec \<leftarrow> copy_key section;
     (r, m) \<leftarrow> hash_map_put (with_keys stale (config_cleaners c)) sec cleaner;
     Some (c\<lparr>config_cleaners := with_keys (\<lambda>k. k) m\<rparr>) }"

definition create_section :: "ConfigSection option" where
  "create_section = do {
     m \<leftarrow> hash_map_create (Some hash_func_str) (Some key_compare);
     Some \<lparr>section_entries = m\<rparr> }"

definition config_init :: "(int \<times> 'v ConfigCenter) option" where
  "config_init = do {
     ps \<leftarrow> hash_map_create (Some hash_func_str) (Some key_compare);
     cs \<leftarrow> hash_map_create (Some hash_func_str) (Some key_compare);
     ss \<leftarrow> hash_map_create (Some hash_func_str) (Some key_compare);
     Some (if ss \<noteq> None \<and> ps \<noteq> None \<and> cs \<noteq> None then 0 else 1,
       \<lparr>configs_sections = ss, config_parsers = ps, config_cleaners = cs, sec_mem = Map.empty,
        val_mem = Map.empty, next_addr = 0, cleaned = []\<rparr>) }"

section \<open>Reading and writing values\<close>

text \<open>\<open>tmp\<close> is what the uninitialised result of a parser holds that stores nothing.\<close>

definition config_get :: "(cstr \<Rightarrow> cstr) \<Rightarrow> 'v T \<Rightarrow> cstr \<Rightarrow> cstr \<Rightarrow> 'v ConfigCenter
    \<Rightarrow> (int \<times> 'v T option \<times> 'v ConfigCenter) option" where
  "config_get stale tmp section key c = do {
     k \<leftarrow> copy_key key;
     sk \<leftarrow> copy_key section;
     (r1, sec) \<leftarrow> hash_map_get (configs_sections c) sk;
     if r1 \<noteq> 0 then Some (1, None, c)
     else do {
       s \<leftarrow> sec;
       se \<leftarrow> sec_mem c s;
       (r2, ent) \<leftarrow> hash_map_get (section_entries se) k;
       if r2 \<noteq> 0 then Some (1, None, c)
       else do {
         a \<leftarrow> ent;
         entry \<leftarrow> val_mem c a;
         if is_cook entry then Some (0, Some (cfg_value entry), c)
         else do {
           (r3, found) \<leftarrow> hash_map_get (with_keys stale (config_parsers c)) sk;
           if r3 \<noteq> 0 then Some (0, Some (cfg_value entry), c)
           else do {
             parser \<leftarrow> found;
             raw \<leftarrow> (case cfg_value entry of Text t \<Rightarrow> Some t | Object v \<Rightarrow> None);
             (failed, res) \<leftarrow> parser k raw;
             if failed = 0
             then (let v = (case res of None \<Rightarrow> tmp | Some x \<Rightarrow> x) in
               Some (0, Some v, c\<lparr>val_mem := (val_mem c)(a \<mapsto> \<lparr>is_cook = True, cfg_value = v\<rparr>)\<rparr>))
             else Some (-1, None, c) } } } } }"

text \<open>The section of a name, created when there is none, as at the start of both writers.\<close>

definition section_for :: "cstr \<Rightarrow> 'v ConfigCenter \<Rightarrow> (addr \<times> 'v ConfigCenter) option" where
  "section_for section c = do {
     (r, sec) \<leftarrow> hash_map_get (configs_sections c) section;
     if r \<noteq> 0
     then do {
       se \<leftarrow> create_section;
       let s = next_addr c;
       (r1, t) \<leftarrow> hash_map_put (configs_sections c) section s;
       Some (s, c\<lparr>configs_sections := t, sec_mem := (sec_mem c)(s \<mapsto> se), next_addr := s + 1\<rparr>) }
     else do {
       s \<leftarrow> sec;
       Some (s, c) } }"

text \<open>What the writers do with the value they replace: a text is freed, a parsed value cleaned.\<close>

definition clear_value :: "(cstr \<Rightarrow> cstr) \<Rightarrow> cstr \<Rightarrow> cstr \<Rightarrow> addr \<Rightarrow> 'v ConfigCenter \<Rightarrow> 'v ConfigCenter option" where
  "clear_value stale section key a c = do {
     old \<leftarrow> val_mem c a;
     if is_cook old
     then do {
       (r, found) \<leftarrow> hash_map_get (with_keys stale (config_cleaners c)) section;
       if r \<noteq> 0 then Some c
       else do {
         cleaner \<leftarrow> found;
         gone \<leftarrow> cleaner key (cfg_value old);
         Some (c\<lparr>cleaned := cleaned c @ gone\<rparr>) } }
     else Some c }"

text \<open>The common body of the two writers, which differ in the mark and the value they store.\<close>

definition config_store :: "(cstr \<Rightarrow> cstr) \<Rightarrow> cstr \<Rightarrow> cstr \<Rightarrow> 'v ConfigValue \<Rightarrow> 'v ConfigCenter
    \<Rightarrow> (int \<times> 'v ConfigCenter) option" where
  "config_store stale section key x c = do {
     (s, c1) \<leftarrow> section_for section c;
     se \<leftarrow> sec_mem c1 s;
     (r, old) \<leftarrow> hash_map_get (section_entries se) key;
     (a, c2) \<leftarrow> (if r = 0 then do { a \<leftarrow> old; c2 \<leftarrow> clear_value stale section key a c1; Some (a, c2) }
                 else Some (next_addr c1, c1\<lparr>next_addr := next_addr c1 + 1\<rparr>));
     let c3 = c2\<lparr>val_mem := (val_mem c2)(a \<mapsto> x)\<rparr>;
     (r1, t) \<leftarrow> hash_map_put (section_entries se) key a;
     Some (0, c3\<lparr>sec_mem := (sec_mem c3)(s \<mapsto> se\<lparr>section_entries := t\<rparr>)\<rparr>) }"

definition config_set :: "(cstr \<Rightarrow> cstr) \<Rightarrow> cstr \<Rightarrow> cstr \<Rightarrow> 'v T \<Rightarrow> 'v ConfigCenter \<Rightarrow> (int \<times> 'v ConfigCenter) option" where
  "config_set stale section key v c = config_store stale section key \<lparr>is_cook = True, cfg_value = v\<rparr> c"

definition config_inject :: "(cstr \<Rightarrow> cstr) \<Rightarrow> cstr \<Rightarrow> cstr \<Rightarrow> cstr \<Rightarrow> 'v ConfigCenter \<Rightarrow> (int \<times> 'v ConfigCenter) option" where
  "config_inject stale section key v c = config_store stale section key \<lparr>is_cook = False, cfg_value = Text v\<rparr> c"

section \<open>Reading a file\<close>

definition LINE_SIZE :: nat where "LINE_SIZE = 256"

text \<open>
  A pointer into the line buffer is the rest of the buffer from there on. \<open>scan go nc\<close>
  advances while \<open>go\<close> holds: the bytes passed over, and where it stops. No result when it
  leaves the buffer.
\<close>

definition scan :: "(byte \<Rightarrow> bool) \<Rightarrow> byte list \<Rightarrow> (byte list \<times> byte list) option" where
  "scan go nc = (case dropWhile go nc of [] \<Rightarrow> None | b # rest \<Rightarrow> Some (takeWhile go nc, b # rest))"

definition OPEN :: byte where "OPEN = 91"
definition CLOSE :: byte where "CLOSE = 93"

text \<open>
  The body of the loop: whether it breaks, the current section, the state. Copies beyond the
  64 bytes of a name or the 128 of a value have no result.
\<close>

definition config_line :: "(cstr \<Rightarrow> cstr) \<Rightarrow> byte list \<Rightarrow> cstr \<Rightarrow> 'v ConfigCenter
    \<Rightarrow> (bool \<times> cstr \<times> 'v ConfigCenter) option" where
  "config_line stale line section c = do {
     (blank, nc) \<leftarrow> scan isspace line;
     if hd nc = HASH then Some (False, section, c)
     else if hd nc = OPEN then do {
       (blank1, nc1) \<leftarrow> scan isspace (tl nc);
       (token, stop) \<leftarrow> scan (\<lambda>b. b \<noteq> CLOSE \<and> \<not> isspace b) nc1;
       if hd stop = 0 then Some (True, section, c)
       else if length token < KEY_SIZE then Some (False, c_string token, c)
       else None }
     else do {
       (key, stop) \<leftarrow> scan (\<lambda>b. b \<noteq> EQUALS \<and> \<not> isspace b) nc;
       if hd stop = 0 then Some (True, section, c)
       else if length key < KEY_SIZE then do {
         (val, stop1) \<leftarrow> scan (\<lambda>b. \<not> isspace b \<and> b \<noteq> 0) (tl stop);
         if val = [] then Some (True, section, c)
         else if length val < VALUE_STR_SIZE then do {
           (r, c1) \<leftarrow> config_inject stale section (c_string key) (c_string val) c;
           Some (False, section, c1) }
         else None }
       else None } }"

function load_lines :: "(cstr \<Rightarrow> cstr) \<Rightarrow> byte list \<Rightarrow> cstr \<Rightarrow> byte list \<Rightarrow> 'v ConfigCenter \<Rightarrow> 'v ConfigCenter option" where
  "load_lines stale line section file c =
     (case fgets LINE_SIZE line file of
        None \<Rightarrow> Some c
      | Some (line1, rest) \<Rightarrow> do {
          (stop, section1, c1) \<leftarrow> config_line stale line1 section c;
          if stop then Some c1 else load_lines stale line1 section1 rest c1 })"
  by pat_completeness auto

termination load_lines
  by (relation "measure (\<lambda>(stale, line, section, file, c). length file)") (auto dest: fgets_shorter simp: LINE_SIZE_def)

declare load_lines.simps [simp del]

text \<open>\<open>file\<close> is what \<open>fopen\<close> gives, \<open>line\<close> what the line buffer holds before it is written.\<close>

definition config_load_file :: "(cstr \<Rightarrow> cstr) \<Rightarrow> byte list \<Rightarrow> byte list option \<Rightarrow> 'v ConfigCenter
    \<Rightarrow> (int \<times> 'v ConfigCenter) option" where
  "config_load_file stale line file c =
     (case file of
        None \<Rightarrow> Some (-1, c)
      | Some bytes \<Rightarrow> do { c1 \<leftarrow> load_lines stale line [] bytes c; Some (0, c1) })"

section \<open>What clients see\<close>

definition cfg_addr :: "'v ConfigCenter \<Rightarrow> cstr \<Rightarrow> cstr \<Rightarrow> addr option" where
  "cfg_addr c s k = (case hm_map (configs_sections c) s of None \<Rightarrow> None | Some sa \<Rightarrow>
     (case sec_mem c sa of None \<Rightarrow> None | Some se \<Rightarrow> hm_map (section_entries se) k))"

definition cfg_view :: "'v ConfigCenter \<Rightarrow> cstr \<Rightarrow> cstr \<Rightarrow> 'v ConfigValue option" where
  "cfg_view c s k = (case cfg_addr c s k of None \<Rightarrow> None | Some a \<Rightarrow> val_mem c a)"

text \<open>The view after one value is written.\<close>

definition set_entry :: "cstr \<Rightarrow> cstr \<Rightarrow> 'v ConfigValue \<Rightarrow> (cstr \<Rightarrow> cstr \<Rightarrow> 'v ConfigValue option)
    \<Rightarrow> cstr \<Rightarrow> cstr \<Rightarrow> 'v ConfigValue option" where
  "set_entry s k x v = v(s := (v s)(k \<mapsto> x))"

definition registry :: "(cstr, 'w) HashMap option \<Rightarrow> bool" where
  "registry p \<longleftrightarrow> hm_inv p \<and> with_keys (\<lambda>k. k) p = p"

text \<open>Every section and every entry has an address of its own, in use.\<close>

definition cfg_inv :: "'v ConfigCenter \<Rightarrow> bool" where
  "cfg_inv c \<longleftrightarrow> hm_inv (configs_sections c) \<and> registry (config_parsers c) \<and> registry (config_cleaners c) \<and>
     (\<forall>s sa. hm_map (configs_sections c) s = Some sa \<longrightarrow>
        sa < next_addr c \<and> (\<exists>se. sec_mem c sa = Some se \<and> hm_inv (section_entries se))) \<and>
     (\<forall>s s' sa. hm_map (configs_sections c) s = Some sa \<longrightarrow> hm_map (configs_sections c) s' = Some sa \<longrightarrow> s = s') \<and>
     (\<forall>s k a. cfg_addr c s k = Some a \<longrightarrow> a < next_addr c \<and> a \<in> dom (val_mem c)) \<and>
     (\<forall>s k s' k' a. cfg_addr c s k = Some a \<longrightarrow> cfg_addr c s' k' = Some a \<longrightarrow> s = s' \<and> k = k')"

lemma cfg_invD:
  assumes "cfg_inv c"
  shows "hm_inv (configs_sections c)" "registry (config_parsers c)" "registry (config_cleaners c)"
    "hm_map (configs_sections c) s = Some sa \<Longrightarrow>
       sa < next_addr c \<and> (\<exists>se. sec_mem c sa = Some se \<and> hm_inv (section_entries se))"
    "hm_map (configs_sections c) s = Some sa \<Longrightarrow> hm_map (configs_sections c) s' = Some sa \<Longrightarrow> s = s'"
    "cfg_addr c s k = Some a \<Longrightarrow> a < next_addr c \<and> a \<in> dom (val_mem c)"
    "cfg_addr c s k = Some a \<Longrightarrow> cfg_addr c s' k' = Some a \<Longrightarrow> s = s' \<and> k = k'"
  using assms unfolding cfg_inv_def by blast+

lemma cfg_invI:
  assumes "hm_inv (configs_sections c)" "registry (config_parsers c)" "registry (config_cleaners c)"
    "\<And>s sa. hm_map (configs_sections c) s = Some sa \<Longrightarrow>
       sa < next_addr c \<and> (\<exists>se. sec_mem c sa = Some se \<and> hm_inv (section_entries se))"
    "\<And>s s' sa. hm_map (configs_sections c) s = Some sa \<Longrightarrow> hm_map (configs_sections c) s' = Some sa \<Longrightarrow> s = s'"
    "\<And>s k a. cfg_addr c s k = Some a \<Longrightarrow> a < next_addr c \<and> a \<in> dom (val_mem c)"
    "\<And>s k s' k' a. cfg_addr c s k = Some a \<Longrightarrow> cfg_addr c s' k' = Some a \<Longrightarrow> s = s' \<and> k = k'"
  shows "cfg_inv c"
  using assms unfolding cfg_inv_def by blast

section \<open>Registries and sections\<close>

lemma key_compare_zero: "key_compare a b = 0 \<longleftrightarrow> a = b"
  by (simp add: key_compare_def compare_cstr_zero strcmp_zero)

lemma with_keys_map [simp]: "hm_map (with_keys f p) = hm_map p"
  by (cases p) (simp_all add: with_keys_def hm_alist_def)

lemma with_keys_inv: "hm_inv p \<Longrightarrow> hm_inv (with_keys (\<lambda>k. k) p)"
  by (auto simp: hm_inv_def hm_rep_def with_keys_def hm_alist_def key_compare_zero split: option.splits)

lemma with_keys_again [simp]: "with_keys f (with_keys g p) = with_keys f p"
  by (cases p) (simp_all add: with_keys_def)

lemma registry_get:
  "registry p \<Longrightarrow> hash_map_get (with_keys (\<lambda>k. k) p) s =
     Some (case hm_map p s of None \<Rightarrow> (1, None) | Some f \<Rightarrow> (0, Some f))"
  by (simp add: registry_def hmap.get_law del: hm_map.simps hash_map_get.simps)

lemma registry_put:
  assumes "registry p"
  shows "\<exists>r q. hash_map_put (with_keys (\<lambda>k. k) p) s f = Some (r, q) \<and>
    registry (with_keys (\<lambda>k. k) q) \<and> hm_map q = (hm_map p)(s \<mapsto> f)"
proof -
  obtain r q where "hash_map_put p s f = Some (r, q)" "hm_inv q" "hm_map q = (hm_map p)(s \<mapsto> f)"
    using hmap.put_law[of p s f] assms by (auto simp: registry_def simp del: hm_map.simps hash_map_put.simps)
  then show ?thesis using assms by (auto simp: registry_def with_keys_inv simp del: hm_map.simps hash_map_put.simps)
qed

lemma fresh_map:
  "\<exists>m :: (cstr, 'w) HashMap option. hash_map_create (Some hash_func_str) (Some key_compare) = Some m \<and>
     m \<noteq> None \<and> hm_inv m \<and> hm_map m = Map.empty \<and> registry m"
proof -
  obtain m :: "(cstr, 'w) HashMap" where
    m: "hash_map_create (Some hash_func_str) (Some key_compare) = Some (Some m)" "hm_rep m" "hm_map (Some m) = Map.empty"
    using create_hm_rep[of key_compare hash_func_str] key_compare_zero by blast
  have "comparator m = key_compare" using m(1) by (auto simp: hash_map_create_def split: Option.bind_splits)
  then have "registry (Some m)" using m(2) by (simp add: registry_def hm_inv_def with_keys_def)
  with m show ?thesis by (intro exI[of _ "Some m"]) (simp add: hm_inv_def del: hm_map.simps)
qed

lemma init_ok:
  "\<exists>c :: 'v ConfigCenter. config_init = Some (0, c) \<and> cfg_inv c \<and> cfg_view c = (\<lambda>s k. None) \<and>
     hm_map (config_parsers c) = Map.empty \<and> hm_map (config_cleaners c) = Map.empty \<and> cleaned c = []"
proof -
  obtain p :: "(cstr, 'v ConfigParser) HashMap option" where
    p: "hash_map_create (Some hash_func_str) (Some key_compare) = Some p" "p \<noteq> None" "registry p" "hm_map p = Map.empty"
    using fresh_map by blast
  obtain q :: "(cstr, 'v ConfigCleaner) HashMap option" where
    q: "hash_map_create (Some hash_func_str) (Some key_compare) = Some q" "q \<noteq> None" "registry q" "hm_map q = Map.empty"
    using fresh_map by blast
  obtain m :: "(cstr, addr) HashMap option" where
    m: "hash_map_create (Some hash_func_str) (Some key_compare) = Some m" "m \<noteq> None" "hm_inv m" "hm_map m = Map.empty"
    using fresh_map by blast
  let ?c = "\<lparr>configs_sections = m, config_parsers = p, config_cleaners = q, sec_mem = Map.empty,
        val_mem = Map.empty, next_addr = 0, cleaned = []\<rparr> :: 'v ConfigCenter"
  have e: "cfg_addr ?c s k = None" for s k by (simp add: cfg_addr_def m del: hm_map.simps)
  have "cfg_inv ?c" by (rule cfg_invI) (simp_all add: e m p q del: hm_map.simps)
  moreover have "config_init = Some (0, ?c)" by (simp add: config_init_def m p q)
  ultimately show ?thesis using p q
    by (intro exI[of _ ?c]) (simp add: e cfg_view_def fun_eq_iff del: hm_map.simps)
qed

section \<open>Storing a value\<close>

text \<open>The address of every section stays what it is, and a missing one gets a fresh, empty section.\<close>

lemma section_for_ok:
  assumes inv: "cfg_inv c"
  shows "\<exists>sa c' se. section_for s c = Some (sa, c') \<and> cfg_inv c' \<and> cfg_addr c' = cfg_addr c \<and>
    val_mem c' = val_mem c \<and> hm_map (configs_sections c') s = Some sa \<and> sec_mem c' sa = Some se \<and>
    hm_inv (section_entries se) \<and> hm_map (section_entries se) = cfg_addr c s \<and>
    config_parsers c' = config_parsers c \<and> config_cleaners c' = config_cleaners c \<and> cleaned c' = cleaned c"
proof (cases "hm_map (configs_sections c) s")
  case (Some sa)
  moreover from this obtain se where "sec_mem c sa = Some se" "hm_inv (section_entries se)"
    using cfg_invD(4)[OF inv] by blast
  moreover have "hash_map_get (configs_sections c) s = Some (0, Some sa)"
    using hmap.get_law[OF cfg_invD(1)[OF inv], of s] Some by simp
  ultimately show ?thesis using inv
    by (intro exI[of _ sa] exI[of _ c] exI[of _ se]) (auto simp: section_for_def cfg_addr_def fun_eq_iff
      simp del: hash_map_get.simps hm_map.simps)
next
  case None
  let ?a = "next_addr c"
  obtain m :: "(cstr, addr) HashMap option" where
    m: "hash_map_create (Some hash_func_str) (Some key_compare) = Some m" "hm_inv m" "hm_map m = Map.empty"
    using fresh_map by blast
  obtain t where t: "hash_map_put (configs_sections c) s ?a = Some (0, t)" "hm_inv t"
    "hm_map t = (hm_map (configs_sections c))(s \<mapsto> ?a)"
    using hmap.put_law[OF cfg_invD(1)[OF inv], of s ?a] None by auto
  let ?c = "c\<lparr>configs_sections := t, sec_mem := (sec_mem c)(?a \<mapsto> \<lparr>section_entries = m\<rparr>), next_addr := ?a + 1\<rparr>"
  have old: "hm_map (configs_sections c) s' \<noteq> Some ?a" for s'
    using cfg_invD(4)[OF inv, of s' ?a] by auto
  have addr: "cfg_addr ?c = cfg_addr c"
    using old None by (auto simp: cfg_addr_def t m fun_eq_iff simp del: hm_map.simps cong: option.case_cong split: option.split)
  have "cfg_inv ?c"
  proof (rule cfg_invI)
    show "sa < next_addr ?c \<and> (\<exists>se. sec_mem ?c sa = Some se \<and> hm_inv (section_entries se))"
      if "hm_map (configs_sections ?c) s' = Some sa" for s' sa
      using that cfg_invD(4)[OF inv, of s' sa] m
      by (auto simp: t simp del: hm_map.simps split: if_splits)
    show "s1 = s2" if "hm_map (configs_sections ?c) s1 = Some sa" "hm_map (configs_sections ?c) s2 = Some sa" for s1 s2 sa
      using that cfg_invD(5)[OF inv] old by (auto simp: t simp del: hm_map.simps split: if_splits)
    show "a < next_addr ?c \<and> a \<in> dom (val_mem ?c)" if "cfg_addr ?c s' k = Some a" for s' k a
      using that cfg_invD(6)[OF inv] unfolding addr by fastforce
    show "s1 = s2 \<and> k1 = k2" if "cfg_addr ?c s1 k1 = Some a" "cfg_addr ?c s2 k2 = Some a" for s1 s2 k1 k2 a
      using that cfg_invD(7)[OF inv] unfolding addr by blast
  qed (use inv t in \<open>simp_all add: cfg_inv_def del: hm_map.simps\<close>)
  moreover have "section_for s c = Some (?a, ?c)"
    using hmap.get_law[OF cfg_invD(1)[OF inv], of s] None t(1) m(1)
    by (simp add: section_for_def create_section_def Let_def del: hash_map_get.simps hash_map_put.simps)
  moreover have "cfg_addr c s = Map.empty" using None by (simp add: cfg_addr_def fun_eq_iff)
  ultimately show ?thesis using addr t m
    by (intro exI[of _ ?a] exI[of _ ?c] exI[of _ "\<lparr>section_entries = m\<rparr>"]) (simp del: hm_map.simps)
qed

text \<open>An entry is written under an address that no other entry has.\<close>

lemma write_entry:
  fixes x :: "'v ConfigValue" and c :: "'v ConfigCenter"
  assumes inv: "cfg_inv c" and s: "hm_map (configs_sections c) s = Some sa" and se: "sec_mem c sa = Some se"
    and t: "hash_map_put (section_entries se) k a = Some (r, t)" "hm_inv t" "hm_map t = (hm_map (section_entries se))(k \<mapsto> a)"
    and a: "\<forall>s' k'. cfg_addr c s' k' = Some a \<longrightarrow> s' = s \<and> k' = k" "a < next_addr c"
  defines "c' \<equiv> c\<lparr>val_mem := (val_mem c)(a \<mapsto> x), sec_mem := (sec_mem c)(sa \<mapsto> se\<lparr>section_entries := t\<rparr>)\<rparr>"
  shows "cfg_inv c' \<and> cfg_view c' = set_entry s k x (cfg_view c)"
proof -
  have other: "s' = s" if "hm_map (configs_sections c) s' = Some sa" for s'
    using cfg_invD(5)[OF inv that s] .
  have addr: "cfg_addr c' s' k' = (if s' = s \<and> k' = k then Some a else cfg_addr c s' k')" for s' k'
  proof (cases "s' = s")
    case True
    then show ?thesis using s se by (simp add: cfg_addr_def c'_def t del: hm_map.simps)
  next
    case False
    then have "hm_map (configs_sections c) s' \<noteq> Some sa" using other by blast
    with False show ?thesis by (auto simp: cfg_addr_def c'_def simp del: hm_map.simps split: option.split)
  qed
  have at: "s' = s \<and> k' = k" if "cfg_addr c' s' k' = Some a" for s' k'
    using that a(1) unfolding addr by (cases "s' = s \<and> k' = k") simp_all
  have "cfg_inv c'"
  proof (rule cfg_invI)
    show "sa' < next_addr c' \<and> (\<exists>se. sec_mem c' sa' = Some se \<and> hm_inv (section_entries se))"
      if "hm_map (configs_sections c') s' = Some sa'" for s' sa'
      using that cfg_invD(4)[OF inv, of s' sa'] t(2) by (auto simp: c'_def simp del: hm_map.simps)
    show "s1 = s2" if "hm_map (configs_sections c') s1 = Some b" "hm_map (configs_sections c') s2 = Some b" for s1 s2 b
      using that cfg_invD(5)[OF inv] by (simp add: c'_def del: hm_map.simps)
    show "b < next_addr c' \<and> b \<in> dom (val_mem c')" if "cfg_addr c' s' k' = Some b" for s' k' b
      using that cfg_invD(6)[OF inv, of s' k' b] a(2) unfolding addr by (cases "b = a") (auto simp: c'_def split: if_splits)
    show "s1 = s2 \<and> k1 = k2" if "cfg_addr c' s1 k1 = Some b" "cfg_addr c' s2 k2 = Some b" for s1 s2 k1 k2 b
    proof (cases "b = a")
      case True
      then show ?thesis using at that by blast
    next
      case False
      then have "cfg_addr c s1 k1 = Some b" "cfg_addr c s2 k2 = Some b"
        using that unfolding addr by (simp_all split: if_splits)
      then show ?thesis by (rule cfg_invD(7)[OF inv])
    qed
  qed (use inv in \<open>simp_all add: cfg_inv_def c'_def del: hm_map.simps\<close>)
  moreover have "cfg_view c' s' k' = set_entry s k x (cfg_view c) s' k'" for s' k'
  proof (cases "cfg_addr c s' k' = Some a")
    case True
    with a(1) have "s' = s \<and> k' = k" by blast
    then show ?thesis unfolding cfg_view_def addr set_entry_def by (simp add: c'_def)
  next
    case False
    then show ?thesis unfolding cfg_view_def addr set_entry_def by (auto simp: c'_def split: option.splits)
  qed
  ultimately show ?thesis by blast
qed

text \<open>The cleaner of a section, if there is one, has a result on the value to be replaced.\<close>

definition cleanable :: "cstr \<Rightarrow> cstr \<Rightarrow> 'v ConfigCenter \<Rightarrow> bool" where
  "cleanable s k c \<longleftrightarrow> (case cfg_view c s k of None \<Rightarrow> True | Some x \<Rightarrow>
     is_cook x \<longrightarrow> (case hm_map (config_cleaners c) s of None \<Rightarrow> True | Some f \<Rightarrow> f k (cfg_value x) \<noteq> None))"

definition cleaned_by_store :: "cstr \<Rightarrow> cstr \<Rightarrow> 'v ConfigCenter \<Rightarrow> 'v list" where
  "cleaned_by_store s k c = (case cfg_view c s k of None \<Rightarrow> [] | Some x \<Rightarrow>
     if is_cook x then (case hm_map (config_cleaners c) s of None \<Rightarrow> [] | Some f \<Rightarrow> the (f k (cfg_value x))) else [])"

lemma clear_value_ok:
  assumes inv: "cfg_inv c" and a: "cfg_addr c s k = Some a" and ok: "cleanable s k c"
  shows "clear_value (\<lambda>k. k) s k a c = Some (c\<lparr>cleaned := cleaned c @ cleaned_by_store s k c\<rparr>)"
proof -
  obtain x where x: "val_mem c a = Some x" using cfg_invD(6)[OF inv a] by blast
  then have v: "cfg_view c s k = Some x" by (simp add: cfg_view_def a)
  have g: "hash_map_get (with_keys (\<lambda>k. k) (config_cleaners c)) s =
      Some (case hm_map (config_cleaners c) s of None \<Rightarrow> (1, None) | Some f \<Rightarrow> (0, Some f))"
    by (rule registry_get[OF cfg_invD(3)[OF inv]])
  show ?thesis using ok
    by (auto simp: clear_value_def x g cleanable_def cleaned_by_store_def v
      simp del: hm_map.simps hash_map_get.simps split: option.splits)
qed

lemma cfg_inv_grow:
  assumes inv: "cfg_inv c" and n: "next_addr c \<le> n"
  shows "cfg_inv (c\<lparr>next_addr := n\<rparr>)" "cfg_inv (c\<lparr>cleaned := g\<rparr>)"
proof -
  have a: "cfg_addr (c\<lparr>next_addr := n\<rparr>) = cfg_addr c" "cfg_addr (c\<lparr>cleaned := g\<rparr>) = cfg_addr c"
    by (simp_all add: cfg_addr_def fun_eq_iff del: hm_map.simps cong: option.case_cong)
  show "cfg_inv (c\<lparr>cleaned := g\<rparr>)" using inv by (simp add: cfg_inv_def a del: hm_map.simps)
  show "cfg_inv (c\<lparr>next_addr := n\<rparr>)"
  proof (rule cfg_invI, unfold a)
    show "sa < next_addr (c\<lparr>next_addr := n\<rparr>) \<and>
        (\<exists>se. sec_mem (c\<lparr>next_addr := n\<rparr>) sa = Some se \<and> hm_inv (section_entries se))"
      if "hm_map (configs_sections (c\<lparr>next_addr := n\<rparr>)) s = Some sa" for s sa
      using cfg_invD(4)[OF inv, of s sa] that n by simp
    show "b < next_addr (c\<lparr>next_addr := n\<rparr>) \<and> b \<in> dom (val_mem (c\<lparr>next_addr := n\<rparr>))"
      if "cfg_addr c s k = Some b" for s k b
      using cfg_invD(6)[OF inv that] n by simp
    show "s1 = s2" if "hm_map (configs_sections (c\<lparr>next_addr := n\<rparr>)) s1 = Some b"
      "hm_map (configs_sections (c\<lparr>next_addr := n\<rparr>)) s2 = Some b" for s1 s2 b
      using cfg_invD(5)[OF inv, of s1 b s2] that by simp
    show "s1 = s2 \<and> k1 = k2" if "cfg_addr c s1 k1 = Some b" "cfg_addr c s2 k2 = Some b" for s1 k1 s2 k2 b
      by (rule cfg_invD(7)[OF inv that])
  qed (use cfg_invD(1-3)[OF inv] in simp_all)
qed

lemma store_ok:
  assumes inv: "cfg_inv c" and ok: "cleanable s k c"
  shows "\<exists>c'. config_store (\<lambda>k. k) s k x c = Some (0, c') \<and> cfg_inv c' \<and>
    cfg_view c' = set_entry s k x (cfg_view c) \<and> config_parsers c' = config_parsers c \<and>
    config_cleaners c' = config_cleaners c \<and> cleaned c' = cleaned c @ cleaned_by_store s k c"
proof -
  obtain sa c1 se where f: "section_for s c = Some (sa, c1)" "cfg_inv c1" "cfg_addr c1 = cfg_addr c"
    "val_mem c1 = val_mem c" "hm_map (configs_sections c1) s = Some sa" "sec_mem c1 sa = Some se"
    "hm_inv (section_entries se)" "hm_map (section_entries se) = cfg_addr c s"
    "config_parsers c1 = config_parsers c" "config_cleaners c1 = config_cleaners c" "cleaned c1 = cleaned c"
    using section_for_ok[OF inv] by metis
  have v1: "cfg_view c1 = cfg_view c" by (simp add: cfg_view_def f fun_eq_iff cong: option.case_cong)
  have same: "cleanable s k c1 = cleanable s k c" "cleaned_by_store s k c1 = cleaned_by_store s k c"
    unfolding cleanable_def cleaned_by_store_def v1 f(10) by simp_all
  have g: "hash_map_get (section_entries se) k =
      Some (case cfg_addr c s k of None \<Rightarrow> (1, None) | Some a \<Rightarrow> (0, Some a))"
    unfolding f(8)[symmetric] by (rule hmap.get_law[OF f(7)])
  define step where "step = (if fst (case cfg_addr c s k of None \<Rightarrow> (1 :: int, None) | Some a \<Rightarrow> (0, Some a)) = 0
      then do { a \<leftarrow> cfg_addr c s k; c2 \<leftarrow> clear_value (\<lambda>k. k) s k a c1; Some (a, c2) }
      else Some (next_addr c1, c1\<lparr>next_addr := next_addr c1 + 1\<rparr>))"
  have "\<exists>a c2. step = Some (a, c2) \<and> cfg_inv c2 \<and> a < next_addr c2 \<and> cfg_addr c2 = cfg_addr c \<and>
      val_mem c2 = val_mem c \<and> (\<forall>s' k'. cfg_addr c s' k' = Some a \<longrightarrow> s' = s \<and> k' = k) \<and>
      configs_sections c2 = configs_sections c1 \<and> sec_mem c2 = sec_mem c1 \<and> config_parsers c2 = config_parsers c \<and>
      config_cleaners c2 = config_cleaners c \<and> cleaned c2 = cleaned c @ cleaned_by_store s k c"
  proof (cases "cfg_addr c s k")
    case None
    then have "cleaned_by_store s k c = []" by (simp add: cleaned_by_store_def cfg_view_def)
    moreover have "cfg_addr c s' k' \<noteq> Some (next_addr c1)" for s' k'
      using cfg_invD(6)[OF f(2)] unfolding f(3) by blast
    moreover have "cfg_addr (c1\<lparr>next_addr := Suc (next_addr c1)\<rparr>) = cfg_addr c"
      unfolding f(3)[symmetric] by (simp add: cfg_addr_def fun_eq_iff del: hm_map.simps cong: option.case_cong)
    ultimately show ?thesis using None f cfg_inv_grow(1)[OF f(2), of "Suc (next_addr c1)"] by (simp add: step_def)
  next
    case (Some a)
    have "clear_value (\<lambda>k. k) s k a c1 = Some (c1\<lparr>cleaned := cleaned c @ cleaned_by_store s k c\<rparr>)"
      using clear_value_ok[OF f(2), of s k a] Some ok by (simp add: f(3) f(11) same)
    moreover have "cfg_addr (c1\<lparr>cleaned := g\<rparr>) = cfg_addr c" for g
      unfolding f(3)[symmetric] by (simp add: cfg_addr_def fun_eq_iff del: hm_map.simps cong: option.case_cong)
    moreover have "s' = s \<and> k' = k" if "cfg_addr c s' k' = Some a" for s' k'
      using cfg_invD(7)[OF inv that Some] .
    moreover have "cfg_inv (c1\<lparr>cleaned := cleaned c @ cleaned_by_store s k c\<rparr>)"
      using cfg_inv_grow(2)[OF f(2), of "next_addr c1"] by simp
    moreover have "a < next_addr c1" using cfg_invD(6)[OF f(2), of s k a] Some f(3) by simp
    ultimately show ?thesis using f
      by (intro exI[of _ a] exI[of _ "c1\<lparr>cleaned := cleaned c @ cleaned_by_store s k c\<rparr>"]) (simp add: step_def Some)
  qed
  then obtain a c2 where c2: "step = Some (a, c2)" "cfg_inv c2" "a < next_addr c2" "cfg_addr c2 = cfg_addr c"
    "val_mem c2 = val_mem c" "\<forall>s' k'. cfg_addr c s' k' = Some a \<longrightarrow> s' = s \<and> k' = k"
    "configs_sections c2 = configs_sections c1" "sec_mem c2 = sec_mem c1" "config_parsers c2 = config_parsers c"
    "config_cleaners c2 = config_cleaners c" "cleaned c2 = cleaned c @ cleaned_by_store s k c" by blast
  obtain r t where t: "hash_map_put (section_entries se) k a = Some (r, t)" "hm_inv t"
    "hm_map t = (hm_map (section_entries se))(k \<mapsto> a)" using hmap.put_law[OF f(7)] by blast
  let ?c = "c2\<lparr>val_mem := (val_mem c2)(a \<mapsto> x), sec_mem := (sec_mem c2)(sa \<mapsto> se\<lparr>section_entries := t\<rparr>)\<rparr>"
  have "cfg_inv ?c \<and> cfg_view ?c = set_entry s k x (cfg_view c2)"
    by (rule write_entry[OF c2(2) _ _ t]) (use f(5,6) c2 in simp_all)
  moreover have "cfg_view c2 = cfg_view c" by (simp add: cfg_view_def c2 fun_eq_iff cong: option.case_cong)
  moreover have "config_store (\<lambda>k. k) s k x c = Some (0, ?c)"
    using c2(1) f(6) t(1) unfolding step_def
    by (auto simp: config_store_def f(1) g c2(8) simp del: hash_map_get.simps hash_map_put.simps hm_map.simps
      split: option.splits Option.bind_splits)
  ultimately show ?thesis using c2 by (intro exI[of _ ?c]) simp
qed

section \<open>Reading a value\<close>

lemma register_ok:
  assumes inv: "cfg_inv c" and s: "length s < KEY_SIZE"
  shows "\<exists>c'. config_register_parser (\<lambda>k. k) s f c = Some c' \<and> cfg_inv c' \<and> cfg_view c' = cfg_view c \<and>
      hm_map (config_parsers c') = (hm_map (config_parsers c))(s \<mapsto> f) \<and> config_cleaners c' = config_cleaners c"
    and "\<exists>c'. config_register_cleaner (\<lambda>k. k) s g c = Some c' \<and> cfg_inv c' \<and> cfg_view c' = cfg_view c \<and>
      hm_map (config_cleaners c') = (hm_map (config_cleaners c))(s \<mapsto> g) \<and> config_parsers c' = config_parsers c"
proof -
  obtain r q where q: "hash_map_put (with_keys (\<lambda>k. k) (config_parsers c)) s f = Some (r, q)"
    "registry (with_keys (\<lambda>k. k) q)" "hm_map q = (hm_map (config_parsers c))(s \<mapsto> f)"
    using registry_put[OF cfg_invD(2)[OF inv]] by blast
  let ?c = "c\<lparr>config_parsers := with_keys (\<lambda>k. k) q\<rparr>"
  have a: "cfg_addr ?c = cfg_addr c" by (simp add: cfg_addr_def fun_eq_iff del: hm_map.simps cong: option.case_cong)
  then have "cfg_inv ?c" "cfg_view ?c = cfg_view c"
    using inv q(2) by (simp_all add: cfg_inv_def cfg_view_def fun_eq_iff del: hm_map.simps cong: option.case_cong)
  then show "\<exists>c'. config_register_parser (\<lambda>k. k) s f c = Some c' \<and> cfg_inv c' \<and> cfg_view c' = cfg_view c \<and>
      hm_map (config_parsers c') = (hm_map (config_parsers c))(s \<mapsto> f) \<and> config_cleaners c' = config_cleaners c"
    using q s by (intro exI[of _ ?c]) (simp add: config_register_parser_def copy_key_def del: hm_map.simps hash_map_put.simps)
next
  obtain r q where q: "hash_map_put (with_keys (\<lambda>k. k) (config_cleaners c)) s g = Some (r, q)"
    "registry (with_keys (\<lambda>k. k) q)" "hm_map q = (hm_map (config_cleaners c))(s \<mapsto> g)"
    using registry_put[OF cfg_invD(3)[OF inv]] by blast
  let ?c = "c\<lparr>config_cleaners := with_keys (\<lambda>k. k) q\<rparr>"
  have a: "cfg_addr ?c = cfg_addr c" by (simp add: cfg_addr_def fun_eq_iff del: hm_map.simps cong: option.case_cong)
  then have "cfg_inv ?c" "cfg_view ?c = cfg_view c"
    using inv q(2) by (simp_all add: cfg_inv_def cfg_view_def fun_eq_iff del: hm_map.simps cong: option.case_cong)
  then show "\<exists>c'. config_register_cleaner (\<lambda>k. k) s g c = Some c' \<and> cfg_inv c' \<and> cfg_view c' = cfg_view c \<and>
      hm_map (config_cleaners c') = (hm_map (config_cleaners c))(s \<mapsto> g) \<and> config_parsers c' = config_parsers c"
    using q s by (intro exI[of _ ?c]) (simp add: config_register_cleaner_def copy_key_def del: hm_map.simps hash_map_put.simps)
qed

text \<open>
  \<open>get_result c s k x\<close>: what a lookup of the entry \<open>x\<close> gives and what the entry is then. A
  parser that stores nothing leaves \<open>tmp\<close>.
\<close>

fun get_result :: "'v T \<Rightarrow> cstr \<Rightarrow> 'v ConfigParser option \<Rightarrow> 'v ConfigValue
    \<Rightarrow> (int \<times> 'v T option \<times> 'v ConfigValue) option" where
  "get_result tmp k p x =
     (case (is_cook x, p) of
        (False, Some f) \<Rightarrow> (case cfg_value x of
           Object v \<Rightarrow> None
         | Text t \<Rightarrow> (case f k t of
             None \<Rightarrow> None
           | Some (e, res) \<Rightarrow>
               if e = 0 then (let v = (case res of None \<Rightarrow> tmp | Some v \<Rightarrow> v)
                 in Some (0, Some v, \<lparr>is_cook = True, cfg_value = v\<rparr>))
               else Some (-1, None, x)))
      | _ \<Rightarrow> Some (0, Some (cfg_value x), x))"

lemma get_absent:
  assumes inv: "cfg_inv c" and len: "length s < KEY_SIZE" "length k < KEY_SIZE" and v: "cfg_view c s k = None"
  shows "config_get (\<lambda>k. k) tmp s k c = Some (1, None, c)"
proof -
  have a: "cfg_addr c s k = None" using v cfg_invD(6)[OF inv, of s k] by (auto simp: cfg_view_def split: option.splits)
  have g: "hash_map_get (configs_sections c) s =
      Some (case hm_map (configs_sections c) s of None \<Rightarrow> (1, None) | Some a \<Rightarrow> (0, Some a))"
    by (rule hmap.get_law[OF cfg_invD(1)[OF inv]])
  show ?thesis
  proof (cases "hm_map (configs_sections c) s")
    case None
    then show ?thesis using g len
      by (simp add: config_get_def copy_key_def del: hm_map.simps hash_map_get.simps)
  next
    case (Some sa)
    then obtain se where se: "sec_mem c sa = Some se" "hm_inv (section_entries se)" using cfg_invD(4)[OF inv] by blast
    then have "hash_map_get (section_entries se) k = Some (1, None)"
      using hmap.get_law[OF se(2), of k] a Some by (simp add: cfg_addr_def del: hm_map.simps hash_map_get.simps)
    then show ?thesis using g len Some se
      by (simp add: config_get_def copy_key_def del: hm_map.simps hash_map_get.simps)
  qed
qed

lemma cfg_set_value:
  assumes inv: "cfg_inv c" and a: "cfg_addr c s k = Some a"
  shows "cfg_inv (c\<lparr>val_mem := (val_mem c)(a \<mapsto> x)\<rparr>)"
    "cfg_view (c\<lparr>val_mem := (val_mem c)(a \<mapsto> x)\<rparr>) = set_entry s k x (cfg_view c)"
proof -
  let ?c = "c\<lparr>val_mem := (val_mem c)(a \<mapsto> x)\<rparr>"
  have e: "cfg_addr ?c = cfg_addr c" by (simp add: cfg_addr_def fun_eq_iff del: hm_map.simps cong: option.case_cong)
  show "cfg_inv ?c" using inv unfolding cfg_inv_def e by (simp del: hm_map.simps)
  have "cfg_view ?c s' k' = set_entry s k x (cfg_view c) s' k'" for s' k'
  proof (cases "cfg_addr c s' k' = Some a")
    case True
    then have "s' = s \<and> k' = k" using cfg_invD(7)[OF inv] a by blast
    then show ?thesis by (simp add: cfg_view_def e set_entry_def a)
  next
    case False
    then have "\<not> (s' = s \<and> k' = k)" using a by blast
    with False show ?thesis by (auto simp: cfg_view_def e set_entry_def split: option.split)
  qed
  then show "cfg_view ?c = set_entry s k x (cfg_view c)" by blast
qed

lemma get_present:
  assumes inv: "cfg_inv c" and len: "length s < KEY_SIZE" "length k < KEY_SIZE" and v: "cfg_view c s k = Some x"
    and r: "get_result tmp k (hm_map (config_parsers c) s) x = Some (e, out, y)"
  shows "\<exists>c'. config_get (\<lambda>k. k) tmp s k c = Some (e, out, c') \<and> cfg_inv c' \<and>
    cfg_view c' = set_entry s k y (cfg_view c) \<and> config_parsers c' = config_parsers c \<and>
    config_cleaners c' = config_cleaners c"
proof -
  obtain a where a: "cfg_addr c s k = Some a" "val_mem c a = Some x" using v by (auto simp: cfg_view_def split: option.splits)
  then obtain sa se where se: "hm_map (configs_sections c) s = Some sa" "sec_mem c sa = Some se" "hm_map (section_entries se) k = Some a"
    by (auto simp: cfg_addr_def simp del: hm_map.simps split: option.splits)
  have inv': "hm_inv (section_entries se)" using cfg_invD(4)[OF inv se(1)] se(2) by simp
  have g: "hash_map_get (configs_sections c) s = Some (0, Some sa)" "hash_map_get (section_entries se) k = Some (0, Some a)"
    "hash_map_get (with_keys (\<lambda>k. k) (config_parsers c)) s =
       Some (case hm_map (config_parsers c) s of None \<Rightarrow> (1, None) | Some f \<Rightarrow> (0, Some f))"
    using hmap.get_law[OF cfg_invD(1)[OF inv], of s] hmap.get_law[OF inv', of k] registry_get[OF cfg_invD(2)[OF inv]] se
    by (simp_all del: hm_map.simps hash_map_get.simps)
  have same: "set_entry s k x (cfg_view c) = cfg_view c" using v by (auto simp: set_entry_def fun_eq_iff)
  show ?thesis using r len inv cfg_set_value[OF inv a(1)] same
    by (auto simp: config_get_def copy_key_def g se a(2) Let_def simp del: hm_map.simps hash_map_get.simps
      split: bool.splits option.splits T.splits if_splits)
qed

section \<open>Files\<close>

text \<open>The lines of a file that the format describes, what they look like and what they mean.\<close>

datatype item = Comment cstr | Header cstr | Setting cstr cstr

fun render :: "item \<Rightarrow> byte list" where
  "render (Comment t) = HASH # t @ [NEWLINE]"
| "render (Header n) = OPEN # n @ [CLOSE, NEWLINE]"
| "render (Setting k v) = k @ EQUALS # v @ [NEWLINE]"

definition word_char :: "byte \<Rightarrow> bool" where
  "word_char b \<longleftrightarrow> \<not> isspace b \<and> b \<noteq> 0"

fun item_ok :: "item \<Rightarrow> bool" where
  "item_ok (Comment t) \<longleftrightarrow> NEWLINE \<notin> set t \<and> length t \<le> 253"
| "item_ok (Header n) \<longleftrightarrow> list_all (\<lambda>b. word_char b \<and> b \<noteq> CLOSE) n \<and> length n < KEY_SIZE"
| "item_ok (Setting k v) \<longleftrightarrow> list_all (\<lambda>b. word_char b \<and> b \<noteq> EQUALS) k \<and> length k < KEY_SIZE \<and>
     take 1 k \<noteq> [HASH] \<and> take 1 k \<noteq> [OPEN] \<and> v \<noteq> [] \<and> list_all word_char v \<and> length v < VALUE_STR_SIZE"

fun apply_item :: "item \<Rightarrow> cstr \<times> (cstr \<Rightarrow> cstr \<Rightarrow> 'v ConfigValue option)
    \<Rightarrow> cstr \<times> (cstr \<Rightarrow> cstr \<Rightarrow> 'v ConfigValue option)" where
  "apply_item (Comment t) (sec, v) = (sec, v)"
| "apply_item (Header n) (sec, v) = (n, v)"
| "apply_item (Setting k x) (sec, v) = (sec, set_entry sec k \<lparr>is_cook = False, cfg_value = Text x\<rparr> v)"

lemma item_line:
  assumes "item_ok i"
  shows "\<exists>xs. render i = xs @ [NEWLINE] \<and> NEWLINE \<notin> set xs \<and> length xs < 255"
proof (cases i)
  case (Comment t)
  with assms show ?thesis by (intro exI[of _ "HASH # t"]) (auto simp: HASH_def NEWLINE_def)
next
  case (Header n)
  with assms show ?thesis by (intro exI[of _ "OPEN # n @ [CLOSE]"])
    (auto simp: list_all_iff word_char_def isspace_newline KEY_SIZE_def, auto simp: OPEN_def CLOSE_def NEWLINE_def)
next
  case (Setting k v)
  with assms show ?thesis by (intro exI[of _ "k @ EQUALS # v"])
    (auto simp: list_all_iff word_char_def isspace_newline KEY_SIZE_def VALUE_STR_SIZE_def,
     auto simp: EQUALS_def NEWLINE_def)
qed

lemma scan_at: "list_all go xs \<Longrightarrow> \<not> go y \<Longrightarrow> scan go (xs @ y # ys) = Some (xs, y # ys)"
  by (simp add: scan_def list_all_iff)

lemma scan_here: "\<not> go y \<Longrightarrow> scan go (y # ys) = Some ([], y # ys)"
  by (simp add: scan_def)

lemma c_string_word: "list_all word_char k \<Longrightarrow> c_string k = k"
  by (simp add: c_string_def list_all_iff word_char_def)

lemma line_setting:
  assumes "item_ok (Setting k v)"
  shows "config_line stale (render (Setting k v) @ tail) sec c =
    do { (r, c1) \<leftarrow> config_inject stale sec k v c; Some (False, sec, c1) }"
proof -
  have k: "list_all (\<lambda>b. b \<noteq> EQUALS \<and> \<not> isspace b) k" "list_all word_char k"
    and v: "list_all (\<lambda>b. \<not> isspace b \<and> b \<noteq> 0) v" "list_all word_char v" "v \<noteq> []"
    and len: "length k < KEY_SIZE" "length v < VALUE_STR_SIZE"
    using assms by (auto simp: list_all_iff word_char_def)
  obtain b bs where b: "k @ EQUALS # v @ NEWLINE # tail = b # bs" "\<not> isspace b" "b \<noteq> HASH" "b \<noteq> OPEN"
    using assms k(1) by (cases k) (auto simp: EQUALS_def isspace_def HASH_def OPEN_def word_char_def)
  have "scan isspace (k @ EQUALS # v @ NEWLINE # tail) = Some ([], k @ EQUALS # v @ NEWLINE # tail)"
    "hd (k @ EQUALS # v @ NEWLINE # tail) \<noteq> HASH" "hd (k @ EQUALS # v @ NEWLINE # tail) \<noteq> OPEN"
    using b scan_here by (metis, simp_all)
  moreover have "scan (\<lambda>b. b \<noteq> EQUALS \<and> \<not> isspace b) (k @ EQUALS # v @ NEWLINE # tail) = Some (k, EQUALS # v @ NEWLINE # tail)"
    by (rule scan_at[OF k(1)]) simp
  moreover have "scan (\<lambda>b. \<not> isspace b \<and> b \<noteq> 0) (v @ NEWLINE # tail) = Some (v, NEWLINE # tail)"
    by (rule scan_at[OF v(1)]) (simp add: isspace_newline)
  moreover have "EQUALS \<noteq> 0" by (simp add: EQUALS_def)
  ultimately show ?thesis
    using len v(3) by (simp add: config_line_def c_string_word[OF k(2)] c_string_word[OF v(2)])
qed

lemma line_header:
  assumes "item_ok (Header n)"
  shows "config_line stale (render (Header n) @ tail) sec c = Some (False, n, c)"
proof -
  have n: "list_all (\<lambda>b. b \<noteq> CLOSE \<and> \<not> isspace b) n" "list_all word_char n" "length n < KEY_SIZE"
    using assms by (auto simp: list_all_iff word_char_def)
  obtain b bs where b: "n @ CLOSE # NEWLINE # tail = b # bs" "\<not> isspace b"
    using n(1) by (cases n) (auto simp: CLOSE_def isspace_def)
  have "scan isspace (n @ CLOSE # NEWLINE # tail) = Some ([], n @ CLOSE # NEWLINE # tail)"
    using b scan_here by metis
  moreover have "scan isspace (OPEN # n @ CLOSE # NEWLINE # tail) = Some ([], OPEN # n @ CLOSE # NEWLINE # tail)"
    by (rule scan_here) (simp add: OPEN_def isspace_def)
  moreover have "scan (\<lambda>b. b \<noteq> CLOSE \<and> \<not> isspace b) (n @ CLOSE # NEWLINE # tail) = Some (n, CLOSE # NEWLINE # tail)"
    by (rule scan_at[OF n(1)]) simp
  moreover have "OPEN \<noteq> HASH" "CLOSE \<noteq> 0" by (simp_all add: OPEN_def HASH_def CLOSE_def)
  ultimately show ?thesis using n(3) by (simp add: config_line_def c_string_word[OF n(2)])
qed

lemma line_comment: "config_line stale (render (Comment t) @ tail) sec c = Some (False, sec, c)"
  by (simp add: config_line_def scan_def HASH_def isspace_def)

definition all_raw :: "'v ConfigCenter \<Rightarrow> bool" where
  "all_raw c \<longleftrightarrow> (\<forall>s k x. cfg_view c s k = Some x \<longrightarrow> \<not> is_cook x)"

lemma raw_cleanable: "all_raw c \<Longrightarrow> cleanable s k c" "all_raw c \<Longrightarrow> cleaned_by_store s k c = []"
  by (auto simp: all_raw_def cleanable_def cleaned_by_store_def split: option.split)

lemma load_step:
  assumes "item_ok i"
  shows "\<exists>tail. load_lines stale line sec (render i @ rest) c = do {
      (stop, sec1, c1) \<leftarrow> config_line stale (render i @ 0 # tail) sec c;
      if stop then Some c1 else load_lines stale (render i @ 0 # tail) sec1 rest c1 }"
proof -
  obtain xs where xs: "render i = xs @ [NEWLINE]" "NEWLINE \<notin> set xs" "length xs < 255"
    using item_line[OF assms] by blast
  have f: "fgets LINE_SIZE line (render i @ rest) = Some (render i @ 0 # drop (length xs + 2) line, rest)"
    using fgets_line[OF xs(2), of LINE_SIZE line rest] xs(1,3) by (simp add: LINE_SIZE_def)
  show ?thesis by (rule exI[of _ "drop (length xs + 2) line"]) (subst load_lines.simps, simp only: f option.case prod.case)
qed

lemma item_effect:
  assumes inv: "cfg_inv c" "all_raw c" and ok: "item_ok i"
  shows "\<exists>c'. config_line (\<lambda>k. k) (render i @ tail) sec c = Some (False, fst (apply_item i (sec, cfg_view c)), c') \<and>
    cfg_inv c' \<and> all_raw c' \<and> cfg_view c' = snd (apply_item i (sec, cfg_view c)) \<and>
    config_parsers c' = config_parsers c \<and> config_cleaners c' = config_cleaners c"
proof (cases i)
  case (Comment t)
  then show ?thesis using inv line_comment by (intro exI[of _ c]) simp
next
  case (Header n)
  then show ?thesis using inv ok line_header by (intro exI[of _ c]) (simp del: render.simps item_ok.simps)
next
  case (Setting k v)
  obtain c' where c': "config_store (\<lambda>k. k) sec k \<lparr>is_cook = False, cfg_value = Text v\<rparr> c = Some (0, c')" "cfg_inv c'"
    "cfg_view c' = set_entry sec k \<lparr>is_cook = False, cfg_value = Text v\<rparr> (cfg_view c)"
    "config_parsers c' = config_parsers c" "config_cleaners c' = config_cleaners c"
    using store_ok[OF inv(1) raw_cleanable(1)[OF inv(2)]] by blast
  have "all_raw c'" using inv(2) by (auto simp: all_raw_def c' set_entry_def split: if_splits)
  with c' show ?thesis using ok line_setting[of k v "\<lambda>k. k" tail sec c] Setting
    by (intro exI[of _ c']) (simp add: config_inject_def del: render.simps item_ok.simps)
qed

lemma load_items:
  assumes "cfg_inv c" "all_raw c" and "\<forall>i \<in> set items. item_ok i"
  shows "\<exists>c' line'. load_lines (\<lambda>k. k) line sec (concat (map render items) @ rest) c =
      load_lines (\<lambda>k. k) line' (fst (fold apply_item items (sec, cfg_view c))) rest c' \<and>
    (items \<noteq> [] \<longrightarrow> (\<exists>tail. line' = render (last items) @ 0 # tail)) \<and>
    cfg_inv c' \<and> all_raw c' \<and> cfg_view c' = snd (fold apply_item items (sec, cfg_view c)) \<and>
    config_parsers c' = config_parsers c \<and> config_cleaners c' = config_cleaners c"
  using assms
proof (induction items arbitrary: line sec c)
  case Nil
  then show ?case by auto
next
  case (Cons i items)
  let ?more = "concat (map render items) @ rest"
  obtain tail where step: "load_lines (\<lambda>k. k) line sec (render i @ ?more) c = do {
      (stop, sec1, c1) \<leftarrow> config_line (\<lambda>k. k) (render i @ 0 # tail) sec c;
      if stop then Some c1 else load_lines (\<lambda>k. k) (render i @ 0 # tail) sec1 ?more c1 }"
    using load_step[of i "\<lambda>k. k" line sec ?more c] Cons.prems(3) by auto
  obtain sec1 v1 where r: "apply_item i (sec, cfg_view c) = (sec1, v1)" by (cases "apply_item i (sec, cfg_view c)")
  obtain c1 where c1: "config_line (\<lambda>k. k) (render i @ 0 # tail) sec c = Some (False, sec1, c1)"
    "cfg_inv c1" "all_raw c1" "cfg_view c1 = v1" "config_parsers c1 = config_parsers c" "config_cleaners c1 = config_cleaners c"
    using item_effect[OF Cons.prems(1,2), of i "0 # tail" sec] Cons.prems(3) r by auto
  obtain c' line' where IH: "load_lines (\<lambda>k. k) (render i @ 0 # tail) sec1 ?more c1 =
      load_lines (\<lambda>k. k) line' (fst (fold apply_item items (sec1, cfg_view c1))) rest c'"
    "items \<noteq> [] \<longrightarrow> (\<exists>tail. line' = render (last items) @ 0 # tail)"
    "cfg_inv c'" "all_raw c'" "cfg_view c' = snd (fold apply_item items (sec1, cfg_view c1))"
    "config_parsers c' = config_parsers c1" "config_cleaners c' = config_cleaners c1"
    using Cons.IH[OF c1(2,3)] Cons.prems(3) by (metis list.set_intros(2))
  show ?case
  proof (cases "items = []")
    case True
    then show ?thesis using step c1 r
      by (intro exI[of _ c1] exI[of _ "render i @ 0 # tail"]) auto
  next
    case False
    then show ?thesis using step c1 r IH by (intro exI[of _ c'] exI[of _ line']) auto
  qed
qed

lemma load_file:
  assumes "cfg_inv c" "all_raw c" "\<forall>i \<in> set items. item_ok i"
  shows "\<exists>c'. config_load_file (\<lambda>k. k) line (Some (concat (map render items))) c = Some (0, c') \<and>
    cfg_inv c' \<and> all_raw c' \<and> cfg_view c' = snd (fold apply_item items ([], cfg_view c)) \<and>
    config_parsers c' = config_parsers c \<and> config_cleaners c' = config_cleaners c"
proof -
  obtain c' line' where "load_lines (\<lambda>k. k) line [] (concat (map render items) @ []) c =
      load_lines (\<lambda>k. k) line' (fst (fold apply_item items ([], cfg_view c))) [] c'"
    "cfg_inv c'" "all_raw c'" "cfg_view c' = snd (fold apply_item items ([], cfg_view c))"
    "config_parsers c' = config_parsers c" "config_cleaners c' = config_cleaners c"
    using load_items[OF assms] by blast
  then show ?thesis by (intro exI[of _ c']) (simp add: config_load_file_def load_lines.simps[of _ line'] fgets_def)
qed

section \<open>Properties\<close>


text \<open>A blank line behind a header, and behind a setting.\<close>

lemma list_all_drop: "list_all P xs \<Longrightarrow> list_all P (drop m xs)"
  by (auto simp: list_all_iff dest: in_set_dropD)

lemma blank_after_header:
  assumes "item_ok (Header n)" "EQUALS \<notin> set n" "length n < 63"
  shows "load_lines stale (render (Header n) @ 0 # tail) sec (NEWLINE # rest) c = Some c"
proof -
  let ?line = "NEWLINE # (0 # drop 1 (n @ [CLOSE])) @ NEWLINE # 0 # tail"
  have "fgets LINE_SIZE (render (Header n) @ 0 # tail) (NEWLINE # rest) = Some (?line, rest)"
    using fgets_line[of "[]" LINE_SIZE "render (Header n) @ 0 # tail" rest] by (cases n) (simp_all add: LINE_SIZE_def)
  moreover have "scan isspace ?line = Some ([NEWLINE], (0 # drop 1 (n @ [CLOSE])) @ NEWLINE # 0 # tail)"
    by (simp add: scan_def isspace_newline) (simp add: isspace_def)
  moreover have "scan (\<lambda>b. b \<noteq> EQUALS \<and> \<not> isspace b) ((0 # drop 1 (n @ [CLOSE])) @ NEWLINE # 0 # tail) =
      Some (0 # drop 1 (n @ [CLOSE]), NEWLINE # 0 # tail)"
  proof (rule scan_at)
    have "list_all (\<lambda>b. b \<noteq> EQUALS \<and> \<not> isspace b) (n @ [CLOSE])"
      using assms(1,2) by (auto simp: list_all_iff word_char_def) (simp_all add: EQUALS_def CLOSE_def isspace_def)
    then show "list_all (\<lambda>b. b \<noteq> EQUALS \<and> \<not> isspace b) (0 # drop 1 (n @ [CLOSE]))"
      using list_all_drop[of _ "n @ [CLOSE]" 1] by (simp add: EQUALS_def isspace_def)
  qed (simp add: isspace_newline)
  moreover have "scan (\<lambda>b. \<not> isspace b \<and> b \<noteq> 0) (0 # tail) = Some ([], 0 # tail)"
    by (rule scan_here) simp
  ultimately show ?thesis using assms(3)
    by (subst load_lines.simps) (simp add: config_line_def HASH_def OPEN_def NEWLINE_def KEY_SIZE_def)
qed

lemma blank_after_setting:
  assumes ok: "item_ok (Setting k v)" and k: "2 \<le> length k" and inv: "cfg_inv c" "all_raw c"
  shows "\<exists>c' line. load_lines (\<lambda>k. k) (render (Setting k v) @ 0 # tail) sec (NEWLINE # rest) c =
      load_lines (\<lambda>k. k) line sec rest c' \<and> cfg_inv c' \<and> all_raw c' \<and>
    cfg_view c' = snd (apply_item (Setting [] v) (sec, cfg_view c))"
proof -
  let ?line = "NEWLINE # (0 # drop 2 k) @ EQUALS # v @ NEWLINE # 0 # tail"
  have v: "list_all (\<lambda>b. \<not> isspace b \<and> b \<noteq> 0) v" "list_all word_char v" "v \<noteq> []" "length v < VALUE_STR_SIZE"
    using ok by (auto simp: list_all_iff word_char_def)
  have "fgets LINE_SIZE (render (Setting k v) @ 0 # tail) (NEWLINE # rest) = Some (?line, rest)"
    using fgets_line[of "[]" LINE_SIZE "render (Setting k v) @ 0 # tail" rest] k by (simp add: numeral_2_eq_2 LINE_SIZE_def)
  moreover have "scan isspace ?line = Some ([NEWLINE], (0 # drop 2 k) @ EQUALS # v @ NEWLINE # 0 # tail)"
    by (simp add: scan_def isspace_newline) (simp add: isspace_def)
  moreover have "scan (\<lambda>b. b \<noteq> EQUALS \<and> \<not> isspace b) ((0 # drop 2 k) @ EQUALS # v @ NEWLINE # 0 # tail) =
      Some (0 # drop 2 k, EQUALS # v @ NEWLINE # 0 # tail)"
  proof (rule scan_at)
    have "list_all (\<lambda>b. b \<noteq> EQUALS \<and> \<not> isspace b) k" using ok by (auto simp: list_all_iff word_char_def)
    then show "list_all (\<lambda>b. b \<noteq> EQUALS \<and> \<not> isspace b) (0 # drop 2 k)"
      using list_all_drop[of _ k 2] by (simp add: EQUALS_def isspace_def)
  qed simp
  moreover have "scan (\<lambda>b. \<not> isspace b \<and> b \<noteq> 0) (v @ NEWLINE # 0 # tail) = Some (v, NEWLINE # 0 # tail)"
    by (rule scan_at[OF v(1)]) (simp add: isspace_newline)
  moreover have "length (0 # drop 2 k) < KEY_SIZE" "c_string (0 # drop 2 k) = []"
    using ok k by (auto simp: KEY_SIZE_def c_string_def)
  ultimately have step: "load_lines (\<lambda>k. k) (render (Setting k v) @ 0 # tail) sec (NEWLINE # rest) c =
      do { (r, c1) \<leftarrow> config_inject (\<lambda>k. k) sec [] v c; load_lines (\<lambda>k. k) ?line sec rest c1 }"
    using v by (subst load_lines.simps)
      (simp add: config_line_def HASH_def OPEN_def EQUALS_def c_string_word split: Option.bind_split)
  obtain c' where "config_store (\<lambda>k. k) sec [] \<lparr>is_cook = False, cfg_value = Text v\<rparr> c = Some (0, c')" "cfg_inv c'"
    "cfg_view c' = set_entry sec [] \<lparr>is_cook = False, cfg_value = Text v\<rparr> (cfg_view c)"
    using store_ok[OF inv(1) raw_cleanable(1)[OF inv(2)]] by blast
  moreover from this have "all_raw c'" using inv(2) by (auto simp: all_raw_def set_entry_def split: if_splits)
  ultimately show ?thesis using step by (intro exI[of _ c'] exI[of _ ?line]) (simp add: config_inject_def)
qed

text \<open>A sample: the start of the program's configuration, and texts.\<close>

lemma init_sample: "\<exists>c :: nat ConfigCenter. config_init = Some (0, c) \<and> cfg_inv c \<and> all_raw c \<and> cfg_view c = (\<lambda>s k. None)"
  using init_ok[where ?'v = nat] by (fastforce simp: all_raw_def)




text \<open>
  Blank lines are misread, because the scan for the key passes the end of the line into
  what the buffer held: behind a section header a blank line ends the loading, with success
  reported and the rest of the file ignored; behind a setting whose key has two characters or
  more it stores that setting's value again under the empty key.
\<close>

theorem config_blank_lines:
  assumes "cfg_inv c" and "all_raw c" and "\<forall>i \<in> set items. item_ok i" and "\<forall>i \<in> set others. item_ok i"
  shows "(\<forall>n rest. item_ok (Header n) \<and> EQUALS \<notin> set n \<and> length n < 63 \<longrightarrow>
      (\<exists>c'. config_load_file (\<lambda>k. k) line (Some (concat (map render items) @ render (Header n) @ NEWLINE # rest)) c =
           Some (0, c') \<and> cfg_view c' = snd (fold apply_item items ([], cfg_view c)))) \<and>
    (\<forall>k v. item_ok (Setting k v) \<and> 2 \<le> length k \<longrightarrow>
      (\<exists>c'. config_load_file (\<lambda>k. k) line
           (Some (concat (map render items) @ render (Setting k v) @ NEWLINE # concat (map render others))) c = Some (0, c') \<and>
         cfg_view c' = snd (fold apply_item (items @ [Setting k v, Setting [] v] @ others) ([], cfg_view c))))"
proof (intro conjI allI impI)
  fix n rest
  assume n: "item_ok (Header n) \<and> EQUALS \<notin> set n \<and> length n < 63"
  then have ok: "\<forall>i \<in> set (items @ [Header n]). item_ok i" using assms(3) by auto
  obtain c' tail sec where "load_lines (\<lambda>k. k) line [] (concat (map render (items @ [Header n])) @ NEWLINE # rest) c =
      load_lines (\<lambda>k. k) (render (Header n) @ 0 # tail) sec (NEWLINE # rest) c'"
    "cfg_view c' = snd (fold apply_item (items @ [Header n]) ([], cfg_view c))"
    using load_items[OF assms(1,2) ok, of line "[]" "NEWLINE # rest"] by auto
  moreover have "snd (apply_item (Header n) x) = snd x" for x :: "cstr \<times> (cstr \<Rightarrow> cstr \<Rightarrow> 'a ConfigValue option)"
    by (cases x) simp
  ultimately show "\<exists>c'. config_load_file (\<lambda>k. k) line (Some (concat (map render items) @ render (Header n) @ NEWLINE # rest)) c =
      Some (0, c') \<and> cfg_view c' = snd (fold apply_item items ([], cfg_view c))"
    using blank_after_header[of n "\<lambda>k. k" tail sec rest c'] n by (intro exI[of _ c']) (simp add: config_load_file_def del: render.simps)
next
  fix k v
  assume k: "item_ok (Setting k v) \<and> 2 \<le> length k"
  then have ok: "\<forall>i \<in> set (items @ [Setting k v]). item_ok i" using assms(3) by auto
  let ?rest = "concat (map render others)" and ?f = "fold apply_item (items @ [Setting k v]) ([], cfg_view c)"
  obtain c1 tail where c1: "load_lines (\<lambda>k. k) line [] (concat (map render (items @ [Setting k v])) @ NEWLINE # ?rest) c =
      load_lines (\<lambda>k. k) (render (Setting k v) @ 0 # tail) (fst ?f) (NEWLINE # ?rest) c1"
    "cfg_inv c1" "all_raw c1" "cfg_view c1 = snd ?f"
    using load_items[OF assms(1,2) ok, of line "[]" "NEWLINE # ?rest"] by fastforce
  obtain c2 line2 where c2: "load_lines (\<lambda>k. k) (render (Setting k v) @ 0 # tail) (fst ?f) (NEWLINE # ?rest) c1 =
      load_lines (\<lambda>k. k) line2 (fst ?f) ?rest c2" "cfg_inv c2" "all_raw c2"
    "cfg_view c2 = snd (apply_item (Setting [] v) (fst ?f, cfg_view c1))"
    using blank_after_setting[OF conjunct1[OF k] conjunct2[OF k] c1(2,3)] by blast
  obtain c3 line3 where c3: "load_lines (\<lambda>k. k) line2 (fst ?f) (?rest @ []) c2 =
      load_lines (\<lambda>k. k) line3 (fst (fold apply_item others (fst ?f, cfg_view c2))) [] c3"
    "cfg_view c3 = snd (fold apply_item others (fst ?f, cfg_view c2))"
    using load_items[OF c2(2,3) assms(4)] by blast
  have "(fst ?f, cfg_view c2) = fold apply_item (items @ [Setting k v, Setting [] v]) ([], cfg_view c)"
    using c1(4) c2(4) by (cases ?f) simp
  then show "\<exists>c'. config_load_file (\<lambda>k. k) line
      (Some (concat (map render items) @ render (Setting k v) @ NEWLINE # concat (map render others))) c = Some (0, c') \<and>
      cfg_view c' = snd (fold apply_item (items @ [Setting k v, Setting [] v] @ others) ([], cfg_view c))"
    using c1(1) c2(1) c3
    by (intro exI[of _ c3]) (simp add: config_load_file_def load_lines.simps[of _ line3] fgets_def del: render.simps apply_item.simps)
qed

theorem config_blank_lines_witness:
  "\<exists>c c' :: nat ConfigCenter. config_init = Some (0, c) \<and>
     config_load_file (\<lambda>k. k) [] (Some (bytes_of ''[s]'' @ [10, 10] @ bytes_of ''key=1'' @ [10])) c = Some (0, c') \<and>
     cfg_view c' = (\<lambda>s k. None)"
proof -
  obtain c :: "nat ConfigCenter" where c: "config_init = Some (0, c)" "cfg_inv c" "all_raw c" "cfg_view c = (\<lambda>s k. None)"
    using init_sample by blast
  have h: "item_ok (Header (bytes_of ''s'')) \<and> EQUALS \<notin> set (bytes_of ''s'') \<and> length (bytes_of ''s'') < 63"
    by (simp add: bytes_of_def word_char_def isspace_def CLOSE_def EQUALS_def KEY_SIZE_def)
  have "concat (map render []) @ render (Header (bytes_of ''s'')) @ NEWLINE # (bytes_of ''key=1'' @ [10]) =
      bytes_of ''[s]'' @ [10, 10] @ bytes_of ''key=1'' @ [10]"
    by (simp add: bytes_of_def CLOSE_def OPEN_def NEWLINE_def)
  moreover have "snd (fold apply_item [] ([], cfg_view c)) = (\<lambda>s k. None)" using c(4) by simp
  ultimately show ?thesis
    using conjunct1[OF config_blank_lines[OF c(2,3), of "[]" "[]" "[]"]] h c(1)
    by (metis empty_iff list.set(1))
qed

end
