(* ===== verification/Server_Config.thy ===== *)
theory Server_Config
  imports Config_Center Server
begin

text \<open>
  What the parts of the program take from the configuration: the parser and cleaner of
  \<^verbatim>\<open>src/server/server.c\<close> with the reading of its settings in \<open>server_start\<close>, the parser of
  \<^verbatim>\<open>src/dns/dns_resolver.c\<close> with \<open>dns_resolver_init\<close>, the parser of
  \<^verbatim>\<open>src/infra/logger.c\<close> with \<open>logger_init\<close>, and the arguments of
  \<^verbatim>\<open>src/main.c\<close>. The objects the parsers make are the type \<open>Setting\<close>. \<open>inet_pton\<close> and
  \<open>fopen\<close> are parameters.
\<close>

section \<open>Settings\<close>

text \<open>An \<open>Endpoint\<close> never is a value; it stands for the memory a cleaner frees.\<close>

datatype Stream = Stdout | Stderr | LogFile cstr

datatype Setting = Number int | UpstreamList "NetEnd LinkedList option" | Channel Stream | Endpoint NetEnd

type_synonym Conf = "Setting ConfigCenter"

definition SERV_SECTION :: cstr where "SERV_SECTION = bytes_of ''server''"
definition KEY_PACKET_TIMEOUT :: cstr where "KEY_PACKET_TIMEOUT = bytes_of ''dns_packet_timeout''"
definition KEY_MAX_RETRY_TIME :: cstr where "KEY_MAX_RETRY_TIME = bytes_of ''max_retry_time''"
definition KEY_UPSTREAMS :: cstr where "KEY_UPSTREAMS = bytes_of ''server_upstream''"
definition SECTION_DNS_RESOLVER :: cstr where "SECTION_DNS_RESOLVER = bytes_of ''dnsresolver''"
definition KEY_USE_CACHE :: cstr where "KEY_USE_CACHE = bytes_of ''usecache''"
definition LOG_SECTION :: cstr where "LOG_SECTION = bytes_of ''log''"
definition KEY_LOG_LEVEL :: cstr where "KEY_LOG_LEVEL = bytes_of ''log_level''"

section \<open>The server's settings\<close>

definition validate_ipstr :: "cstr \<Rightarrow> int" where
  "validate_ipstr ipstr =
     (if strcasecmp ipstr (bytes_of ''localhost'') = 0 \<or> strcasecmp ipstr (bytes_of ''127.0.0.1'') = 0 \<or>
         strcasecmp ipstr (bytes_of ''::1'') = 0 then 1 else 0)"

definition SERVER_PORT :: uint16_t where "SERVER_PORT = 53"

text \<open>
  The loop over the list of addresses: \<open>item\<close> holds the characters from \<open>i\<close> up to \<open>j\<close>, the
  other list those from \<open>j\<close> on with the terminating zero. An item that does not fit into 63
  bytes is copied beyond the end of its array.
\<close>

fun upstream_loop :: "(cstr \<Rightarrow> int \<times> NetEnd option) \<Rightarrow> bool \<Rightarrow> cstr \<Rightarrow> byte list \<Rightarrow> NetEnd LinkedList option
    \<Rightarrow> (int \<times> NetEnd LinkedList option) option" where
  "upstream_loop to_end le item [] ups = Some (0, ups)"
| "upstream_loop to_end le item (b # bs) ups =
     (if b = COMMA \<or> b = 0
      then (if length item \<ge> 64 then None
            else if validate_ipstr item \<noteq> 0 then Some (-1, ups)
            else (case to_end item of (failed, res) \<Rightarrow>
              if failed \<noteq> 0 then Some (-1, ups)
              else do {
                e \<leftarrow> res;
                ups1 \<leftarrow> linked_list_addFirst ups (e\<lparr>end_port := ucast (h2n_2 le SERVER_PORT)\<rparr>);
                upstream_loop to_end le [] bs ups1 }))
      else upstream_loop to_end le (item @ [b]) bs ups)"

definition server_config_parser :: "(cstr \<Rightarrow> int \<times> NetEnd option) \<Rightarrow> bool \<Rightarrow> Setting ConfigParser" where
  "server_config_parser to_end le key v =
     (if strcmp key KEY_UPSTREAMS = 0
      then (if v = [] then Some (0, None)
            else do {
              ups \<leftarrow> linked_list_create;
              (failed, res) \<leftarrow> upstream_loop to_end le []
                (if hd v = COMMA then tl v @ [0] else v @ [0]) (Some ups);
              if failed \<noteq> 0 then Some (-1, None) else Some (0, Some (Object (UpstreamList res))) })
      else if strcmp key KEY_MAX_RETRY_TIME = 0 then do { n \<leftarrow> atol v; Some (0, Some (Object (Number n))) }
      else if strcmp key KEY_PACKET_TIMEOUT = 0 then do { n \<leftarrow> atol v; Some (0, Some (Object (Number n))) }
      else Some (-1, None))"

text \<open>The endpoints of a list are freed, not the list.\<close>

definition server_config_cleaner :: "Setting ConfigCleaner" where
  "server_config_cleaner key v =
     (if strcmp key KEY_UPSTREAMS = 0
      then (case v of
              Object (UpstreamList (Some l)) \<Rightarrow> linked_list_foreach (Some l) (Some (\<lambda>e freed. Some (freed @ [Endpoint e]))) []
            | Object (UpstreamList None) \<Rightarrow> Some []
            | _ \<Rightarrow> None)
      else Some [])"

text \<open>
  What \<open>config_get\<close> leaves in a variable: the old content, a number, or a list. A value of
  another kind has no meaning there. An \<open>int\<close> keeps the low 32 bits of a \<open>long\<close> (the other
  four bytes are written behind it).
\<close>

fun number_or :: "int \<Rightarrow> Setting T option \<Rightarrow> int option" where
  "number_or prev None = Some prev"
| "number_or prev (Some (Object (Number n))) = Some n"
| "number_or prev _ = None"

definition int_of_long :: "int \<Rightarrow> int" where
  "int_of_long n = c_int (word_of_int n)"

fun upstreams_or :: "NetEnd LinkedList option \<Rightarrow> Setting T option \<Rightarrow> NetEnd LinkedList option option" where
  "upstreams_or prev None = Some prev"
| "upstreams_or prev (Some (Object (UpstreamList l))) = Some l"
| "upstreams_or prev _ = None"

definition VALUE_DEFAULT_REQUEST_TIMEOUT :: ms where "VALUE_DEFAULT_REQUEST_TIMEOUT = 3000"
definition VALUE_DEFAULT_MAX_RETRY_TIME :: int where "VALUE_DEFAULT_MAX_RETRY_TIME = 2"

text \<open>
  \<open>server_start\<close> up to the check of the upstream list: the timeout, the number of retries and
  the upstream servers.
\<close>

definition server_settings :: "(cstr \<Rightarrow> int \<times> NetEnd option) \<Rightarrow> bool \<Rightarrow> (cstr \<Rightarrow> cstr) \<Rightarrow> Setting T \<Rightarrow> Conf
    \<Rightarrow> (ms \<times> int \<times> NetEnd LinkedList option \<times> Conf) option" where
  "server_settings to_end le stale tmp c = do {
     c1 \<leftarrow> config_register_parser stale SERV_SECTION (server_config_parser to_end le) c;
     c2 \<leftarrow> config_register_cleaner stale SERV_SECTION server_config_cleaner c1;
     (r3, v3, c3) \<leftarrow> config_get stale tmp SERV_SECTION KEY_PACKET_TIMEOUT c2;
     timeout \<leftarrow> number_or VALUE_DEFAULT_REQUEST_TIMEOUT v3;
     (r4, v4, c4) \<leftarrow> config_get stale tmp SERV_SECTION KEY_MAX_RETRY_TIME c3;
     retries \<leftarrow> number_or VALUE_DEFAULT_MAX_RETRY_TIME v4;
     (r5, v5, c5) \<leftarrow> config_get stale tmp SERV_SECTION KEY_UPSTREAMS c4;
     ups \<leftarrow> upstreams_or None v5;
     Some (timeout, int_of_long retries, ups, c5) }"

section \<open>The resolver's setting\<close>

definition VALUE_DEFAULT_USE_CACHE :: int where "VALUE_DEFAULT_USE_CACHE = 1"

definition dns_resolver_config_parser :: "Setting ConfigParser" where
  "dns_resolver_config_parser key v =
     (if strcasecmp key KEY_USE_CACHE \<noteq> 0
      then do {
        n \<leftarrow> atoi v;
        if n \<noteq> 0 \<and> n \<noteq> 1 then Some (1, Some (Object (Number 1))) else Some (0, Some (Object (Number n))) }
      else Some (0, None))"

text \<open>The result code and the value of \<open>use_cache\<close>.\<close>

definition dns_resolver_init :: "(cstr \<Rightarrow> cstr) \<Rightarrow> Setting T \<Rightarrow> Conf \<Rightarrow> (int \<times> int \<times> Conf) option" where
  "dns_resolver_init stale tmp c = do {
     c1 \<leftarrow> config_register_parser stale SECTION_DNS_RESOLVER dns_resolver_config_parser c;
     (r, v, c2) \<leftarrow> config_get stale tmp SECTION_DNS_RESOLVER KEY_USE_CACHE c1;
     flag \<leftarrow> number_or VALUE_DEFAULT_USE_CACHE v;
     Some (if r = -1 then 1 else 0, int_of_long flag, c2) }"

section \<open>The logger's settings\<close>

definition LEVEL_STR :: "cstr list" where
  "LEVEL_STR = map bytes_of [''TRACE'', ''DEBUG'', ''INFO'', ''WARN'', ''ERROR'']"

definition TRACE :: nat where "TRACE = 0"
definition DEBUG :: nat where "DEBUG = 1"
definition INFO :: nat where "INFO = 2"

text \<open>\<open>fclose\<close> of a file that could not be opened has no result.\<close>

definition log_config_parser :: "(cstr \<Rightarrow> bool) \<Rightarrow> (cstr \<Rightarrow> bool) \<Rightarrow> Setting ConfigParser" where
  "log_config_parser fopen_w fopen_a key v =
     (if strcmp key KEY_LOG_LEVEL = 0
      then (let level = length (takeWhile (\<lambda>l. strcasecmp l v \<noteq> 0) LEVEL_STR)
            in Some (0, Some (Object (Number (int (if level < length LEVEL_STR then level else INFO))))))
      else if list_ex (\<lambda>l. strcasecmp l key = 0) LEVEL_STR
      then (if strcasecmp v (bytes_of ''stdout'') = 0 then Some (0, Some (Object (Channel Stdout)))
            else if strcasecmp v (bytes_of ''stderr'') = 0 then Some (0, Some (Object (Channel Stderr)))
            else if \<not> fopen_w v then None
            else if \<not> fopen_a v then Some (0, Some (Object (Channel Stdout)))
            else Some (0, Some (Object (Channel (LogFile v)))))
      else Some (0, None))"

record Logger =
  logging_level :: int
  output_channels :: "Setting T option list"

text \<open>The loop over the levels from \<open>i\<close> on; a level below 0 would index before the array.\<close>

fun channel_loop :: "(cstr \<Rightarrow> cstr) \<Rightarrow> Setting T \<Rightarrow> nat \<Rightarrow> nat \<Rightarrow> Setting T option list \<Rightarrow> Conf
    \<Rightarrow> (Setting T option list \<times> Conf) option" where
  "channel_loop stale tmp i 0 chs c = Some (chs, c)"
| "channel_loop stale tmp i (Suc left) chs c = do {
     (r, v, c1) \<leftarrow> config_get stale tmp LOG_SECTION (LEVEL_STR ! i) c;
     channel_loop stale tmp (Suc i) left
       (chs[i := (case v of None \<Rightarrow> Some (Object (Channel Stdout)) | Some x \<Rightarrow> Some x)]) c1 }"

definition logger_init :: "(cstr \<Rightarrow> bool) \<Rightarrow> (cstr \<Rightarrow> bool) \<Rightarrow> (cstr \<Rightarrow> cstr) \<Rightarrow> Setting T \<Rightarrow> Conf
    \<Rightarrow> (int \<times> Logger \<times> Conf) option" where
  "logger_init fopen_w fopen_a stale tmp c = do {
     c1 \<leftarrow> config_register_parser stale LOG_SECTION (log_config_parser fopen_w fopen_a) c;
     (r, v, c2) \<leftarrow> config_get stale tmp LOG_SECTION KEY_LOG_LEVEL c1;
     n \<leftarrow> number_or (int INFO) v;
     let level = int_of_long n;
     if level < 0 then None
     else do {
       (chs, c3) \<leftarrow> channel_loop stale tmp (nat level) (length LEVEL_STR - nat level) (replicate (length LEVEL_STR) None) c2;
       Some (0, \<lparr>logging_level = level, output_channels = chs\<rparr>, c3) } }"

section \<open>Arguments of the program\<close>

definition default_config_file :: cstr where
  "default_config_file = bytes_of ''./dnsrelay.ini''"

text \<open>The arguments behind the program's name: the file behind the first \<open>-c\<close>.\<close>

fun config_file_arg :: "cstr list \<Rightarrow> int \<times> cstr option" where
  "config_file_arg [] = (1, None)"
| "config_file_arg (a # as) =
     (if strcmp a (bytes_of ''-c'') = 0 then (case as of [] \<Rightarrow> (1, None) | f # _ \<Rightarrow> (0, Some f))
      else config_file_arg as)"

definition param_get_config_file :: "cstr list \<Rightarrow> int \<times> cstr" where
  "param_get_config_file argv =
     (case config_file_arg argv of (r, f) \<Rightarrow> (r, case f of None \<Rightarrow> default_config_file | Some x \<Rightarrow> x))"

text \<open>The loop over the arguments, with the list of addresses so far, in an array of 1024 bytes.\<close>

fun inject_loop :: "(cstr \<Rightarrow> cstr) \<Rightarrow> cstr list \<Rightarrow> cstr \<Rightarrow> Conf \<Rightarrow> (cstr \<times> Conf) option" where
  "inject_loop stale [] ips c = Some (ips, c)"
| "inject_loop stale (a # as) ips c =
     (if strcmp a (bytes_of ''-d'') = 0
      then do { (r, c1) \<leftarrow> config_set stale LOG_SECTION KEY_LOG_LEVEL (Object (Number (int DEBUG))) c; inject_loop stale as ips c1 }
      else if strcmp a (bytes_of ''-dd'') = 0
      then do { (r, c1) \<leftarrow> config_set stale LOG_SECTION KEY_LOG_LEVEL (Object (Number (int TRACE))) c; inject_loop stale as ips c1 }
      else if strcmp a (bytes_of ''-c'') = 0
      then (case as of [] \<Rightarrow> Some (ips, c) | f # rest \<Rightarrow> inject_loop stale rest ips c)
      else (let ips1 = ips @ COMMA # a in
        if length ips1 < 1024 then inject_loop stale as ips1 c else None))"

definition param_inject_config :: "(cstr \<Rightarrow> cstr) \<Rightarrow> cstr list \<Rightarrow> Conf \<Rightarrow> (int \<times> Conf) option" where
  "param_inject_config stale argv c = do {
     (ips, c1) \<leftarrow> inject_loop stale argv [] c;
     if ips \<noteq> [] then do { (r, c2) \<leftarrow> config_inject stale SERV_SECTION KEY_UPSTREAMS ips c1; Some (0, c2) }
     else Some (0, c1) }"

section \<open>Parsing the list of servers\<close>

fun join_commas :: "cstr list \<Rightarrow> cstr" where
  "join_commas [] = []"
| "join_commas [x] = x"
| "join_commas (x # y # ys) = x @ COMMA # join_commas (y # ys)"

definition address_ok :: "(cstr \<Rightarrow> int \<times> NetEnd option) \<Rightarrow> cstr \<Rightarrow> bool" where
  "address_ok to_end ip \<longleftrightarrow> ip \<noteq> [] \<and> length ip < 64 \<and> list_all (\<lambda>b. b \<noteq> COMMA \<and> b \<noteq> 0) ip \<and>
     validate_ipstr ip = 0 \<and> (\<exists>e. to_end ip = (0, Some e))"

definition endpoint_for :: "(cstr \<Rightarrow> int \<times> NetEnd option) \<Rightarrow> bool \<Rightarrow> cstr \<Rightarrow> NetEnd" where
  "endpoint_for to_end le ip = (the (snd (to_end ip)))\<lparr>end_port := ucast (h2n_2 le SERVER_PORT)\<rparr>"

lemma upstream_item:
  "list_all (\<lambda>b. b \<noteq> COMMA \<and> b \<noteq> 0) xs \<Longrightarrow> upstream_loop to_end le cur (xs @ rest) ups =
     upstream_loop to_end le (cur @ xs) rest ups"
  by (induction xs arbitrary: cur) auto

lemma upstream_end:
  assumes ok: "address_ok to_end ip" and sep: "b = COMMA \<or> b = 0" and l: "linv l"
  shows "\<exists>l'. upstream_loop to_end le [] (ip @ b # rest) (Some l) = upstream_loop to_end le [] rest (Some l') \<and>
    linv l' \<and> lseq l' = endpoint_for to_end le ip # lseq l"
proof -
  obtain e where e: "to_end ip = (0, Some e)" using ok by (auto simp: address_ok_def)
  obtain l' a where l': "linked_list_addFirst (Some l) (endpoint_for to_end le ip) = Some (Some l')" "lrep l' (a # laddrs l)"
    "map (ndata l') (a # laddrs l) = endpoint_for to_end le ip # map (ndata l) (laddrs l)"
    using addFirst_rep[OF l[unfolded linv_def], of "endpoint_for to_end le ip"] by (elim exE conjE) (rule that)
  have "upstream_loop to_end le [] (ip @ b # rest) (Some l) = upstream_loop to_end le ip (b # rest) (Some l)"
    using upstream_item[of ip to_end le "[]" "b # rest" "Some l"] ok by (simp add: address_ok_def)
  also have "\<dots> = upstream_loop to_end le [] rest (Some l')"
    using ok sep e l'(1) by (simp add: address_ok_def endpoint_for_def del: linked_list_addFirst.simps)
  finally show ?thesis using lrep_linv[OF l'(2)] lrep_lseq[OF l'(2)] l'(3) by (auto simp: lseq_def)
qed

lemma upstream_list:
  assumes "ips \<noteq> []" "\<forall>ip \<in> set ips. address_ok to_end ip" "b = COMMA \<or> b = 0" "linv l"
  shows "\<exists>l'. upstream_loop to_end le [] (join_commas ips @ b # rest) (Some l) =
      upstream_loop to_end le [] rest (Some l') \<and>
    linv l' \<and> lseq l' = rev (map (endpoint_for to_end le) ips) @ lseq l"
  using assms
proof (induction ips arbitrary: l rule: join_commas.induct)
  case (2 x)
  then show ?case using upstream_end[of to_end x b l le rest] by auto
next
  case (3 x y ys)
  obtain l1 where l1: "upstream_loop to_end le [] (x @ COMMA # (join_commas (y # ys) @ b # rest)) (Some l) =
      upstream_loop to_end le [] (join_commas (y # ys) @ b # rest) (Some l1)" "linv l1"
    "lseq l1 = endpoint_for to_end le x # lseq l"
    using upstream_end[of to_end x COMMA l le "join_commas (y # ys) @ b # rest"] 3(3,5) by auto
  obtain l2 where "upstream_loop to_end le [] (join_commas (y # ys) @ b # rest) (Some l1) =
      upstream_loop to_end le [] rest (Some l2)" "linv l2"
    "lseq l2 = rev (map (endpoint_for to_end le) (y # ys)) @ lseq l1"
    using 3(1)[of l1] 3(3,4) l1(2) by auto
  with l1 show ?case by (intro exI[of _ l2]) simp
qed simp

lemma create_list: "\<exists>l :: 'a LinkedList. linked_list_create = Some l \<and> linv l \<and> lseq l = []"
  using empty_bucket by (auto simp: linked_list_create_def)

lemma join_head:
  assumes "ips \<noteq> []" "\<forall>ip \<in> set ips. address_ok to_end ip"
  shows "join_commas ips \<noteq> []" "hd (join_commas ips) \<noteq> COMMA"
proof -
  obtain x xs b bs where "ips = x # xs" "x = b # bs" "b \<noteq> COMMA"
    using assms by (cases ips; cases "hd ips") (auto simp: address_ok_def)
  then show "join_commas ips \<noteq> []" "hd (join_commas ips) \<noteq> COMMA" by (cases xs; simp)+
qed

lemma parse_upstreams:
  assumes "ips \<noteq> []" "\<forall>ip \<in> set ips. address_ok to_end ip" "v = join_commas ips \<or> v = COMMA # join_commas ips"
  shows "\<exists>l. server_config_parser to_end le KEY_UPSTREAMS v = Some (0, Some (Object (UpstreamList (Some l)))) \<and>
    linv l \<and> lseq l = rev (map (endpoint_for to_end le) ips)"
proof -
  obtain l0 :: "NetEnd LinkedList" where l0: "linked_list_create = Some l0" "linv l0" "lseq l0 = []"
    using create_list by blast
  obtain l where l: "upstream_loop to_end le [] (join_commas ips @ 0 # []) (Some l0) = upstream_loop to_end le [] [] (Some l)"
    "linv l" "lseq l = rev (map (endpoint_for to_end le) ips) @ lseq l0"
    using upstream_list[OF assms(1,2), of 0 l0 le "[]"] l0(2) by blast
  have "(if hd v = COMMA then tl v @ [0] else v @ [0]) = join_commas ips @ [0]" "v \<noteq> []"
    using assms(3) join_head[OF assms(1,2)] by auto
  then show ?thesis using l(2,3) l0(3)
    by (intro exI[of _ l]) (simp add: server_config_parser_def strcmp_zero l0(1) l(1))
qed

text \<open>
  C27. The list of servers: addresses separated by commas, with or without a comma in front,
  become the list of their endpoints at port 53 in reverse order; each address is below 64
  characters, accepted by \<open>inet_pton\<close> and not the local host. A comma behind the last address
  makes the whole list fail. Assumed of \<open>inet_pton\<close>: the empty text is no address.
\<close>

theorem upstreams_parsed:
  assumes "ips \<noteq> []" and "\<forall>ip \<in> set ips. address_ok (ipstr2binary le pton4 pton6) ip"
    and "pton4 [] = None" and "pton6 [] = None"
  shows "(\<forall>v \<in> {join_commas ips, COMMA # join_commas ips}.
      \<exists>l. server_config_parser (ipstr2binary le pton4 pton6) le KEY_UPSTREAMS v =
          Some (0, Some (Object (UpstreamList (Some l)))) \<and> linv l \<and>
        lseq l = rev (map (\<lambda>ip. (the (snd (ipstr2binary le pton4 pton6 ip)))
          \<lparr>end_port := ucast (h2n_2 le (53 :: uint16_t))\<rparr>) ips)) \<and>
    server_config_parser (ipstr2binary le pton4 pton6) le KEY_UPSTREAMS (join_commas ips @ [COMMA]) = Some (-1, None)"
proof
  have f: "endpoint_for (ipstr2binary le pton4 pton6) le =
      (\<lambda>ip. (the (snd (ipstr2binary le pton4 pton6 ip)))\<lparr>end_port := ucast (h2n_2 le (53 :: uint16_t))\<rparr>)"
    by (simp add: endpoint_for_def SERVER_PORT_def fun_eq_iff)
  show "\<forall>v \<in> {join_commas ips, COMMA # join_commas ips}.
      \<exists>l. server_config_parser (ipstr2binary le pton4 pton6) le KEY_UPSTREAMS v =
          Some (0, Some (Object (UpstreamList (Some l)))) \<and> linv l \<and>
        lseq l = rev (map (\<lambda>ip. (the (snd (ipstr2binary le pton4 pton6 ip)))
          \<lparr>end_port := ucast (h2n_2 le (53 :: uint16_t))\<rparr>) ips)"
  proof
    fix v assume "v \<in> {join_commas ips, COMMA # join_commas ips}"
    then have "v = join_commas ips \<or> v = COMMA # join_commas ips" by simp
    from parse_upstreams[OF assms(1,2) this, of le]
    show "\<exists>l. server_config_parser (ipstr2binary le pton4 pton6) le KEY_UPSTREAMS v =
          Some (0, Some (Object (UpstreamList (Some l)))) \<and> linv l \<and>
        lseq l = rev (map (\<lambda>ip. (the (snd (ipstr2binary le pton4 pton6 ip)))
          \<lparr>end_port := ucast (h2n_2 le (53 :: uint16_t))\<rparr>) ips)"
      unfolding f .
  qed
  obtain l0 :: "NetEnd LinkedList" where l0: "linked_list_create = Some l0" "linv l0"
    using create_list by blast
  obtain l where "upstream_loop (ipstr2binary le pton4 pton6) le [] (join_commas ips @ COMMA # [0]) (Some l0) =
      upstream_loop (ipstr2binary le pton4 pton6) le [] [0] (Some l)"
    using upstream_list[OF assms(1,2), of COMMA l0 le "[0]"] l0(2) by blast
  moreover have "upstream_loop (ipstr2binary le pton4 pton6) le [] [0] (Some l) = Some (-1, Some l)"
    using assms(3,4) by (simp add: ipstr2binary_def)
  ultimately show "server_config_parser (ipstr2binary le pton4 pton6) le KEY_UPSTREAMS (join_commas ips @ [COMMA]) = Some (-1, None)"
    using join_head[OF assms(1,2)] by (simp add: server_config_parser_def strcmp_zero l0(1))
qed

text \<open>A reader of addresses that knows one of each family.\<close>

definition pton4_sample :: "cstr \<Rightarrow> byte list option" where
  "pton4_sample ip = (if ip = bytes_of ''10.0.0.1'' then Some [10, 0, 0, 1]
     else if ip = bytes_of ''10.0.0.2'' then Some [10, 0, 0, 2] else None)"

lemma sample_addresses:
  "address_ok (ipstr2binary le pton4_sample (\<lambda>_. None)) (bytes_of ''10.0.0.1'')"
  "address_ok (ipstr2binary le pton4_sample (\<lambda>_. None)) (bytes_of ''10.0.0.2'')"
  by (simp_all add: address_ok_def ipstr2binary_def pton4_sample_def bytes_of_def COMMA_def validate_ipstr_def
      strcasecmp_def tolower_def)

theorem upstreams_parsed_witness:
  "\<exists>l. server_config_parser (ipstr2binary True pton4_sample (\<lambda>_. None)) True KEY_UPSTREAMS (bytes_of ''10.0.0.1,10.0.0.2'') =
      Some (0, Some (Object (UpstreamList (Some l)))) \<and> map end_addr (lseq l) = [[10, 0, 0, 2] @ replicate 12 0, [10, 0, 0, 1] @ replicate 12 0]"
proof -
  let ?ips = "[bytes_of ''10.0.0.1'', bytes_of ''10.0.0.2'']"
  have j: "join_commas ?ips = bytes_of ''10.0.0.1,10.0.0.2''" by (simp add: bytes_of_def COMMA_def)
  have ok: "\<forall>ip \<in> set ?ips. address_ok (ipstr2binary True pton4_sample (\<lambda>_. None)) ip" using sample_addresses by simp
  have n: "pton4_sample [] = None" by (simp add: pton4_sample_def bytes_of_def)
  obtain l where "server_config_parser (ipstr2binary True pton4_sample (\<lambda>_. None)) True KEY_UPSTREAMS (bytes_of ''10.0.0.1,10.0.0.2'') =
      Some (0, Some (Object (UpstreamList (Some l))))" "lseq l = rev (map (\<lambda>ip. (the (snd (ipstr2binary True pton4_sample (\<lambda>_. None) ip)))
          \<lparr>end_port := ucast (h2n_2 True (53 :: uint16_t))\<rparr>) ?ips)"
    using conjunct1[OF upstreams_parsed[OF _ ok n]] unfolding j by auto
  then show ?thesis by (intro exI[of _ l]) (simp add: ipstr2binary_def pton4_sample_def bytes_of_def)
qed

section \<open>Reading settings\<close>

lemmas section_names = SERV_SECTION_def SECTION_DNS_RESOLVER_def LOG_SECTION_def
lemmas key_names = KEY_PACKET_TIMEOUT_def KEY_MAX_RETRY_TIME_def KEY_UPSTREAMS_def KEY_USE_CACHE_def KEY_LOG_LEVEL_def

lemma name_lengths:
  "length SERV_SECTION < KEY_SIZE" "length SECTION_DNS_RESOLVER < KEY_SIZE" "length LOG_SECTION < KEY_SIZE"
  "length KEY_PACKET_TIMEOUT < KEY_SIZE" "length KEY_MAX_RETRY_TIME < KEY_SIZE" "length KEY_UPSTREAMS < KEY_SIZE"
  "length KEY_USE_CACHE < KEY_SIZE" "length KEY_LOG_LEVEL < KEY_SIZE" "i < 5 \<Longrightarrow> length (LEVEL_STR ! i) < KEY_SIZE"
  by (simp_all add: section_names key_names KEY_SIZE_def bytes_of_def LEVEL_STR_def nth_Cons' )

lemma key_distinct:
  "KEY_UPSTREAMS \<noteq> KEY_MAX_RETRY_TIME" "KEY_UPSTREAMS \<noteq> KEY_PACKET_TIMEOUT" "KEY_MAX_RETRY_TIME \<noteq> KEY_PACKET_TIMEOUT"
  by (simp_all add: key_names bytes_of_def)

lemma section_distinct:
  "SERV_SECTION \<noteq> SECTION_DNS_RESOLVER" "SERV_SECTION \<noteq> LOG_SECTION" "SECTION_DNS_RESOLVER \<noteq> LOG_SECTION"
  by (simp_all add: section_names bytes_of_def)

text \<open>
  A read of an entry that is absent or has a result: it changes this entry at most.
\<close>

definition readable :: "Setting T \<Rightarrow> Conf \<Rightarrow> cstr \<Rightarrow> cstr \<Rightarrow> bool" where
  "readable tmp c s k \<longleftrightarrow> (case cfg_view c s k of None \<Rightarrow> True
     | Some x \<Rightarrow> get_result tmp k (hm_map (config_parsers c) s) x \<noteq> None)"

definition read_value :: "Setting T \<Rightarrow> Conf \<Rightarrow> cstr \<Rightarrow> cstr \<Rightarrow> int \<times> Setting T option" where
  "read_value tmp c s k = (case cfg_view c s k of None \<Rightarrow> (1, None)
     | Some x \<Rightarrow> (case the (get_result tmp k (hm_map (config_parsers c) s) x) of (e, out, y) \<Rightarrow> (e, out)))"

definition same_regs :: "Conf \<Rightarrow> Conf \<Rightarrow> bool" where
  "same_regs c c' \<longleftrightarrow> config_parsers c' = config_parsers c \<and> config_cleaners c' = config_cleaners c"

lemma get_total:
  assumes inv: "cfg_inv c" and len: "length s < KEY_SIZE" "length k < KEY_SIZE" and ok: "readable tmp c s k"
  shows "\<exists>c'. config_get (\<lambda>k. k) tmp s k c = Some (fst (read_value tmp c s k), snd (read_value tmp c s k), c') \<and>
    cfg_inv c' \<and> same_regs c c' \<and> (\<forall>s' k'. s' \<noteq> s \<or> k' \<noteq> k \<longrightarrow> cfg_view c' s' k' = cfg_view c s' k')"
proof (cases "cfg_view c s k")
  case None
  then show ?thesis using get_absent[OF inv len None] inv by (simp add: read_value_def same_regs_def)
next
  case (Some x)
  then obtain e out y where r: "get_result tmp k (hm_map (config_parsers c) s) x = Some (e, out, y)"
    using ok by (auto simp: readable_def simp del: hm_map.simps get_result.simps)
  have v: "read_value tmp c s k = (e, out)" by (simp add: read_value_def Some r del: hm_map.simps get_result.simps)
  obtain c' where "config_get (\<lambda>k. k) tmp s k c = Some (e, out, c')" "cfg_inv c'"
    "cfg_view c' = set_entry s k y (cfg_view c)" "same_regs c c'"
    using get_present[OF inv len Some r] by (auto simp: same_regs_def)
  then show ?thesis by (intro exI[of _ c']) (auto simp: v set_entry_def)
qed

lemma same_regs_trans: "same_regs a b \<Longrightarrow> same_regs b c \<Longrightarrow> same_regs a c"
  by (simp add: same_regs_def)

text \<open>An entry whose text is a number, or no entry and the default.\<close>

definition number_setting :: "Conf \<Rightarrow> cstr \<Rightarrow> cstr \<Rightarrow> int \<Rightarrow> int \<Rightarrow> bool" where
  "number_setting c s k dflt n \<longleftrightarrow> (case cfg_view c s k of None \<Rightarrow> n = dflt
     | Some x \<Rightarrow> (\<exists>t. x = \<lparr>is_cook = False, cfg_value = Text t\<rparr> \<and> atol t = Some n))"

lemma server_number:
  assumes "hm_map (config_parsers c) SERV_SECTION = Some (server_config_parser to_end le)"
    and "number_setting c SERV_SECTION k dflt n" "k = KEY_PACKET_TIMEOUT \<or> k = KEY_MAX_RETRY_TIME"
  shows "readable tmp c SERV_SECTION k" "number_or dflt (snd (read_value tmp c SERV_SECTION k)) = Some n"
  using assms key_distinct
  by (auto simp: number_setting_def readable_def read_value_def server_config_parser_def strcmp_zero Let_def
    simp del: hm_map.simps split: option.splits)

lemma settings_ok:
  assumes inv: "cfg_inv c" and t: "number_setting c SERV_SECTION KEY_PACKET_TIMEOUT VALUE_DEFAULT_REQUEST_TIMEOUT timeout"
    and r: "number_setting c SERV_SECTION KEY_MAX_RETRY_TIME VALUE_DEFAULT_MAX_RETRY_TIME retries"
    and u: "cfg_view c SERV_SECTION KEY_UPSTREAMS = Some \<lparr>is_cook = False, cfg_value = Text v\<rparr>"
    and v: "ips \<noteq> []" "\<forall>ip \<in> set ips. address_ok to_end ip" "v = join_commas ips \<or> v = COMMA # join_commas ips"
  shows "\<exists>l c'. server_settings to_end le (\<lambda>k. k) tmp c = Some (timeout, int_of_long retries, Some l, c') \<and>
    linv l \<and> lseq l = rev (map (endpoint_for to_end le) ips)"
proof -
  obtain c1 where c1: "config_register_parser (\<lambda>k. k) SERV_SECTION (server_config_parser to_end le) c = Some c1"
    "cfg_inv c1" "cfg_view c1 = cfg_view c"
    "hm_map (config_parsers c1) = (hm_map (config_parsers c))(SERV_SECTION \<mapsto> server_config_parser to_end le)"
    using register_ok(1)[OF inv name_lengths(1)] by blast
  obtain c2 where c2: "config_register_cleaner (\<lambda>k. k) SERV_SECTION server_config_cleaner c1 = Some c2"
    "cfg_inv c2" "cfg_view c2 = cfg_view c" "hm_map (config_parsers c2) SERV_SECTION = Some (server_config_parser to_end le)"
    using register_ok(2)[OF c1(2) name_lengths(1)] c1(3,4) by (metis fun_upd_same)
  note n2 = server_number[OF c2(4), of KEY_PACKET_TIMEOUT VALUE_DEFAULT_REQUEST_TIMEOUT timeout tmp]
  have t2: "number_setting c2 SERV_SECTION KEY_PACKET_TIMEOUT VALUE_DEFAULT_REQUEST_TIMEOUT timeout"
    using t by (simp add: number_setting_def c2(3))
  obtain c3 where c3: "config_get (\<lambda>k. k) tmp SERV_SECTION KEY_PACKET_TIMEOUT c2 =
      Some (fst (read_value tmp c2 SERV_SECTION KEY_PACKET_TIMEOUT), snd (read_value tmp c2 SERV_SECTION KEY_PACKET_TIMEOUT), c3)"
    "cfg_inv c3" "same_regs c2 c3" "\<forall>s' k'. s' \<noteq> SERV_SECTION \<or> k' \<noteq> KEY_PACKET_TIMEOUT \<longrightarrow> cfg_view c3 s' k' = cfg_view c2 s' k'"
    using get_total[OF c2(2) name_lengths(1,4) n2(1)[OF t2]] by blast
  have p3: "hm_map (config_parsers c3) SERV_SECTION = Some (server_config_parser to_end le)"
    using c2(4) c3(3) by (simp add: same_regs_def del: hm_map.simps)
  note n3 = server_number[OF p3, of KEY_MAX_RETRY_TIME VALUE_DEFAULT_MAX_RETRY_TIME retries tmp]
  have t3: "number_setting c3 SERV_SECTION KEY_MAX_RETRY_TIME VALUE_DEFAULT_MAX_RETRY_TIME retries"
    using r c3(4) key_distinct by (simp add: number_setting_def c2(3))
  obtain c4 where c4: "config_get (\<lambda>k. k) tmp SERV_SECTION KEY_MAX_RETRY_TIME c3 =
      Some (fst (read_value tmp c3 SERV_SECTION KEY_MAX_RETRY_TIME), snd (read_value tmp c3 SERV_SECTION KEY_MAX_RETRY_TIME), c4)"
    "cfg_inv c4" "same_regs c3 c4" "\<forall>s' k'. s' \<noteq> SERV_SECTION \<or> k' \<noteq> KEY_MAX_RETRY_TIME \<longrightarrow> cfg_view c4 s' k' = cfg_view c3 s' k'"
    using get_total[OF c3(2) name_lengths(1,5) n3(1)[OF t3]] by blast
  obtain l where l: "server_config_parser to_end le KEY_UPSTREAMS v = Some (0, Some (Object (UpstreamList (Some l))))"
    "linv l" "lseq l = rev (map (endpoint_for to_end le) ips)"
    using parse_upstreams[OF v, of le] by blast
  have u4: "cfg_view c4 SERV_SECTION KEY_UPSTREAMS = Some \<lparr>is_cook = False, cfg_value = Text v\<rparr>"
    using u c4(4) c3(4) key_distinct by (simp add: c2(3))
  have p4: "hm_map (config_parsers c4) SERV_SECTION = Some (server_config_parser to_end le)"
    using p3 c4(3) by (simp add: same_regs_def del: hm_map.simps)
  have g4: "get_result tmp KEY_UPSTREAMS (hm_map (config_parsers c4) SERV_SECTION) \<lparr>is_cook = False, cfg_value = Text v\<rparr> =
      Some (0, Some (Object (UpstreamList (Some l))), \<lparr>is_cook = True, cfg_value = Object (UpstreamList (Some l))\<rparr>)"
    by (simp add: p4 l(1) Let_def del: hm_map.simps)
  obtain c5 where c5: "config_get (\<lambda>k. k) tmp SERV_SECTION KEY_UPSTREAMS c4 = Some (0, Some (Object (UpstreamList (Some l))), c5)"
    using get_present[OF c4(2) name_lengths(1,6) u4 g4] by blast
  show ?thesis using l(2,3)
    by (intro exI[of _ l] exI[of _ c5]) (simp add: server_settings_def c1(1) c2(1) c3(1) c4(1) c5 n2(2)[OF t2] n3(2)[OF t3])
qed

lemma resolver_init:
  assumes "cfg_inv c" and "cfg_view c SECTION_DNS_RESOLVER KEY_USE_CACHE = None \<or>
      cfg_view c SECTION_DNS_RESOLVER KEY_USE_CACHE = Some \<lparr>is_cook = False, cfg_value = Text t\<rparr>"
  shows "\<exists>c'. dns_resolver_init (\<lambda>k. k) (Object (Number g)) c =
      Some (0, if cfg_view c SECTION_DNS_RESOLVER KEY_USE_CACHE = None then 1 else int_of_long g, c') \<and> cfg_inv c' \<and>
    config_cleaners c' = config_cleaners c \<and>
    (\<forall>s k. s \<noteq> SECTION_DNS_RESOLVER \<longrightarrow> cfg_view c' s k = cfg_view c s k)"
proof -
  obtain c1 where c1: "config_register_parser (\<lambda>k. k) SECTION_DNS_RESOLVER dns_resolver_config_parser c = Some c1"
    "cfg_inv c1" "cfg_view c1 = cfg_view c"
    "hm_map (config_parsers c1) = (hm_map (config_parsers c))(SECTION_DNS_RESOLVER \<mapsto> dns_resolver_config_parser)"
    "config_cleaners c1 = config_cleaners c"
    using register_ok(1)[OF assms(1) name_lengths(2)] by blast
  have p: "dns_resolver_config_parser KEY_USE_CACHE t = Some (0, None)"
    by (simp add: dns_resolver_config_parser_def strcasecmp_def strcmp_zero)
  have r: "readable (Object (Number g)) c1 SECTION_DNS_RESOLVER KEY_USE_CACHE"
    "read_value (Object (Number g)) c1 SECTION_DNS_RESOLVER KEY_USE_CACHE =
      (if cfg_view c SECTION_DNS_RESOLVER KEY_USE_CACHE = None then (1, None) else (0, Some (Object (Number g))))"
    using assms(2) by (auto simp: readable_def read_value_def c1(3,4) p Let_def)
  obtain c2 where c2: "config_get (\<lambda>k. k) (Object (Number g)) SECTION_DNS_RESOLVER KEY_USE_CACHE c1 =
      Some (fst (read_value (Object (Number g)) c1 SECTION_DNS_RESOLVER KEY_USE_CACHE),
        snd (read_value (Object (Number g)) c1 SECTION_DNS_RESOLVER KEY_USE_CACHE), c2)"
    "cfg_inv c2" "same_regs c1 c2"
    "\<forall>s k. s \<noteq> SECTION_DNS_RESOLVER \<or> k \<noteq> KEY_USE_CACHE \<longrightarrow> cfg_view c2 s k = cfg_view c1 s k"
    using get_total[OF c1(2) name_lengths(2,7) r(1)] by blast
  have "int_of_long 1 = 1" by (simp add: int_of_long_def c_int_def)
  then show ?thesis using c2 c1(3,5)
    by (intro exI[of _ c2]) (auto simp: dns_resolver_init_def c1(1) r(2) VALUE_DEFAULT_USE_CACHE_def same_regs_def)
qed

text \<open>
  The setting \<open>usecache\<close> is never read: whatever its text, \<open>dns_resolver_init\<close> reports
  success and takes for it what the uninitialised result variable of \<open>config_get\<close> holds, for
  the parser skips the very key it is for. Without the setting the cache is used.
\<close>

theorem usecache_not_parsed:
  assumes "cfg_inv c" and "cfg_view c SECTION_DNS_RESOLVER KEY_USE_CACHE = None \<or>
      cfg_view c SECTION_DNS_RESOLVER KEY_USE_CACHE = Some \<lparr>is_cook = False, cfg_value = Text t\<rparr>"
  shows "\<exists>c'. dns_resolver_init (\<lambda>k. k) (Object (Number g)) c =
      Some (0, if cfg_view c SECTION_DNS_RESOLVER KEY_USE_CACHE = None then 1 else int_of_long g, c') \<and> cfg_inv c' \<and>
    config_cleaners c' = config_cleaners c \<and>
    (\<forall>s k. s \<noteq> SECTION_DNS_RESOLVER \<longrightarrow> cfg_view c' s k = cfg_view c s k)"
  by (rule resolver_init[OF assms])

theorem usecache_not_parsed_witness:
  "\<exists>c c1 c2. config_init = Some (0, c) \<and>
     config_inject (\<lambda>k. k) SECTION_DNS_RESOLVER KEY_USE_CACHE (bytes_of ''0'') c = Some (0, c1) \<and>
     dns_resolver_init (\<lambda>k. k) (Object (Number 7)) c1 = Some (0, 7, c2)"
proof -
  obtain c :: Conf where c: "config_init = Some (0, c)" "cfg_inv c" "cfg_view c = (\<lambda>s k. None)"
    using init_ok[where ?'v = Setting] by blast
  have "cleanable SECTION_DNS_RESOLVER KEY_USE_CACHE c" by (simp add: cleanable_def c(3))
  from store_ok[OF c(2) this] obtain c1 where
    c1: "config_inject (\<lambda>k. k) SECTION_DNS_RESOLVER KEY_USE_CACHE (bytes_of ''0'') c = Some (0, c1)" "cfg_inv c1"
    "cfg_view c1 SECTION_DNS_RESOLVER KEY_USE_CACHE = Some \<lparr>is_cook = False, cfg_value = Text (bytes_of ''0'')\<rparr>"
    unfolding config_inject_def set_entry_def by fastforce
  have "int_of_long 7 = 7" by (simp add: int_of_long_def c_int_def)
  then show ?thesis using usecache_not_parsed[OF c1(2) disjI2[OF c1(3)], of 7] c(1) c1(1,3) by auto
qed

end
