(* ===== verification/Ip_Table.thy ===== *)
theory Ip_Table
  imports C_Library Dns_Resolver
begin

text \<open>
  The table of fixed addresses: \<open>load_ip_table\<close> of \<^verbatim>\<open>src/dns/dns_cache.c\<close>, which reads lines
  \<open>domain=address\<close>, groups the records of the same name and type and puts each group into the
  cache, and \<open>rr_make_from_config_pair\<close> of \<^verbatim>\<open>src/dns/dns_resolver.c\<close>. \<open>inet_pton\<close> is a
  parameter for each family. The vectors of records and keys appear as lists; the vectors of
  the groups have addresses, for the map holds pointers to them.
\<close>

section \<open>Records\<close>

text \<open>\<open>None\<close> is the \<open>NULL\<close> of a failure.\<close>

definition rr_make_from_config_pair :: "(cstr \<Rightarrow> byte list option) \<Rightarrow> (cstr \<Rightarrow> byte list option)
    \<Rightarrow> cstr option \<Rightarrow> uint32_t \<Rightarrow> uint16_t \<Rightarrow> cstr option \<Rightarrow> ResourceRecord option" where
  "rr_make_from_config_pair pton4 pton6 name live_time type data = do {
     n \<leftarrow> name;
     d \<leftarrow> data;
     enc \<leftarrow> encode_name (Some n);
     let rr = (\<lambda>len block. \<lparr>rr_name = enc, rr_type = type, rr_class = QCLASS_IN, ttl = live_time,
                            rdata_length = len, rdata = block\<rparr>);
     if type = QTYPE_A then do { a \<leftarrow> pton4 d; Some (rr 4 a) }
     else if type = QTYPE_AAAA then do { a \<leftarrow> pton6 d; Some (rr 16 a) }
     else if type = QTYPE_CNAME then do {
       target \<leftarrow> encode_name (Some d);
       Some (rr (word_of_nat (length target + 1)) (target @ [0])) }
     else None }"

section \<open>Lines\<close>

definition rtrim :: "cstr \<Rightarrow> cstr" where
  "rtrim s = rev (dropWhile isspace (rev s))"

text \<open>The domain and the address of a line, if it has both.\<close>

definition split_line :: "byte list \<Rightarrow> (cstr \<times> cstr) option" where
  "split_line line =
     (let p = dropWhile isspace (c_string line)
      in if p = [] \<or> hd p = NEWLINE \<or> hd p = HASH then None
         else if EQUALS \<notin> set p then None
         else (let domain = rtrim (takeWhile (\<lambda>b. b \<noteq> EQUALS) p);
                   ip_str = rtrim (dropWhile isspace (tl (dropWhile (\<lambda>b. b \<noteq> EQUALS) p)))
               in if domain = [] \<or> ip_str = [] then None else Some (domain, ip_str)))"

definition line_record :: "(cstr \<Rightarrow> byte list option) \<Rightarrow> (cstr \<Rightarrow> byte list option) \<Rightarrow> byte list
    \<Rightarrow> ResourceRecord option" where
  "line_record pton4 pton6 line = do {
     (domain, ip_str) \<leftarrow> split_line line;
     type \<leftarrow> (if pton4 ip_str \<noteq> None then Some QTYPE_A
             else if pton6 ip_str \<noteq> None then Some QTYPE_AAAA else None);
     rr_make_from_config_pair pton4 pton6 (Some domain) UINT32_MAX type (Some ip_str) }"

section \<open>Groups\<close>

record TableGroups =
  rr_groups :: "(cstr, addr) HashMap option"
  group_keys :: "cstr list"
  group_mem :: "addr \<rightharpoonup> ResourceRecord list"
  next_group :: addr

text \<open>\<open>snprintf\<close> into an array of 512 bytes.\<close>

definition group_key :: "ResourceRecord \<Rightarrow> cstr" where
  "group_key rr = take 511 (decimal (unat (rr_type rr)) @ BAR # rr_name rr)"

definition add_record :: "ResourceRecord \<Rightarrow> TableGroups \<Rightarrow> TableGroups option" where
  "add_record rr g = do {
     let key = group_key rr;
     (r, found) \<leftarrow> hash_map_get (rr_groups g) key;
     (a, g1) \<leftarrow> (if r \<noteq> 0
        then do {
          let a = next_group g;
          (r1, t) \<leftarrow> hash_map_put (rr_groups g) key a;
          Some (a, g\<lparr>rr_groups := t, group_keys := group_keys g @ [key],
                     group_mem := (group_mem g)(a \<mapsto> []), next_group := a + 1\<rparr>) }
        else do { a \<leftarrow> found; Some (a, g) });
     rs \<leftarrow> group_mem g1 a;
     Some (g1\<lparr>group_mem := (group_mem g1)(a \<mapsto> rs @ [rr])\<rparr>) }"

definition TABLE_LINE_SIZE :: nat where "TABLE_LINE_SIZE = 512"

function table_lines :: "(byte list \<Rightarrow> ResourceRecord option) \<Rightarrow> byte list \<Rightarrow> byte list \<Rightarrow> TableGroups
    \<Rightarrow> TableGroups option" where
  "table_lines read line file g =
     (case fgets TABLE_LINE_SIZE line file of
        None \<Rightarrow> Some g
      | Some (line1, rest) \<Rightarrow>
          (case read line1 of
             None \<Rightarrow> table_lines read line1 rest g
           | Some rr \<Rightarrow> do { g1 \<leftarrow> add_record rr g; table_lines read line1 rest g1 }))"
  by pat_completeness auto
termination
  by (relation "measure (\<lambda>(read, line, file, g). length file)")
    (auto dest: fgets_shorter simp: TABLE_LINE_SIZE_def)

declare table_lines.simps [simp del]

text \<open>
  The loop that fills the cache, over the keys from the \<open>i\<close>-th on. A group is freed when it
  has been put: were a key listed twice, its vector would be read after that.
\<close>

fun store_groups :: "(nat \<Rightarrow> ms) \<Rightarrow> nat \<Rightarrow> cstr list \<Rightarrow> TableGroups \<Rightarrow> DnsCache option \<Rightarrow> DnsCache option option" where
  "store_groups clock i [] g c = Some c"
| "store_groups clock i (key # keys) g c = do {
     (r, found) \<leftarrow> hash_map_get (rr_groups g) key;
     if r \<noteq> 0 then store_groups clock (Suc i) keys g c
     else do {
       a \<leftarrow> found;
       rs \<leftarrow> group_mem g a;
       if BAR \<notin> set key then store_groups clock (Suc i) keys g c
       else do {
         group_type \<leftarrow> atoi key;
         let qname = tl (dropWhile (\<lambda>b. b \<noteq> BAR) key);
         (r1, c1) \<leftarrow> dns_cache_put (clock i) (Some qname) (word_of_int group_type) QCLASS_IN
           \<lparr>cv_answer = word_of_nat (length rs), cv_authority = 0, cv_additional = 0, cv_rrs = Some rs\<rparr> c;
         store_groups clock (Suc i) keys (g\<lparr>group_mem := (group_mem g)(a := None)\<rparr>) c1 } } }"

text \<open>\<open>file\<close> is what \<open>fopen\<close> gives, \<open>line\<close> the line buffer before it is written.\<close>

definition load_ip_table :: "(cstr \<Rightarrow> byte list option) \<Rightarrow> (cstr \<Rightarrow> byte list option) \<Rightarrow> (nat \<Rightarrow> ms)
    \<Rightarrow> byte list \<Rightarrow> byte list option \<Rightarrow> DnsCache option \<Rightarrow> (int \<times> DnsCache option) option" where
  "load_ip_table pton4 pton6 clock line file c =
     (case file of
        None \<Rightarrow> Some (1, c)
      | Some bytes \<Rightarrow> do {
          t \<leftarrow> hash_map_create (Some hash_func_str) (Some (\<lambda>a b. compare_cstr (Some a) (Some b)));
          g \<leftarrow> table_lines (line_record pton4 pton6) line bytes
            \<lparr>rr_groups = t, group_keys = [], group_mem = Map.empty, next_group = 0\<rparr>;
          c1 \<leftarrow> store_groups clock 0 (group_keys g) g c;
          Some (0, c1) })"

section \<open>Grouping\<close>

text \<open>What the groups are after the records \<open>rs\<close>: each key has the records with it, in order.\<close>

definition groups_rep :: "TableGroups \<Rightarrow> ResourceRecord list \<Rightarrow> bool" where
  "groups_rep g rs \<longleftrightarrow> hm_inv (rr_groups g) \<and> distinct (group_keys g) \<and>
     set (group_keys g) = group_key ` set rs \<and> dom (hm_map (rr_groups g)) = set (group_keys g) \<and>
     (\<forall>k a. hm_map (rr_groups g) k = Some a \<longrightarrow>
        a < next_group g \<and> group_mem g a = Some (filter (\<lambda>r. group_key r = k) rs)) \<and>
     (\<forall>k k' a. hm_map (rr_groups g) k = Some a \<longrightarrow> hm_map (rr_groups g) k' = Some a \<longrightarrow> k = k')"

lemma groups_repD:
  assumes "groups_rep g rs"
  shows "hm_inv (rr_groups g)" "distinct (group_keys g)" "set (group_keys g) = group_key ` set rs"
    "dom (hm_map (rr_groups g)) = set (group_keys g)"
    "hm_map (rr_groups g) k = Some a \<Longrightarrow>
       a < next_group g \<and> group_mem g a = Some (filter (\<lambda>r. group_key r = k) rs)"
    "hm_map (rr_groups g) k = Some a \<Longrightarrow> hm_map (rr_groups g) k' = Some a \<Longrightarrow> k = k'"
  using assms unfolding groups_rep_def by blast+

lemma add_record_rep:
  assumes rep: "groups_rep g rs"
  shows "\<exists>g'. add_record rr g = Some g' \<and> groups_rep g' (rs @ [rr])"
proof (cases "hm_map (rr_groups g) (group_key rr)")
  case (Some a)
  note G = groups_repD[OF rep]
  let ?g = "g\<lparr>group_mem := (group_mem g)(a \<mapsto> filter (\<lambda>r. group_key r = group_key rr) rs @ [rr])\<rparr>"
  have "add_record rr g = Some ?g"
    using hmap.get_law[OF G(1), of "group_key rr"] Some G(5)[OF Some]
    by (simp add: add_record_def Let_def del: hm_map.simps hash_map_get.simps)
  moreover have "group_key rr \<in> set (group_keys g)" using Some G(4) by auto
  moreover have "group_mem ?g b = Some (filter (\<lambda>r. group_key r = k) (rs @ [rr]))"
    if "hm_map (rr_groups g) k = Some b" for k b
  proof (cases "k = group_key rr")
    case True
    then show ?thesis using that Some by simp
  next
    case False
    then have "b \<noteq> a" using G(6)[OF that] Some by auto
    then show ?thesis using G(5)[OF that] False by simp
  qed
  ultimately show ?thesis using rep unfolding groups_rep_def by (intro exI[of _ ?g]) auto
next
  case None
  note G = groups_repD[OF rep]
  let ?a = "next_group g" and ?k = "group_key rr"
  obtain t where t: "hash_map_put (rr_groups g) ?k ?a = Some (0, t)" "hm_inv t"
    "hm_map t = (hm_map (rr_groups g))(?k \<mapsto> ?a)"
    using hmap.put_law[OF G(1), of ?k ?a] None by auto
  let ?g = "g\<lparr>rr_groups := t, group_keys := group_keys g @ [?k], group_mem := (group_mem g)(?a \<mapsto> [rr]), next_group := Suc ?a\<rparr>"
  have eq: "add_record rr g = Some ?g"
    using hmap.get_law[OF G(1), of ?k] None t(1)
    by (simp add: add_record_def Let_def del: hm_map.simps hash_map_get.simps hash_map_put.simps)
  have new: "?k \<notin> set (group_keys g)" using None G(4) by auto
  then have none: "filter (\<lambda>r. group_key r = ?k) rs = []" 
    unfolding G(3) by (auto simp: filter_empty_conv intro: rev_image_eqI)
  have old: "hm_map (rr_groups g) k \<noteq> Some ?a" for k using G(5)[of k ?a] by auto
  have "groups_rep ?g (rs @ [rr])"
    unfolding groups_rep_def
  proof (intro conjI allI impI)
    fix k b assume "hm_map (rr_groups ?g) k = Some b"
    then show "b < next_group ?g" "group_mem ?g b = Some (filter (\<lambda>r. group_key r = k) (rs @ [rr]))"
      using G(5)[of k b] none by (auto simp: t simp del: hm_map.simps split: if_splits)
  next
    fix k k' b assume "hm_map (rr_groups ?g) k = Some b" "hm_map (rr_groups ?g) k' = Some b"
    then show "k = k'" using G(6)[of k b k'] old by (auto simp: t simp del: hm_map.simps split: if_splits)
  qed (use G new t in \<open>auto simp del: hm_map.simps\<close>)
  with eq show ?thesis by blast
qed

section \<open>Filling the cache\<close>

text \<open>The records the table makes: of one of the two address types, with a name that fits.\<close>

definition table_record :: "ResourceRecord \<Rightarrow> bool" where
  "table_record r \<longleftrightarrow> (rr_type r = QTYPE_A \<or> rr_type r = QTYPE_AAAA) \<and> length (rr_name r) \<le> 255 \<and>
     unat (rdata_length r) = length (rdata r) \<and> ttl r = UINT32_MAX"

definition table_group :: "ResourceRecord list \<Rightarrow> uint16_t \<Rightarrow> cstr \<Rightarrow> ResourceRecord list" where
  "table_group rs type name = filter (\<lambda>r. rr_type r = type \<and> rr_name r = name) rs"

definition table_value :: "ResourceRecord list \<Rightarrow> CacheValue" where
  "table_value rs = \<lparr>cv_answer = word_of_nat (length rs), cv_authority = 0, cv_additional = 0, cv_rrs = Some rs\<rparr>"

lemma decimal_types: "decimal (unat QTYPE_A) = [49]" "decimal (unat QTYPE_AAAA) = [50, 56]"
  by (simp_all add: QTYPE_A_def QTYPE_AAAA_def decimal.simps[of "Suc 0"] decimal.simps[of 28] decimal.simps[of 2])

lemma group_key_full:
  assumes "table_record r"
  shows "group_key r = decimal (unat (rr_type r)) @ BAR # rr_name r"
proof -
  have "length (decimal (unat (rr_type r))) \<le> 2" using assms decimal_types by (auto simp: table_record_def)
  then have "length (decimal (unat (rr_type r)) @ BAR # rr_name r) \<le> 511"
    using assms unfolding table_record_def length_append list.size by linarith
  then show ?thesis by (simp only: group_key_def take_all)
qed

lemma group_key_inj:
  assumes "table_record r" "table_record r'"
  shows "group_key r = group_key r' \<longleftrightarrow> rr_type r = rr_type r' \<and> rr_name r = rr_name r'"
proof
  assume "group_key r = group_key r'"
  then have "decimal (unat (rr_type r)) @ BAR # rr_name r = decimal (unat (rr_type r')) @ BAR # rr_name r'"
    using group_key_full assms by simp
  then show "rr_type r = rr_type r' \<and> rr_name r = rr_name r'"
    using split_at_sep[OF BAR_not_digit BAR_not_digit] decimal_inj by (metis word_unat_eq_iff)
qed (simp add: group_key_def)

lemma group_key_parts:
  assumes "table_record r"
  shows "BAR \<in> set (group_key r)" "tl (dropWhile (\<lambda>b. b \<noteq> BAR) (group_key r)) = rr_name r"
    "atoi (group_key r) = Some (uint (rr_type r))"
proof -
  have "dropWhile (\<lambda>b. b \<noteq> BAR) (decimal n @ BAR # xs) = BAR # xs" for n xs
    using BAR_not_digit[of n] by (auto simp: dropWhile_append)
  then show "BAR \<in> set (group_key r)" "tl (dropWhile (\<lambda>b. b \<noteq> BAR) (group_key r)) = rr_name r"
    unfolding group_key_full[OF assms] by simp_all
  have "atoi (decimal (unat (rr_type r)) @ BAR # xs) = Some (uint (rr_type r))" for xs
    using assms decimal_types
    by (auto simp: table_record_def atoi_def leading_number_def digits_value_def digit_def isspace_def BAR_def
      QTYPE_A_def QTYPE_AAAA_def)
  then show "atoi (group_key r) = Some (uint (rr_type r))" unfolding group_key_full[OF assms] by simp
qed

definition record_cache_key :: "ResourceRecord \<Rightarrow> cstr" where
  "record_cache_key r = cache_key_create (rr_name r) (rr_type r) QCLASS_IN"

lemma put_fresh:
  assumes abs: "cache_abs cap c L" and v: "value_ok v" and new: "cache_key_create name qt qc \<notin> fst ` set L"
    and room: "int (length L) < cap"
  shows "\<exists>c'. dns_cache_put now (Some name) qt qc v (Some c) = Some (0, Some c') \<and>
    cache_abs cap c' ((cache_key_create name qt qc, v, now) # L)"
proof -
  have "cv_rrs v \<noteq> None" using v by (auto simp: value_ok_def split: option.splits)
  then have "lru_put cap now (cache_key_create name qt qc) v L = (0, (cache_key_create name qt qc, v, now) # L)"
    using new room by (simp add: lru_put_def)
  then show ?thesis using put_refines[OF abs, of v now name qt qc] v by auto
qed

text \<open>The groups still to be stored, as the loop finds them.\<close>

definition groups_at :: "TableGroups \<Rightarrow> ResourceRecord list \<Rightarrow> cstr list \<Rightarrow> bool" where
  "groups_at g rs keys \<longleftrightarrow> hm_inv (rr_groups g) \<and>
     (\<forall>k \<in> set keys. \<exists>a. hm_map (rr_groups g) k = Some a \<and> group_mem g a = Some (filter (\<lambda>r. group_key r = k) rs)) \<and>
     (\<forall>k k' a. hm_map (rr_groups g) k = Some a \<longrightarrow> hm_map (rr_groups g) k' = Some a \<longrightarrow> k = k')"

lemma store_groups_rep:
  assumes "cache_abs cap c L" and "groups_at g rs (map group_key reps)" and "distinct (map group_key reps)"
    and "\<forall>r \<in> set rs. table_record r" and "set reps \<subseteq> set rs"
    and "\<forall>r \<in> set reps. record_cache_key r \<notin> fst ` set L" and "int (length L + length reps) \<le> cap"
  shows "\<exists>c' L'. store_groups clock i (map group_key reps) g (Some c) = Some (Some c') \<and> cache_abs cap c' L' \<and>
    (\<forall>(k, v, t) \<in> set L'. (k, v, t) \<in> set L \<or>
       (\<exists>r \<in> set reps. k = record_cache_key r \<and> v = table_value (table_group rs (rr_type r) (rr_name r)))) \<and>
    fst ` set L' = fst ` set L \<union> record_cache_key ` set reps"
  using assms
proof (induction reps arbitrary: c L g i)
  case Nil
  then show ?case by (intro exI[of _ c] exI[of _ L]) auto
next
  case (Cons r reps)
  have tr: "table_record r" using Cons.prems(4,5) by auto
  let ?k = "group_key r" and ?v = "table_value (table_group rs (rr_type r) (rr_name r))"
  have f: "filter (\<lambda>x. group_key x = ?k) rs = table_group rs (rr_type r) (rr_name r)"
    unfolding table_group_def using group_key_inj tr Cons.prems(4) by (intro filter_cong) auto
  obtain a where a: "hm_map (rr_groups g) ?k = Some a" "group_mem g a = Some (table_group rs (rr_type r) (rr_name r))"
    using Cons.prems(2) unfolding groups_at_def list.map f[symmetric] by fastforce
  have vok: "value_ok ?v" using Cons.prems(4) by (auto simp: value_ok_def table_value_def table_group_def table_record_def)
  obtain c1 where c1: "dns_cache_put (clock i) (Some (rr_name r)) (rr_type r) QCLASS_IN ?v (Some c) = Some (0, Some c1)"
    "cache_abs cap c1 ((record_cache_key r, ?v, clock i) # L)"
    using put_fresh[OF Cons.prems(1) vok, of "rr_name r" "rr_type r" QCLASS_IN "clock i"] Cons.prems(6,7)
    by (auto simp: record_cache_key_def)
  let ?g = "g\<lparr>group_mem := (group_mem g)(a := None)\<rparr>"
  have inv: "hm_inv (rr_groups g)" using Cons.prems(2) by (simp add: groups_at_def)
  have step: "store_groups clock i (map group_key (r # reps)) g (Some c) =
      store_groups clock (Suc i) (map group_key reps) ?g (Some c1)"
    using hmap.get_law[OF inv, of ?k] a group_key_parts[OF tr] c1(1)
    by (simp add: table_value_def Let_def del: hm_map.simps hash_map_get.simps dns_cache_put.simps)
  have g: "groups_at ?g rs (map group_key reps)"
    unfolding groups_at_def
  proof (intro conjI ballI allI impI)
    fix k assume k: "k \<in> set (map group_key reps)"
    then obtain b where b: "hm_map (rr_groups g) k = Some b" "group_mem g b = Some (filter (\<lambda>r. group_key r = k) rs)"
      using Cons.prems(2) unfolding groups_at_def by auto
    have "k \<noteq> ?k" using k Cons.prems(3) by (metis distinct.simps(2) list.map(2))
    then have "b \<noteq> a" using b(1) a(1) Cons.prems(2) unfolding groups_at_def by blast
    then show "\<exists>a. hm_map (rr_groups ?g) k = Some a \<and> group_mem ?g a = Some (filter (\<lambda>r. group_key r = k) rs)"
      using b by auto
  qed (use Cons.prems(2) in \<open>auto simp: groups_at_def simp del: hm_map.simps\<close>)
  have new: "\<forall>x \<in> set reps. record_cache_key x \<notin> fst ` set ((record_cache_key r, ?v, clock i) # L)"
  proof
    fix x assume x: "x \<in> set reps"
    then have "group_key x \<noteq> ?k" using Cons.prems(3) by (metis distinct.simps(2) image_eqI image_set list.map(2))
    then have "record_cache_key x \<noteq> record_cache_key r"
      using group_key_inj[of x r] x tr Cons.prems(4,5) by (auto simp: record_cache_key_def cache_key_inj)
    then show "record_cache_key x \<notin> fst ` set ((record_cache_key r, ?v, clock i) # L)" using x Cons.prems(6) by auto
  qed
  obtain c' L' where IH: "store_groups clock (Suc i) (map group_key reps) ?g (Some c1) = Some (Some c')" "cache_abs cap c' L'"
    "\<forall>(k, v, t) \<in> set L'. (k, v, t) \<in> set ((record_cache_key r, ?v, clock i) # L) \<or>
       (\<exists>r \<in> set reps. k = record_cache_key r \<and> v = table_value (table_group rs (rr_type r) (rr_name r)))"
    "fst ` set L' = fst ` set ((record_cache_key r, ?v, clock i) # L) \<union> record_cache_key ` set reps"
    using Cons.IH[OF c1(2) g, of "Suc i"] Cons.prems(3,4,5,7) new by auto
  show ?case using step IH by (intro exI[of _ c'] exI[of _ L']) auto
qed

section \<open>Loading\<close>

fun table_bytes :: "byte list list \<Rightarrow> byte list" where
  "table_bytes [] = []"
| "table_bytes (l # ls) = l @ NEWLINE # table_bytes ls"

text \<open>What a line stands for does not depend on the bytes behind it in the buffer.\<close>

lemma line_record_tail: "line_record p4 p6 (l @ NEWLINE # 0 # tail) = line_record p4 p6 (l @ [NEWLINE])"
proof -
  have "c_string (l @ NEWLINE # 0 # tail) = c_string (l @ [NEWLINE])"
    by (induction l) (simp_all add: c_string_def NEWLINE_def)
  then show ?thesis by (simp add: line_record_def split_line_def)
qed

definition table_records :: "(cstr \<Rightarrow> byte list option) \<Rightarrow> (cstr \<Rightarrow> byte list option) \<Rightarrow> byte list list \<Rightarrow> ResourceRecord list" where
  "table_records p4 p6 lines = List.map_filter (\<lambda>l. line_record p4 p6 (l @ [NEWLINE])) lines"

lemma table_lines_rep:
  assumes "groups_rep g rs" and "\<forall>l \<in> set lines. NEWLINE \<notin> set l \<and> length l \<le> 510"
  shows "\<exists>g'. table_lines (line_record p4 p6) line (table_bytes lines) g = Some g' \<and>
    groups_rep g' (rs @ table_records p4 p6 lines)"
  using assms
proof (induction lines arbitrary: g rs line)
  case Nil
  then show ?case by (simp add: table_lines.simps fgets_end table_records_def map_filter_simps)
next
  case (Cons l lines)
  let ?line = "l @ NEWLINE # 0 # drop (length l + 2) line"
  have f: "fgets TABLE_LINE_SIZE line (l @ NEWLINE # table_bytes lines) = Some (?line, table_bytes lines)"
    using fgets_line[of l TABLE_LINE_SIZE line] Cons.prems(2) by (simp add: TABLE_LINE_SIZE_def)
  show ?case
  proof (cases "line_record p4 p6 (l @ [NEWLINE])")
    case None
    then show ?thesis using Cons.IH[OF Cons.prems(1)] Cons.prems(2)
      by (subst table_lines.simps) (simp add: f line_record_tail table_records_def map_filter_simps)
  next
    case (Some rr)
    obtain g1 where g1: "add_record rr g = Some g1" "groups_rep g1 (rs @ [rr])"
      using add_record_rep[OF Cons.prems(1)] by blast
    show ?thesis using Cons.IH[OF g1(2)] Cons.prems(2) Some g1(1)
      by (subst table_lines.simps) (simp add: f line_record_tail table_records_def map_filter_simps)
  qed
qed

lemma pick_reps:
  assumes "distinct keys" "set keys = f ` set rs"
  shows "\<exists>reps. map f reps = keys \<and> set reps \<subseteq> set rs"
  using assms(2)[THEN equalityD1]
proof (induction keys)
  case (Cons k keys)
  then obtain reps r where "map f reps = keys" "set reps \<subseteq> set rs" "r \<in> set rs" "f r = k" by auto
  then show ?case by (intro exI[of _ "r # reps"]) simp
qed simp

definition table_questions :: "ResourceRecord list \<Rightarrow> (uint16_t \<times> cstr) set" where
  "table_questions rs = (\<lambda>r. (rr_type r, rr_name r)) ` set rs"

lemma card_same_classes:
  "finite S \<Longrightarrow> \<forall>x \<in> S. \<forall>y \<in> S. f x = f y \<longleftrightarrow> g x = g y \<Longrightarrow> card (f ` S) = card (g ` S)"
proof (induction S rule: finite_induct)
  case (insert x S)
  then have "f x \<in> f ` S \<longleftrightarrow> g x \<in> g ` S" by (auto simp: image_iff)
  with insert show ?case by (simp add: card_insert_if)
qed simp

text \<open>
  After the loading the cache holds one value for each name and type of the table, with the
  records for it in the order of the file.
\<close>

lemma load_rep:
  assumes rs_def: "rs = table_records p4 p6 lines" and abs: "cache_abs cap c []" and lines: "\<forall>l \<in> set lines. NEWLINE \<notin> set l \<and> length l \<le> 510"
    and recs: "\<forall>r \<in> set rs. table_record r" and room: "int (card (table_questions rs)) \<le> cap"
  shows "\<exists>c' L. load_ip_table p4 p6 clock line (Some (table_bytes lines)) (Some c) = Some (0, Some c') \<and>
    cache_abs cap c' L \<and>
    (\<forall>(k, v, t) \<in> set L. \<exists>r \<in> set rs. k = record_cache_key r \<and> v = table_value (table_group rs (rr_type r) (rr_name r))) \<and>
    fst ` set L = record_cache_key ` set rs"
proof -
  obtain m :: "(cstr, addr) HashMap" where m:
    "hash_map_create (Some hash_func_str) (Some (\<lambda>a b. compare_cstr (Some a) (Some b))) = Some (Some m)"
    "hm_rep m" "hm_map (Some m) = Map.empty"
    using create_hm_rep[of "\<lambda>a b. compare_cstr (Some a) (Some b)" hash_func_str]
    unfolding compare_cstr_zero option.inject by blast
  let ?g0 = "\<lparr>rr_groups = Some m, group_keys = [], group_mem = Map.empty, next_group = 0\<rparr>"
  have "groups_rep ?g0 []" using m by (simp add: groups_rep_def hm_inv_def del: hm_map.simps)
  then obtain g where g: "table_lines (line_record p4 p6) line (table_bytes lines) ?g0 = Some g" "groups_rep g rs"
    using table_lines_rep[of ?g0 "[]" lines p4 p6 line] lines unfolding rs_def by auto
  note G = groups_repD[OF g(2)]
  obtain reps where reps: "map group_key reps = group_keys g" "set reps \<subseteq> set rs"
    using pick_reps[OF G(2,3)] by blast
  have at: "groups_at g rs (map group_key reps)"
    unfolding groups_at_def reps(1)
  proof (intro conjI ballI allI impI)
    fix k assume "k \<in> set (group_keys g)"
    then obtain a where "hm_map (rr_groups g) k = Some a" using G(4) by blast
    then show "\<exists>a. hm_map (rr_groups g) k = Some a \<and> group_mem g a = Some (filter (\<lambda>r. group_key r = k) rs)"
      using G(5) by blast
  qed (use G in blast)+
  have dist: "distinct (map group_key reps)" using G(2) reps(1) by simp
  have key: "group_key x = group_key y \<longleftrightarrow> (rr_type x, rr_name x) = (rr_type y, rr_name y)"
    if "x \<in> set rs" "y \<in> set rs" for x y using group_key_inj that recs by simp
  have "length reps = card (group_key ` set rs)" using G(2,3) reps(1) by (metis distinct_card length_map)
  also have "\<dots> = card (table_questions rs)"
    unfolding table_questions_def
    by (rule card_same_classes) (use key in auto)
  finally have n: "int (length reps) \<le> cap" using room by simp
  obtain c' L where s: "store_groups clock 0 (map group_key reps) g (Some c) = Some (Some c')" "cache_abs cap c' L"
    "\<forall>(k, v, t) \<in> set L. (k, v, t) \<in> set [] \<or>
       (\<exists>r \<in> set reps. k = record_cache_key r \<and> v = table_value (table_group rs (rr_type r) (rr_name r)))"
    "fst ` set L = fst ` set [] \<union> record_cache_key ` set reps"
    using store_groups_rep[OF abs at dist recs reps(2), of clock 0] n by auto
  have "record_cache_key ` set reps = record_cache_key ` set rs"
  proof (rule equalityI)
    show "record_cache_key ` set rs \<subseteq> record_cache_key ` set reps"
    proof
      fix k assume "k \<in> record_cache_key ` set rs"
      then obtain r where r: "r \<in> set rs" "k = record_cache_key r" by blast
      then obtain x where x: "x \<in> set reps" "group_key x = group_key r" using G(3) reps(1) by (metis image_iff image_set)
      then have "record_cache_key x = record_cache_key r" using key[of x r] r reps(2) by (auto simp: record_cache_key_def)
      then show "k \<in> record_cache_key ` set reps" using r(2) x(1) by (metis image_eqI)
    qed
  qed (use reps in auto)
  then show ?thesis using g(1) m(1) s reps
    by (intro exI[of _ c'] exI[of _ L]) (fastforce simp: load_ip_table_def)
qed

section \<open>Tables of the documented form\<close>

text \<open>An entry: the labels of the domain, and the address.\<close>

definition entry_line :: "cstr list \<times> cstr \<Rightarrow> byte list" where
  "entry_line e = dotted (fst e) @ EQUALS # snd e"

definition text_char :: "byte \<Rightarrow> bool" where
  "text_char b \<longleftrightarrow> \<not> isspace b \<and> b \<noteq> 0"

definition entry_ok :: "(cstr \<Rightarrow> byte list option) \<Rightarrow> (cstr \<Rightarrow> byte list option) \<Rightarrow> cstr list \<times> cstr \<Rightarrow> bool" where
  "entry_ok p4 p6 e \<longleftrightarrow> fst e \<noteq> [] \<and> (\<forall>l \<in> set (fst e). wire_label l \<and> plain_label l) \<and>
     (\<forall>b \<in> set (dotted (fst e)). text_char b \<and> b \<noteq> EQUALS) \<and> hd (dotted (fst e)) \<noteq> HASH \<and>
     length (wire_name (fst e)) \<le> 255 \<and> length (dotted (fst e)) \<le> 254 \<and>
     snd e \<noteq> [] \<and> (\<forall>b \<in> set (snd e). text_char b) \<and> length (snd e) \<le> 255 \<and>
     (p4 (snd e) \<noteq> None \<or> p6 (snd e) \<noteq> None)"

definition entry_record :: "(cstr \<Rightarrow> byte list option) \<Rightarrow> (cstr \<Rightarrow> byte list option) \<Rightarrow> cstr list \<times> cstr \<Rightarrow> ResourceRecord" where
  "entry_record p4 p6 e =
     (let rr = (\<lambda>type len block. \<lparr>rr_name = wire_name (fst e), rr_type = type, rr_class = QCLASS_IN, ttl = UINT32_MAX,
                                   rdata_length = len, rdata = block\<rparr>)
      in case p4 (snd e) of Some a \<Rightarrow> rr QTYPE_A 4 a | None \<Rightarrow> rr QTYPE_AAAA 16 (the (p6 (snd e))))"

text \<open>What is documented of \<open>inet_pton\<close>: the lengths of addresses.\<close>

definition pton_lengths :: "(cstr \<Rightarrow> byte list option) \<Rightarrow> (cstr \<Rightarrow> byte list option) \<Rightarrow> bool" where
  "pton_lengths p4 p6 \<longleftrightarrow> (\<forall>ip a. p4 ip = Some a \<longrightarrow> length a = 4) \<and> (\<forall>ip a. p6 ip = Some a \<longrightarrow> length a = 16)"

lemma rtrim_text: "s = [] \<or> \<not> isspace (last s) \<Longrightarrow> rtrim s = s"
proof -
  assume a: "s = [] \<or> \<not> isspace (last s)"
  have "dropWhile isspace (rev s) = rev s" using a by (cases s rule: rev_cases) auto
  then show ?thesis by (simp add: rtrim_def)
qed

lemma split_entry:
  assumes d: "d \<noteq> []" "\<forall>b \<in> set d. text_char b \<and> b \<noteq> EQUALS" "hd d \<noteq> HASH"
    and ip: "ip \<noteq> []" "\<forall>b \<in> set ip. text_char b"
  shows "split_line (d @ EQUALS # ip @ [NEWLINE]) = Some (d, ip)"
proof -
  obtain b bs where b: "d = b # bs" "\<not> isspace b" using d by (cases d) (auto simp: text_char_def)
  have "EQUALS \<noteq> 0" "NEWLINE \<noteq> 0" by (simp_all add: EQUALS_def NEWLINE_def)
  then have "c_string (d @ EQUALS # ip @ [NEWLINE]) = d @ EQUALS # ip @ [NEWLINE]"
    using d(2) ip(2) unfolding c_string_def by (intro takeWhile_eq_all_conv[THEN iffD2]) (auto simp: text_char_def)
  then have p: "dropWhile isspace (c_string (d @ EQUALS # ip @ [NEWLINE])) = d @ EQUALS # ip @ [NEWLINE]"
    using b by simp
  have tw: "takeWhile (\<lambda>b. b \<noteq> EQUALS) (d @ EQUALS # ip @ [NEWLINE]) = d"
    "dropWhile (\<lambda>b. b \<noteq> EQUALS) (d @ EQUALS # ip @ [NEWLINE]) = EQUALS # ip @ [NEWLINE]"
    using d(2) by (induction d) auto
  obtain x xs where x: "ip = x # xs" "\<not> isspace x" using ip by (cases ip) (auto simp: text_char_def)
  have "rtrim d = d" "rtrim ip = ip"
    using d(1,2) ip by (auto intro!: rtrim_text simp: text_char_def)
  moreover have "rtrim (ip @ [NEWLINE]) = rtrim ip" by (simp add: rtrim_def isspace_newline)
  moreover have "hd d \<noteq> NEWLINE" using b isspace_newline by auto
  ultimately show ?thesis unfolding split_line_def p Let_def tw
    using d(1,3) ip(1) x by simp
qed

lemma encode_entry:
  assumes "ls \<noteq> []" "\<forall>l \<in> set ls. wire_label l \<and> plain_label l"
  shows "encode_name (Some (dotted ls)) = Some (wire_name ls)"
proof -
  have tw: "takeWhile (\<lambda>l. l \<noteq> []) ls = ls" using assms(2) by (auto simp: takeWhile_eq_all_conv wire_label_def)
  have "\<forall>l \<in> set ls. plain_label l \<and> length l \<le> 63" using assms(2) by (auto simp: wire_label_def)
  then have "c_str (wire_name ls @ [0]) = wire_name ls" using c_str_wire[of ls] unfolding tw by blast
  moreover have "dotted ls \<noteq> []"
    using assms by (cases ls rule: dotted.cases) (auto simp: wire_label_def)
  ultimately show ?thesis
    using encode_loop_labels[of ls "[]"] assms by (auto simp: encode_name_def wire_label_def)
qed

lemma entry_line_record:
  assumes ok: "entry_ok p4 p6 e"
  shows "line_record p4 p6 (entry_line e @ [NEWLINE]) = Some (entry_record p4 p6 e)"
proof -
  have ne: "dotted (fst e) \<noteq> []"
    using ok by (cases "fst e" rule: dotted.cases) (auto simp: entry_ok_def wire_label_def)
  have "split_line (entry_line e @ [NEWLINE]) = Some (dotted (fst e), snd e)"
    using split_entry[of "dotted (fst e)" "snd e"] ok ne by (simp add: entry_line_def entry_ok_def)
  moreover have "encode_name (Some (dotted (fst e))) = Some (wire_name (fst e))"
    using ok by (intro encode_entry) (auto simp: entry_ok_def)
  ultimately show ?thesis
    using ok by (cases "p4 (snd e)")
      (auto simp: line_record_def rr_make_from_config_pair_def entry_record_def entry_ok_def QTYPE_A_def QTYPE_AAAA_def)
qed

lemma entry_lines:
  assumes "\<forall>e \<in> set es. entry_ok p4 p6 e" and "pton_lengths p4 p6"
  shows "table_records p4 p6 (map entry_line es) = map (entry_record p4 p6) es"
    "\<forall>l \<in> set (map entry_line es). NEWLINE \<notin> set l \<and> length l \<le> 510"
    "\<forall>r \<in> set (map (entry_record p4 p6) es). table_record r"
proof -
  show "table_records p4 p6 (map entry_line es) = map (entry_record p4 p6) es"
    using assms(1) by (induction es) (simp_all add: table_records_def map_filter_simps entry_line_record)
  have "NEWLINE \<noteq> EQUALS" by (simp add: NEWLINE_def EQUALS_def)
  then show "\<forall>l \<in> set (map entry_line es). NEWLINE \<notin> set l \<and> length l \<le> 510"
    using assms(1) isspace_newline by (fastforce simp: entry_ok_def entry_line_def text_char_def)
  show "\<forall>r \<in> set (map (entry_record p4 p6) es). table_record r"
    using assms by (force simp: table_record_def entry_record_def entry_ok_def pton_lengths_def Let_def split: option.split)
qed

section \<open>What queries get\<close>

lemma live_table:
  assumes abs: "cache_abs cap c L" and recs: "\<forall>r \<in> set rs. table_record r"
    and vals: "\<forall>(k, v, t) \<in> set L. \<exists>r \<in> set rs. k = record_cache_key r \<and> v = table_value (table_group rs (rr_type r) (rr_name r))"
    and keys: "fst ` set L = record_cache_key ` set rs"
  shows "live now L (cache_key_create name type QCLASS_IN) =
    (if table_group rs type name = [] then None else Some (table_value (table_group rs type name)))"
proof (cases "table_group rs type name = []")
  case True
  then have "cache_key_create name type QCLASS_IN \<notin> fst ` set L"
    unfolding keys by (auto simp: record_cache_key_def cache_key_inj table_group_def filter_empty_conv)
  then have "map_of L (cache_key_create name type QCLASS_IN) = None" by (simp add: map_of_eq_None_iff)
  then show ?thesis using True by (simp add: live_def)
next
  case False
  then obtain r where r: "r \<in> set rs" "rr_type r = type" "rr_name r = name"
    by (auto simp: table_group_def filter_empty_conv)
  then have "cache_key_create name type QCLASS_IN \<in> fst ` set L"
    unfolding keys by (auto simp: record_cache_key_def image_iff)
  then obtain v t where v: "(cache_key_create name type QCLASS_IN, v, t) \<in> set L" by auto
  then have "v = table_value (table_group rs type name)"
    using vals by (auto simp: record_cache_key_def cache_key_inj)
  moreover have "map_of L (cache_key_create name type QCLASS_IN) = Some (v, t)"
    using v cache_abs_size(5)[OF abs] by simp
  moreover have "\<not> expired (table_value (table_group rs type name)) t now"
    using recs by (auto simp: expired_def table_value_def table_group_def table_record_def)
  ultimately show ?thesis using False by (simp add: live_def)
qed

lemma counts_table:
  assumes "\<forall>(k, v, t) \<in> set L. \<exists>r \<in> set rs. k = record_cache_key r \<and> v = table_value (table_group rs (rr_type r) (rr_name r))"
  shows "counts_ok L"
proof -
  have "unat (word_of_nat n :: uint16_t) \<le> n" for n by (simp add: unat_of_nat)
  then show ?thesis using assms by (fastforce simp: counts_ok_def table_value_def rrs_or_nil_def)
qed


definition pton4_zero :: "cstr \<Rightarrow> byte list option" where
  "pton4_zero ip = (if ip = bytes_of ''0.0.0.0'' then Some [0, 0, 0, 0] else None)"


end
