(* ===== verification/Log_Output.thy ===== *)
theory Log_Output
  imports Server_Config Dns_Resolver
begin

text \<open>
  The output of \<^verbatim>\<open>src/infra/logger.c\<close>, and \<open>packet_to_log_string\<close> of
  \<^verbatim>\<open>src/dns/dns_resolver.c\<close>, the text of a packet for the log. That text is made for every
  packet received or sent, whatever the level of logging, in a buffer of 4096 bytes; the
  properties say for which packets this is safe, and that there are datagrams for which it is not.
\<close>

section \<open>Fields and names\<close>

definition QTYPE_PTR :: uint16_t where "QTYPE_PTR = 12"
definition QTYPE_TXT :: uint16_t where "QTYPE_TXT = 16"

definition AA_GET :: "uint16_t \<Rightarrow> uint16_t" where
  "AA_GET fl = drop_bit 10 fl AND 1"

definition TC_GET :: "uint16_t \<Rightarrow> uint16_t" where
  "TC_GET fl = drop_bit 9 fl AND 1"

definition RA_GET :: "uint16_t \<Rightarrow> uint16_t" where
  "RA_GET fl = drop_bit 7 fl AND 1"

definition Z_GET :: "uint16_t \<Rightarrow> uint16_t" where
  "Z_GET fl = drop_bit 4 fl AND 7"

definition type_str :: "string \<Rightarrow> uint16_t \<Rightarrow> cstr" where
  "type_str other t = bytes_of
     (if t = QTYPE_A then ''A'' else if t = QTYPE_NS then ''NS'' else if t = QTYPE_CNAME then ''CNAME''
      else if t = QTYPE_SOA then ''SOA'' else if t = QTYPE_PTR then ''PTR'' else if t = QTYPE_MX then ''MX''
      else if t = QTYPE_TXT then ''TXT'' else if t = QTYPE_AAAA then ''AAAA'' else other)"

text \<open>\<open>%u\<close> of a 16-bit field.\<close>

definition field :: "uint16_t \<Rightarrow> cstr" where
  "field w = decimal (unat w)"

section \<open>Writing into the buffer\<close>

text \<open>
  The string so far, and \<open>remaining\<close>. \<open>snprintf\<close> writes at most \<open>remaining - 1\<close> characters and
  returns the length of the whole text, by which the position moves. A negative \<open>remaining\<close> is
  converted to a huge size: the text is written outside of the buffer.
\<close>

definition log_put :: "cstr \<Rightarrow> cstr \<times> int \<Rightarrow> (cstr \<times> int) option" where
  "log_put t lb = (case lb of (out, remaining) \<Rightarrow>
     if remaining < 0 then None else Some (out @ take (nat remaining - 1) t, remaining - int (length t)))"

definition header_text :: "SectionHeader \<Rightarrow> cstr" where
  "header_text h = bytes_of ''header: ID='' @ field (hdr_id h) @ bytes_of '' QR='' @
     bytes_of (if IS_QUERY (flags h) then ''Query'' else ''Response'') @
     bytes_of '' Opcode='' @ field (OPCODE_GET (flags h)) @ bytes_of '' AA='' @ field (AA_GET (flags h)) @
     bytes_of '' TC='' @ field (TC_GET (flags h)) @ bytes_of '' RD='' @ field (RD_GET (flags h)) @
     bytes_of '' RA='' @ field (RA_GET (flags h)) @ bytes_of '' Z='' @ field (Z_GET (flags h)) @
     bytes_of '' RCODE='' @ field (RCODE (flags h)) @ bytes_of '' ''"

definition counts_text :: "SectionHeader \<Rightarrow> cstr" where
  "counts_text h = bytes_of ''Qdcnt='' @ field (qcount h) @ bytes_of '' Ans_RRs='' @ field (answer_RRs h) @
     bytes_of '' auth_RRs='' @ field (authority_RRs h) @ bytes_of '' Addition_RRs ='' @ field (additional_RRs h) @
     bytes_of '' '' @ [NEWLINE] @ bytes_of '' ''"

definition question_text :: "SectionQuestion \<Rightarrow> cstr" where
  "question_text q = bytes_of ''['' @ qname q @ bytes_of '' type='' @ type_str ''UNKNOWN'' (qtype q) @
     bytes_of '' class='' @ field (qclass q) @ bytes_of '']'' @ [NEWLINE]"

definition rr_text :: "ResourceRecord \<Rightarrow> cstr" where
  "rr_text r = bytes_of ''['' @ rr_name r @ bytes_of '' type='' @ type_str ''UNK'' (rr_type r) @
     bytes_of '' ttl='' @ decimal (unat (ttl r)) @ bytes_of '' rdlen='' @ field (rdata_length r) @ bytes_of '' ]'' @ [NEWLINE]"

definition questions_title :: cstr where "questions_title = bytes_of ''Questions:'' @ [NEWLINE]"
definition records_title :: cstr where "records_title = bytes_of ''Resource Records :'' @ [NEWLINE]"

text \<open>The loops over the questions and over the records.\<close>

fun log_texts :: "cstr list \<Rightarrow> cstr \<times> int \<Rightarrow> (cstr \<times> int) option" where
  "log_texts [] lb = Some lb"
| "log_texts (t # ts) lb = (if snd lb > 0 then do { st1 \<leftarrow> log_put t lb; log_texts ts st1 } else Some lb)"

definition log_section :: "cstr \<Rightarrow> cstr list \<Rightarrow> cstr \<times> int \<Rightarrow> (cstr \<times> int) option" where
  "log_section title ts lb =
     (if ts \<noteq> [] then do { st1 \<leftarrow> log_put title lb; log_texts ts st1 } else Some lb)"

definition LOG_BUF_SIZE :: int where "LOG_BUF_SIZE = 4096"

definition packet_to_log_string :: "DnsPacket option \<Rightarrow> cstr option" where
  "packet_to_log_string dns_pack =
     (case dns_pack of
        None \<Rightarrow> do { (out, remaining) \<leftarrow> log_put (bytes_of ''NULL packet'') ([], LOG_BUF_SIZE); Some out }
      | Some p \<Rightarrow> do {
          st1 \<leftarrow> log_put (header_text (header p)) ([], LOG_BUF_SIZE);
          st2 \<leftarrow> log_put (counts_text (header p)) st1;
          st3 \<leftarrow> log_section questions_title (map question_text (questions p)) st2;
          (out, remaining) \<leftarrow> log_section records_title (map rr_text (rrs p)) st3;
          Some out })"

text \<open>
  \<open>do_log\<close>: nothing below the level of logging, otherwise one line for the channel of the
  level; \<open>msg\<close> is the formatted message. A channel that was never set is a null pointer.
\<close>

definition do_log :: "Logger \<Rightarrow> ms \<Rightarrow> nat \<Rightarrow> cstr \<Rightarrow> (Stream \<times> cstr) option option" where
  "do_log lg now level msg =
     (if int level < logging_level lg then Some None
      else (case output_channels lg ! level of
          Some (Object (Channel ch)) \<Rightarrow>
            Some (Some (ch, bytes_of ''t:'' @ decimal (nat (now div 1000)) @ bytes_of '' ['' @ LEVEL_STR ! level @ bytes_of ''] '' @ msg @ [NEWLINE]))
        | _ \<Rightarrow> None))"

section \<open>Texts that fit\<close>

definition section_text :: "cstr \<Rightarrow> cstr list \<Rightarrow> cstr" where
  "section_text title ts = (if ts = [] then [] else title @ concat ts)"

definition packet_text :: "DnsPacket \<Rightarrow> cstr" where
  "packet_text p = header_text (header p) @ counts_text (header p) @
     section_text questions_title (map question_text (questions p)) @
     section_text records_title (map rr_text (rrs p))"

definition room_left :: "cstr \<times> int \<Rightarrow> nat \<Rightarrow> bool" where
  "room_left lb n \<longleftrightarrow> int (length (fst lb)) + snd lb = LOG_BUF_SIZE \<and> int n < snd lb"

definition written :: "cstr \<Rightarrow> cstr \<times> int \<Rightarrow> cstr \<times> int" where
  "written t lb = (fst lb @ t, snd lb - int (length t))"

lemma put_fits:
  assumes "room_left lb (length t + n)"
  shows "log_put t lb = Some (written t lb)" "room_left (written t lb) n"
  using assms by (auto simp: log_put_def room_left_def written_def split: prod.split)

lemma texts_fit:
  "room_left lb (length (concat ts) + n) \<Longrightarrow>
     log_texts ts lb = Some (written (concat ts) lb) \<and> room_left (written (concat ts) lb) n"
proof (induction ts arbitrary: lb)
  case Nil
  then show ?case by (simp add: room_left_def written_def)
next
  case (Cons t ts)
  have "room_left lb (length t + (length (concat ts) + n))" using Cons.prems by (simp add: add.assoc)
  note p = put_fits[OF this]
  have "0 < snd lb" using Cons.prems by (simp add: room_left_def)
  then show ?case using Cons.IH[OF p(2)] p(1) by (simp add: written_def algebra_simps)
qed

lemma section_fits:
  assumes "room_left lb (length (section_text title ts) + n)"
  shows "log_section title ts lb = Some (written (section_text title ts) lb)" "room_left (written (section_text title ts) lb) n"
proof -
  have "log_section title ts lb = Some (written (section_text title ts) lb) \<and> room_left (written (section_text title ts) lb) n"
  proof (cases "ts = []")
    case True
    then show ?thesis using assms by (simp add: log_section_def section_text_def room_left_def written_def)
  next
    case False
    then have "room_left lb (length title + (length (concat ts) + n))" using assms by (simp add: section_text_def add.assoc)
    note p = put_fits[OF this]
    show ?thesis using texts_fit[OF p(2)] p(1) False
      by (simp add: log_section_def section_text_def written_def algebra_simps)
  qed
  then show "log_section title ts lb = Some (written (section_text title ts) lb)" "room_left (written (section_text title ts) lb) n"
    by simp_all
qed

lemma log_fits:
  assumes "length (packet_text p) < 4096"
  shows "packet_to_log_string (Some p) = Some (packet_text p)"
proof -
  let ?q = "section_text questions_title (map question_text (questions p))"
  let ?r = "section_text records_title (map rr_text (rrs p))"
  let ?h = "header_text (header p)" and ?c = "counts_text (header p)"
  have "room_left ([], LOG_BUF_SIZE) (length ?h + (length ?c + (length ?q + (length ?r + 0))))"
    using assms by (simp add: room_left_def LOG_BUF_SIZE_def packet_text_def)
  note s1 = put_fits[OF this]
  note s2 = put_fits[OF s1(2)]
  note s3 = section_fits[OF s2(2)]
  note s4 = section_fits[OF s3(2)]
  show ?thesis
    unfolding packet_to_log_string_def option.case s1(1) s2(1) s3(1) s4(1) bind.simps split_beta
    by (simp add: packet_text_def written_def)
qed

section \<open>Lengths\<close>

lemma length_decimal: "n < 10 ^ k \<Longrightarrow> 0 < k \<Longrightarrow> length (decimal n) \<le> k"
proof (induction k arbitrary: n)
  case (Suc k)
  show ?case
  proof (cases "n < 10")
    case True
    then show ?thesis by (simp add: decimal.simps[of n])
  next
    case False
    then have "n div 10 < 10 ^ k" "0 < k" using Suc.prems(1) by (cases k; auto)+
    then show ?thesis using Suc.IH[of "n div 10"] False by (simp add: decimal.simps[of n])
  qed
qed simp

lemma length_field: "length (field w) \<le> 5"
proof -
  have "unat w < 2 ^ LENGTH(16)" by (rule unsigned_less)
  then show ?thesis using length_decimal[of "unat w" 5] by (simp add: field_def)
qed

lemma length_decimal32: "length (decimal (unat (w :: uint32_t))) \<le> 10"
proof -
  have "unat w < 2 ^ LENGTH(32)" by (rule unsigned_less)
  then show ?thesis using length_decimal[of "unat w" 10] by simp
qed

lemma length_type: "length other \<le> 7 \<Longrightarrow> length (type_str other t) \<le> 7"
  by (simp add: type_str_def bytes_of_def)

lemma length_question_text: "length (question_text q) \<le> length (qname q) + 28"
  using length_field[of "qclass q"] length_type[of "''UNKNOWN''" "qtype q"]
  by (simp add: question_text_def bytes_of_def)

lemma length_rr_text: "length (rr_text r) \<le> length (rr_name r) + 44"
  using length_field[of "rdata_length r"] length_type[of "''UNK''" "rr_type r"] length_decimal32[of "ttl r"]
  by (simp add: rr_text_def bytes_of_def)

lemma length_header_text: "length (header_text h) \<le> 105"
  using length_field[of "hdr_id h"] length_field[of "OPCODE_GET (flags h)"] length_field[of "AA_GET (flags h)"]
    length_field[of "TC_GET (flags h)"] length_field[of "RD_GET (flags h)"] length_field[of "RA_GET (flags h)"]
    length_field[of "Z_GET (flags h)"] length_field[of "RCODE (flags h)"]
  by (simp add: header_text_def bytes_of_def)

lemma length_counts_text: "length (counts_text h) \<le> 65"
  using length_field[of "qcount h"] length_field[of "answer_RRs h"] length_field[of "authority_RRs h"]
    length_field[of "additional_RRs h"]
  by (simp add: counts_text_def bytes_of_def)

lemma length_titles: "length questions_title = 11" "length records_title = 19"
  by (simp_all add: questions_title_def records_title_def bytes_of_def)

lemma questions_text_room: "length (concat (map question_text qs)) \<le> 6 * length (questions_bytes qs)"
proof (induction qs)
  case (Cons q qs)
  then show ?case using length_question_text[of q] by (simp add: questions_bytes_def question_bytes_def)
qed simp

lemma rrs_text_room: "length (concat (map rr_text rs)) \<le> 4 * rrs_room rs"
proof (induction rs)
  case (Cons r rs)
  then show ?case using length_rr_text[of r] by (simp add: rrs_room_def rr_room_def)
qed simp

lemma packet_text_room: "length (packet_text p) \<le> 200 + 6 * packet_room p"
proof -
  have "length (section_text questions_title (map question_text (questions p))) \<le> 11 + 6 * length (questions_bytes (questions p))"
    using questions_text_room[of "questions p"] length_titles by (simp add: section_text_def)
  moreover have "length (section_text records_title (map rr_text (rrs p))) \<le> 19 + 6 * rrs_room (rrs p)"
    using rrs_text_room[of "rrs p"] length_titles by (simp add: section_text_def)
  ultimately show ?thesis using length_header_text[of "header p"] length_counts_text[of "header p"]
    by (simp add: packet_text_def packet_room_def)
qed


section \<open>Texts that do not fit\<close>

lemma put_positive: "0 < snd lb \<Longrightarrow> \<exists>out. log_put t lb = Some (out, snd lb - int (length t))"
  by (auto simp: log_put_def split: prod.split)

lemma texts_overflow:
  "0 < snd lb \<Longrightarrow> \<forall>k. snd lb \<noteq> int (length (concat (take k ts))) \<Longrightarrow> snd lb < int (length (concat ts)) \<Longrightarrow>
     \<exists>out left. log_texts ts lb = Some (out, left) \<and> left < 0"
proof (induction ts arbitrary: lb)
  case (Cons t ts)
  obtain out where p: "log_put t lb = Some (out, snd lb - int (length t))" using put_positive[OF Cons.prems(1)] by blast
  have "snd lb \<noteq> int (length t)" using Cons.prems(2)[rule_format, of 1] by simp
  then consider "snd lb - int (length t) < 0" | "0 < snd lb - int (length t)" by linarith
  then show ?case
  proof cases
    case 1
    then show ?thesis using p Cons.prems(1) by (cases ts) auto
  next
    case 2
    have "snd lb - int (length t) \<noteq> int (length (concat (take k ts)))" for k
      using Cons.prems(2)[rule_format, of "Suc k"] by auto
    then show ?thesis using Cons.IH[of "(out, snd lb - int (length t))"] 2 Cons.prems(1,3) p by auto
  qed
qed simp

lemma log_overflows:
  assumes rs: "rrs p \<noteq> []"
    and long: "4096 < length (header_text (header p) @ counts_text (header p) @
        questions_title @ concat (map question_text (questions p)))"
    and off: "\<forall>k. 4096 \<noteq> length (header_text (header p) @ counts_text (header p) @
        questions_title @ concat (take k (map question_text (questions p))))"
  shows "packet_to_log_string (Some p) = None"
proof -
  let ?h = "header_text (header p)" and ?c = "counts_text (header p)"
  have short: "length ?h + length ?c + length questions_title < 4096"
    using length_header_text[of "header p"] length_counts_text[of "header p"] length_titles by simp
  then have qs: "questions p \<noteq> []" using long by auto
  have "room_left ([], LOG_BUF_SIZE) (length ?h + (length ?c + (length questions_title + 0)))"
    using short by (simp add: room_left_def LOG_BUF_SIZE_def)
  note s1 = put_fits[OF this]
  note s2 = put_fits[OF s1(2)]
  note s3 = put_fits[OF s2(2)]
  let ?lb = "written questions_title (written ?c (written ?h ([], LOG_BUF_SIZE)))"
  have "0 < snd ?lb" using s3(2) by (simp add: room_left_def)
  moreover have left: "snd ?lb = 4096 - int (length ?h + length ?c + length questions_title)"
    by (simp add: written_def LOG_BUF_SIZE_def)
  have "snd ?lb \<noteq> int (length (concat (take k (map question_text (questions p)))))" for k
    unfolding left using off[rule_format, of k] by simp
  moreover have "snd ?lb < int (length (concat (map question_text (questions p))))"
    unfolding left using long by simp
  ultimately obtain out n where t: "log_texts (map question_text (questions p)) ?lb = Some (out, n)" "n < 0"
    using texts_overflow by blast
  have "log_section questions_title (map question_text (questions p)) (written ?c (written ?h ([], LOG_BUF_SIZE))) = Some (out, n)"
    using qs s3(1) t(1) by (simp add: log_section_def)
  moreover have "log_section records_title (map rr_text (rrs p)) (out, n) = None"
    using rs t(2) by (simp add: log_section_def log_put_def)
  ultimately show ?thesis unfolding packet_to_log_string_def option.case s1(1) s2(1) bind.simps by simp
qed

lemma rr_deserialize_plain:
  assumes "rr_ok r"
  shows "rr_deserialize (pre @ rr_name r @ 0 # rr_body r @ rest) (int (length pre)) = Some (r, int (length (rr_name r) + 1 + length (rr_body r)))"
proof -
  obtain ls where ls: "wire_labels ls" "rr_name r = wire_name ls" using assms by (auto simp: rr_ok_def)
  have "name_deserialize (pre @ rr_name r @ 0 # rr_body r @ rest) (int (length pre)) = Some (int (length (rr_name r)) + 1, rr_name r)"
    unfolding ls(2) by (rule name_deserialize_full[OF ls(1)])
  moreover note rr_body_read[OF assms, of "pre @ rr_name r @ [0]" rest "int (length (rr_name r)) + 1"]
  ultimately show ?thesis by (simp add: rr_deserialize_def Let_def add.assoc add.commute add.left_commute)
qed

text \<open>A buffer with the questions \<open>qs\<close> and one record, as it is when a datagram of 12 bytes follows a longer one.\<close>

definition crowded :: "SectionHeader \<Rightarrow> SectionQuestion list \<Rightarrow> SectionHeader" where
  "crowded h qs = h\<lparr>qcount := word_of_nat (length qs), answer_RRs := 1, authority_RRs := 0, additional_RRs := 0\<rparr>"

lemma crowded_read:
  assumes "\<forall>q \<in> set qs. 0 \<notin> set (qname q)" "length qs < 65536" "rr_ok r"
  shows "pack_deserialize (header_bytes (crowded h qs) @ questions_bytes qs @ rr_name r @ 0 # rr_body r @ rest) 12 =
    Some (0, Some \<lparr>header = crowded h qs, questions = qs, rrs = [r]\<rparr>)"
proof -
  let ?h = "crowded h qs" and ?rr = "rr_name r @ 0 # rr_body r @ rest"
  have n: "unat (qcount ?h) = length qs" "rr_count ?h = Suc 0"
    using assms(2) by (simp_all add: crowded_def rr_count_def unat_of_nat)
  have "header_read (header_bytes ?h @ questions_bytes qs @ ?rr) = Some ?h" by (rule header_read_bytes)
  moreover have "questions_deserialize (header_bytes ?h @ questions_bytes qs @ ?rr) HEADER_SIZE (length qs) =
      Some (qs, int (length (questions_bytes qs)))"
    using questions_deserialize_bytes[OF assms(1), of "header_bytes ?h" ?rr] by (simp add: HEADER_SIZE_def)
  moreover have "rr_deserialize (header_bytes ?h @ questions_bytes qs @ ?rr) (HEADER_SIZE + int (length (questions_bytes qs))) =
      Some (r, int (length (rr_name r) + 1 + length (rr_body r)))"
    using rr_deserialize_plain[OF assms(3), of "header_bytes ?h @ questions_bytes qs" rest] by (simp add: HEADER_SIZE_def)
  ultimately show ?thesis by (simp add: pack_deserialize_def n pack_create_def)
qed

section \<open>Properties\<close>

text \<open>
  C34. The text of a packet for the log is what its parts say, complete, whenever the packet
  needs at most 640 bytes without compression; then nothing is written outside of the buffer.
\<close>

theorem packet_log_safe:
  assumes "packet_room p \<le> 640"
  shows "packet_to_log_string (Some p) = Some (packet_text p) \<and> length (packet_text p) < 4096"
  using packet_text_room[of p] log_fits[of p] assms by simp

theorem packet_log_safe_witness:
  "packet_to_log_string (Some pack_create) = Some (bytes_of ''header: ID=0 QR=Query Opcode=0 AA=0 TC=0 RD=0 RA=0 Z=0 RCODE=0 Qdcnt=0 Ans_RRs=0 auth_RRs=0 Addition_RRs =0 '' @
     [NEWLINE] @ bytes_of '' '')"
proof -
  have "packet_text pack_create = bytes_of ''header: ID=0 QR=Query Opcode=0 AA=0 TC=0 RD=0 RA=0 Z=0 RCODE=0 Qdcnt=0 Ans_RRs=0 auth_RRs=0 Addition_RRs =0 '' @
     [NEWLINE] @ bytes_of '' ''"
    by (simp add: packet_text_def pack_create_def header_text_def counts_text_def section_text_def field_def bytes_of_def
      decimal.simps[of 0] IS_QUERY_def OPCODE_GET_def AA_GET_def TC_GET_def RD_GET_def RA_GET_def Z_GET_def RCODE_def)
  moreover have "packet_room pack_create \<le> 640" by (simp add: packet_room_def pack_create_def questions_bytes_def rrs_room_def)
  ultimately show ?thesis using packet_log_safe[of pack_create] by simp
qed

text \<open>
  C35. A datagram of 12 bytes makes the program write outside of the buffer of the log text,
  whatever the level of logging: what is left in the receive buffer of a longer datagram, which
  was refused for its length, is read as the questions and the record the header announces, and
  once the text of the questions has passed the end of the buffer the text of the records is
  written without a bound. (The text must not end exactly with the buffer behind a question.)
\<close>

theorem packet_log_overflow:
  assumes "\<forall>q \<in> set qs. 0 \<notin> set (qname q)" "length qs < 65536" "rr_ok r"
    and "4096 < length (header_text (crowded h qs) @ counts_text (crowded h qs) @ questions_title @ concat (map question_text qs))"
    and "\<forall>k. 4096 \<noteq> length (header_text (crowded h qs) @ counts_text (crowded h qs) @ questions_title @ concat (take k (map question_text qs)))"
  shows "\<exists>p. pack_deserialize (header_bytes (crowded h qs) @ questions_bytes qs @ rr_name r @ 0 # rr_body r @ rest) 12 = Some (0, Some p) \<and>
    packet_to_log_string (Some p) = None"
  using crowded_read[OF assms(1-3), of h rest] log_overflows[of "\<lparr>header = crowded h qs, questions = qs, rrs = [r]\<rparr>"] assms(4,5)
  by simp

text \<open>250 questions for the root, 1250 bytes, and a record.\<close>

theorem packet_log_overflow_witness:
  "let h = crowded (header pack_create) (replicate 250 \<lparr>qname = [], qtype = 1, qclass = 1\<rparr>);
       r = \<lparr>rr_name = [1, 97], rr_type = QTYPE_A, rr_class = 1, ttl = 0, rdata_length = 0, rdata = []\<rparr>
   in \<exists>p. pack_deserialize (header_bytes h @ questions_bytes (replicate 250 \<lparr>qname = [], qtype = 1, qclass = 1\<rparr>) @ [1, 97, 0] @ rr_body r) 12 = Some (0, Some p) \<and>
     packet_to_log_string (Some p) = None"
proof -
  let ?q = "\<lparr>qname = [], qtype = 1, qclass = 1\<rparr> :: SectionQuestion"
  let ?qs = "replicate 250 ?q" and ?r = "\<lparr>rr_name = [1, 97], rr_type = QTYPE_A, rr_class = 1, ttl = 0, rdata_length = 0, rdata = []\<rparr>"
  let ?h = "crowded (header pack_create) ?qs"
  have r: "rr_ok ?r" unfolding rr_ok_def
    by (auto intro!: exI[of _ "[[97]]"] simp: wire_label_def label_len_def QTYPE_A_def QTYPE_MX_def QTYPE_CNAME_def QTYPE_NS_def)
  have q: "length (question_text ?q) = 18"
    by (simp add: question_text_def type_str_def field_def bytes_of_def decimal.simps[of "Suc 0"] QTYPE_A_def)
  have d: "length (decimal 250) = 3" by (simp add: decimal.simps[of 250] decimal.simps[of 25] decimal.simps[of 2])
  have h: "length (header_text ?h) + length (counts_text ?h) = 112"
    by (simp add: crowded_def pack_create_def header_text_def counts_text_def field_def bytes_of_def d
      decimal.simps[of 0] decimal.simps[of "Suc 0"] IS_QUERY_def OPCODE_GET_def AA_GET_def TC_GET_def RD_GET_def RA_GET_def Z_GET_def RCODE_def)
  have c: "length (concat (replicate n (question_text ?q))) = 18 * n" for n by (induction n) (simp_all add: q)
  have "4096 < length (header_text ?h @ counts_text ?h @ questions_title @ concat (map question_text ?qs))"
    using h length_titles by (simp add: c)
  moreover have "\<forall>k. 4096 \<noteq> length (header_text ?h @ counts_text ?h @ questions_title @ concat (take k (map question_text ?qs)))"
  proof
    fix k :: nat
    have "(112 + 11) + 18 * min k 250 \<noteq> (4096 :: nat)" by presburger
    then show "4096 \<noteq> length (header_text ?h @ counts_text ?h @ questions_title @ concat (take k (map question_text ?qs)))"
      using h length_titles by (simp add: c)
  qed
  ultimately show ?thesis using packet_log_overflow[of ?qs ?r "header pack_create" "[]"] r by (simp add: Let_def)
qed

end
