(* ===== verification/Relay_Main.thy ===== *)
theory Relay_Main
  imports Server_Config Ip_Table Server_Correct Log_Output
begin

text \<open>
  The start of the program, \<open>main\<close> of \<^verbatim>\<open>src/main.c\<close> with \<open>dns_cache_init\<close> of
  \<^verbatim>\<open>src/dns/dns_cache.c\<close> and \<open>server_start\<close> of \<^verbatim>\<open>src/server/server.c\<close>: from the
  arguments and the files to the state in which the event loop is entered. What the program
  finds in the world is the record \<open>Host\<close>.
\<close>

section \<open>The world\<close>

text \<open>
  \<open>pool_mem\<close>, \<open>line_mem\<close>, \<open>table_mem\<close>, \<open>send_mem\<close> and \<open>recv_mem\<close> are contents of memory
  before the program writes it, \<open>junk\<close> that of an uninitialised variable, \<open>stack\<close> what is read
  through the pointers to dead stack arrays. \<open>socket_call\<close> and \<open>bind_call\<close> are the results of the
  system calls.
\<close>

record Host =
  little_endian :: bool
  files :: "cstr \<Rightarrow> byte list option"
  pton4 :: "cstr \<Rightarrow> byte list option"
  pton6 :: "cstr \<Rightarrow> byte list option"
  can_create :: "cstr \<Rightarrow> bool"
  can_append :: "cstr \<Rightarrow> bool"
  stack :: "cstr \<Rightarrow> cstr"
  junk :: "Setting T"
  pool_mem :: IdPool
  line_mem :: "byte list"
  table_mem :: "byte list"
  send_mem :: "byte list"
  recv_mem :: "byte list"
  boot_clock :: "nat \<Rightarrow> ms"
  socket_call :: int
  bind_call :: "int \<Rightarrow> SockAddr \<Rightarrow> int"
  sending :: "nat \<Rightarrow> byte list \<Rightarrow> SockAddr \<Rightarrow> int"

definition SECTION_DNS :: cstr where "SECTION_DNS = bytes_of ''dns''"
definition KEY_IP_TABLE_PATH :: cstr where "KEY_IP_TABLE_PATH = bytes_of ''iptable''"
definition VALUE_DEFAULT_IP_TABLE_PATH :: cstr where "VALUE_DEFAULT_IP_TABLE_PATH = bytes_of ''./dnsrelay.txt''"

section \<open>The start\<close>

fun path_or :: "cstr \<Rightarrow> Setting T option \<Rightarrow> cstr option" where
  "path_or dflt None = Some dflt"
| "path_or dflt (Some (Text t)) = Some t"
| "path_or dflt (Some (Object v)) = None"

text \<open>\<open>dns_cache_init\<close>: the empty cache, then the table from the configured path. A missing table is no failure.\<close>

definition cache_start :: "Host \<Rightarrow> Conf \<Rightarrow> (int \<times> DnsCache option \<times> Conf) option" where
  "cache_start h c = do {
     (failed, cache) \<leftarrow> dns_cache_init None;
     if failed \<noteq> 0 then Some (failed, cache, c)
     else do {
       (r, v, c1) \<leftarrow> config_get (stack h) (junk h) SECTION_DNS KEY_IP_TABLE_PATH c;
       ip_path \<leftarrow> path_or VALUE_DEFAULT_IP_TABLE_PATH v;
       (r1, cache1) \<leftarrow> load_ip_table (pton4 h) (pton6 h) (boot_clock h) (table_mem h) (files h ip_path) cache;
       Some (0, cache1, c1) } }"

definition init_socket :: "Host \<Rightarrow> int \<Rightarrow> int \<times> int" where
  "init_socket h socket_holder =
     (let (r, fd) = socket_create (socket_call h) socket_holder
      in if r \<noteq> 0 \<or> socket_bind (bind_call h) (little_endian h) fd SERVER_PORT \<noteq> 0 then (-1, fd) else (0, fd))"

definition server_start :: "Host \<Rightarrow> bool \<Rightarrow> DnsCache option \<Rightarrow> Conf \<Rightarrow> (int \<times> (Config \<times> Server) option) option" where
  "server_start h caching cache c = do {
     (timeout, retries, ups, c1) \<leftarrow> server_settings (ipstr2binary (little_endian h) (pton4 h) (pton6 h))
        (little_endian h) (stack h) (junk h) c;
     (r, s) \<leftarrow> server_boot (pool_mem h) cache ups (send_mem h) (recv_mem h);
     if r \<noteq> 0 then Some (r, None)
     else if fst (init_socket h 0) \<noteq> 0 then Some (-1, None)
     else do {
       s1 \<leftarrow> s;
       Some (0, Some (\<lparr>request_timeout = timeout, max_retry_time = retries, use_cache = caching, sendto = sending h\<rparr>, s1)) } }"

text \<open>
  \<open>main\<close>: its return code if it returns early, and otherwise the loggers, the settings and
  the state when \<open>server_loop\<close> begins. The pool of identifiers and the sessions, which
  \<open>main\<close> initialises before \<open>server_start\<close>, are set up in \<open>server_boot\<close>: neither fails or
  touches anything else.
\<close>

definition relay_main :: "Host \<Rightarrow> cstr list \<Rightarrow> (int \<times> (Logger \<times> Config \<times> Server) option) option" where
  "relay_main h argv = do {
     (e0, c0) \<leftarrow> config_init;
     if e0 \<noteq> 0 then Some (1, None)
     else do {
       let config_file = snd (param_get_config_file argv);
       (e1, c1) \<leftarrow> config_load_file (stack h) (line_mem h) (files h config_file) c0;
       (e2, c2) \<leftarrow> param_inject_config (stack h) argv c1;
       (e3, logger, c3) \<leftarrow> logger_init (can_create h) (can_append h) (stack h) (junk h) c2;
       if e3 \<noteq> 0 then Some (1, None)
       else do {
         (e4, cache, c4) \<leftarrow> cache_start h c3;
         if e4 \<noteq> 0 then Some (1, None)
         else do {
           (e5, flag, c5) \<leftarrow> dns_resolver_init (stack h) (junk h) c4;
           (r, started) \<leftarrow> server_start h (flag \<noteq> 0) cache c5;
           Some (r, map_option (\<lambda>(cf, s). (logger, cf, s)) started) } } } }"

section \<open>Arguments\<close>

datatype arg = Debug | Trace | File cstr | Address cstr

fun arg_words :: "arg \<Rightarrow> cstr list" where
  "arg_words Debug = [bytes_of ''-d'']"
| "arg_words Trace = [bytes_of ''-dd'']"
| "arg_words (File f) = [bytes_of ''-c'', f]"
| "arg_words (Address a) = [a]"

fun arg_ok :: "arg \<Rightarrow> bool" where
  "arg_ok (Address a) \<longleftrightarrow> a \<noteq> bytes_of ''-d'' \<and> a \<noteq> bytes_of ''-dd'' \<and> a \<noteq> bytes_of ''-c''"
| "arg_ok _ \<longleftrightarrow> True"

fun arg_address :: "arg \<Rightarrow> cstr option" where
  "arg_address (Address a) = Some a"
| "arg_address _ = None"

fun arg_file :: "arg \<Rightarrow> cstr option" where
  "arg_file (File f) = Some f"
| "arg_file _ = None"

text \<open>What an argument does to the entries.\<close>

type_synonym view = "cstr \<Rightarrow> cstr \<Rightarrow> Setting ConfigValue option"

fun apply_arg :: "arg \<Rightarrow> view \<Rightarrow> view" where
  "apply_arg Debug = set_entry LOG_SECTION KEY_LOG_LEVEL \<lparr>is_cook = True, cfg_value = Object (Number 1)\<rparr>"
| "apply_arg Trace = set_entry LOG_SECTION KEY_LOG_LEVEL \<lparr>is_cook = True, cfg_value = Object (Number 0)\<rparr>"
| "apply_arg (File f) = (\<lambda>v. v)"
| "apply_arg (Address a) = (\<lambda>v. v)"

lemma words_distinct:
  "bytes_of ''-d'' \<noteq> bytes_of ''-c''" "bytes_of ''-dd'' \<noteq> bytes_of ''-c''" "bytes_of ''-dd'' \<noteq> bytes_of ''-d''"
  by (simp_all add: bytes_of_def)

lemma config_file_words:
  assumes "\<forall>a \<in> set args. arg_ok a"
  shows "snd (config_file_arg (concat (map arg_words args))) =
    (case List.map_filter arg_file args of [] \<Rightarrow> None | f # _ \<Rightarrow> Some f)"
  using assms
proof (induction args)
  case (Cons a args)
  then show ?case using words_distinct by (cases a) (auto simp: map_filter_simps strcmp_zero)
qed (simp add: map_filter_simps)

definition no_cleaners :: "Conf \<Rightarrow> bool" where
  "no_cleaners c \<longleftrightarrow> hm_map (config_cleaners c) = Map.empty"

lemma no_cleaners_ok: "no_cleaners c \<Longrightarrow> cleanable s k c"
  by (simp add: no_cleaners_def cleanable_def del: hm_map.simps split: option.split)

lemma store_free:
  assumes "cfg_inv c" "no_cleaners c"
  shows "\<exists>c'. config_store (\<lambda>k. k) s k x c = Some (0, c') \<and> cfg_inv c' \<and>
    cfg_view c' = set_entry s k x (cfg_view c) \<and> same_regs c c' \<and> no_cleaners c'"
  using store_ok[OF assms(1) no_cleaners_ok[OF assms(2)], of s k x] assms(2)
  by (auto simp: same_regs_def no_cleaners_def simp del: hm_map.simps)

lemma inject_words:
  assumes "\<forall>a \<in> set args. arg_ok a" and "cfg_inv c" "no_cleaners c"
    and "length (ips @ concat (map (\<lambda>a. COMMA # a) (List.map_filter arg_address args))) < 1024"
  shows "\<exists>c'. inject_loop (\<lambda>k. k) (concat (map arg_words args)) ips c =
      Some (ips @ concat (map (\<lambda>a. COMMA # a) (List.map_filter arg_address args)), c') \<and> cfg_inv c' \<and>
    cfg_view c' = fold apply_arg args (cfg_view c) \<and> same_regs c c' \<and> no_cleaners c'"
  using assms
proof (induction args arbitrary: ips c)
  case Nil
  then show ?case by (simp add: map_filter_simps same_regs_def)
next
  case (Cons a args)
  have set_level: ?case if a: "\<forall>x. arg_words a = [w] \<and> inject_loop (\<lambda>k. k) (w # x) ips c =
        do { (r, c1) \<leftarrow> config_store (\<lambda>k. k) LOG_SECTION KEY_LOG_LEVEL \<lparr>is_cook = True, cfg_value = Object (Number n)\<rparr> c;
             inject_loop (\<lambda>k. k) x ips c1 }"
      and eff: "apply_arg a = set_entry LOG_SECTION KEY_LOG_LEVEL \<lparr>is_cook = True, cfg_value = Object (Number n)\<rparr>"
        "arg_address a = None" for w n
  proof -
    obtain c1 where c1: "config_store (\<lambda>k. k) LOG_SECTION KEY_LOG_LEVEL \<lparr>is_cook = True, cfg_value = Object (Number n)\<rparr> c = Some (0, c1)"
      "cfg_inv c1" "cfg_view c1 = apply_arg a (cfg_view c)" "same_regs c c1" "no_cleaners c1"
      using store_free[OF Cons.prems(2,3)] unfolding eff(1) by blast
    have "\<exists>c'. inject_loop (\<lambda>k. k) (concat (map arg_words args)) ips c1 =
        Some (ips @ concat (map (\<lambda>a. COMMA # a) (List.map_filter arg_address args)), c') \<and> cfg_inv c' \<and>
      cfg_view c' = fold apply_arg args (cfg_view c1) \<and> same_regs c1 c' \<and> no_cleaners c'"
      using Cons.IH[OF _ c1(2,5)] Cons.prems(1,4) eff(2) by (simp add: map_filter_simps)
    then show ?thesis using a c1 eff(2)
      by (auto simp: map_filter_simps intro: same_regs_trans simp del: inject_loop.simps)
  qed
  show ?case
  proof (cases a)
    case Debug
    then show ?thesis by (intro set_level[of "bytes_of ''-d''" 1]) (simp_all add: strcmp_zero config_set_def DEBUG_def)
  next
    case Trace
    then show ?thesis using words_distinct
      by (intro set_level[of "bytes_of ''-dd''" 0]) (simp_all add: strcmp_zero config_set_def TRACE_def)
  next
    case (File f)
    then show ?thesis using words_distinct Cons by (simp add: strcmp_zero map_filter_simps)
  next
    case (Address x)
    have len: "length (ips @ COMMA # x) < 1024" using Cons.prems(4) Address by (simp add: map_filter_simps)
    show ?thesis using Cons.IH[OF _ Cons.prems(2,3), of "ips @ COMMA # x"] Cons.prems(1,4) Address len
      by (simp add: strcmp_zero map_filter_simps)
  qed
qed

lemma comma_words: "concat (map (\<lambda>a. COMMA # a) as) = (if as = [] then [] else COMMA # join_commas as)"
  by (induction as rule: join_commas.induct) auto

definition arg_entries :: "arg list \<Rightarrow> view \<Rightarrow> view" where
  "arg_entries args v =
     (let as = List.map_filter arg_address args; w = fold apply_arg args v
      in if as = [] then w
         else set_entry SERV_SECTION KEY_UPSTREAMS \<lparr>is_cook = False, cfg_value = Text (COMMA # join_commas as)\<rparr> w)"

lemma inject_args:
  assumes "\<forall>a \<in> set args. arg_ok a" and "cfg_inv c" "no_cleaners c"
    and "length (join_commas (List.map_filter arg_address args)) < 1023"
  shows "\<exists>c'. param_inject_config (\<lambda>k. k) (concat (map arg_words args)) c = Some (0, c') \<and> cfg_inv c' \<and>
    cfg_view c' = arg_entries args (cfg_view c) \<and> same_regs c c' \<and> no_cleaners c'"
proof -
  let ?as = "List.map_filter arg_address args"
  have "length ([] @ concat (map (\<lambda>a. COMMA # a) ?as)) < 1024" using assms(4) by (auto simp: comma_words)
  then obtain c1 where c1: "inject_loop (\<lambda>k. k) (concat (map arg_words args)) [] c = Some (concat (map (\<lambda>a. COMMA # a) ?as), c1)"
    "cfg_inv c1" "cfg_view c1 = fold apply_arg args (cfg_view c)" "same_regs c c1" "no_cleaners c1"
    using inject_words[OF assms(1-3), of "[]"] by auto
  show ?thesis
  proof (cases "?as = []")
    case True
    then show ?thesis using c1 by (simp add: param_inject_config_def comma_words arg_entries_def)
  next
    case False
    obtain c2 where "config_inject (\<lambda>k. k) SERV_SECTION KEY_UPSTREAMS (COMMA # join_commas ?as) c1 = Some (0, c2)"
      "cfg_inv c2" "cfg_view c2 = set_entry SERV_SECTION KEY_UPSTREAMS \<lparr>is_cook = False, cfg_value = Text (COMMA # join_commas ?as)\<rparr> (cfg_view c1)"
      "same_regs c1 c2" "no_cleaners c2"
      using store_free[OF c1(2,5)] unfolding config_inject_def by blast
    with False c1 show ?thesis
      by (intro exI[of _ c2]) (auto simp: param_inject_config_def comma_words arg_entries_def Let_def intro: same_regs_trans)
  qed
qed

section \<open>Loggers\<close>

text \<open>The entries of the log section: a level from the arguments or texts.\<close>

definition log_entries_ok :: "view \<Rightarrow> bool" where
  "log_entries_ok v \<longleftrightarrow> (\<forall>k x. v LOG_SECTION k = Some x \<longrightarrow>
     (\<exists>t. x = \<lparr>is_cook = False, cfg_value = Text t\<rparr>) \<or>
     k = KEY_LOG_LEVEL \<and> (\<exists>n \<in> {0, 1}. x = \<lparr>is_cook = True, cfg_value = Object (Number n)\<rparr>))"

lemma level_keys: "distinct LEVEL_STR" "length LEVEL_STR = 5" "KEY_LOG_LEVEL \<notin> set LEVEL_STR"
  by (simp_all add: LEVEL_STR_def KEY_LOG_LEVEL_def bytes_of_def)

lemma log_parser_total: "\<forall>f. fw f \<Longrightarrow> \<exists>r. log_config_parser fw fa k t = Some (0, r)"
  by (simp add: log_config_parser_def Let_def)

lemma log_readable:
  assumes v: "log_entries_ok (cfg_view c)" and p: "hm_map (config_parsers c) LOG_SECTION = Some (log_config_parser fw fa)"
    and fw: "\<forall>f. fw f"
  shows "readable tmp c LOG_SECTION k"
proof (cases "cfg_view c LOG_SECTION k")
  case None
  then show ?thesis by (simp add: readable_def)
next
  case (Some x)
  then consider t where "x = \<lparr>is_cook = False, cfg_value = Text t\<rparr>" | n where "x = \<lparr>is_cook = True, cfg_value = Object (Number n)\<rparr>"
    using v unfolding log_entries_ok_def by blast
  then show ?thesis
  proof cases
    case (1 t)
    obtain r where "log_config_parser fw fa k t = Some (0, r)" using log_parser_total[OF fw] by blast
    with 1 show ?thesis by (simp add: readable_def Some p Let_def del: hm_map.simps)
  next
    case (2 n)
    then show ?thesis by (simp add: readable_def Some del: hm_map.simps)
  qed
qed

lemma readable_same:
  "same_regs c c' \<Longrightarrow> cfg_view c' s k = cfg_view c s k \<Longrightarrow> readable tmp c' s k = readable tmp c s k"
  by (simp add: readable_def same_regs_def del: hm_map.simps cong: option.case_cong)

lemma read_same:
  "same_regs c c' \<Longrightarrow> cfg_view c' s k = cfg_view c s k \<Longrightarrow> read_value tmp c' s k = read_value tmp c s k"
  by (simp add: read_value_def same_regs_def del: hm_map.simps cong: option.case_cong)

text \<open>What a read of a level's channel gives: nothing, or a channel.\<close>

definition channel_entry :: "Setting T \<Rightarrow> Conf \<Rightarrow> nat \<Rightarrow> bool" where
  "channel_entry tmp c j \<longleftrightarrow> readable tmp c LOG_SECTION (LEVEL_STR ! j) \<and>
     (\<forall>x. snd (read_value tmp c LOG_SECTION (LEVEL_STR ! j)) = Some x \<longrightarrow> (\<exists>ch. x = Object (Channel ch)))"

lemma channel_same:
  "same_regs c c' \<Longrightarrow> cfg_view c' LOG_SECTION (LEVEL_STR ! j) = cfg_view c LOG_SECTION (LEVEL_STR ! j) \<Longrightarrow>
     channel_entry tmp c' j = channel_entry tmp c j"
  by (simp add: channel_entry_def readable_same read_same)

lemma level_channel:
  assumes "j < 5" "\<forall>f. fw f"
  shows "\<exists>ch. log_config_parser fw fa (LEVEL_STR ! j) t = Some (0, Some (Object (Channel ch)))"
proof -
  have m: "LEVEL_STR ! j \<in> set LEVEL_STR" using assms(1) level_keys(2) by simp
  then have "LEVEL_STR ! j \<noteq> KEY_LOG_LEVEL" using level_keys(3) by metis
  moreover have "list_ex (\<lambda>l. strcasecmp l (LEVEL_STR ! j) = 0) LEVEL_STR"
    unfolding list_ex_iff using m by (intro bexI[of _ "LEVEL_STR ! j"]) (simp_all add: strcasecmp_def strcmp_zero)
  ultimately show ?thesis using assms(2) by (simp add: log_config_parser_def strcmp_zero)
qed

lemma log_channel:
  assumes v: "log_entries_ok (cfg_view c)" and p: "hm_map (config_parsers c) LOG_SECTION = Some (log_config_parser fw fa)"
    and fw: "\<forall>f. fw f" and j: "j < 5"
  shows "channel_entry tmp c j"
proof -
  have k: "LEVEL_STR ! j \<noteq> KEY_LOG_LEVEL" using j level_keys(2,3) nth_mem by metis
  show ?thesis
  proof (cases "cfg_view c LOG_SECTION (LEVEL_STR ! j)")
    case None
    then show ?thesis by (simp add: channel_entry_def readable_def read_value_def)
  next
    case (Some x)
    then obtain t where t: "x = \<lparr>is_cook = False, cfg_value = Text t\<rparr>" using v k unfolding log_entries_ok_def by blast
    obtain ch where "log_config_parser fw fa (LEVEL_STR ! j) t = Some (0, Some (Object (Channel ch)))"
      using level_channel[OF j fw] by blast
    then show ?thesis by (simp add: channel_entry_def readable_def read_value_def Some t p Let_def del: hm_map.simps)
  qed
qed

lemma channels_ok:
  assumes "cfg_inv c" and "i + left \<le> 5" and "length chs = 5" and "\<forall>j. i \<le> j \<and> j < i + left \<longrightarrow> channel_entry tmp c j"
  shows "\<exists>chs' c'. channel_loop (\<lambda>k. k) tmp i left chs c = Some (chs', c') \<and> cfg_inv c' \<and> same_regs c c' \<and>
    (\<forall>s. s \<noteq> LOG_SECTION \<longrightarrow> cfg_view c' s = cfg_view c s) \<and> (\<forall>j < i. chs' ! j = chs ! j) \<and>
    (\<forall>j. i \<le> j \<and> j < i + left \<longrightarrow> (\<exists>ch. chs' ! j = Some (Object (Channel ch))))"
  using assms
proof (induction left arbitrary: i chs c)
  case 0
  then show ?case by (auto simp: same_regs_def)
next
  case (Suc left)
  let ?k = "LEVEL_STR ! i"
  let ?v = "snd (read_value tmp c LOG_SECTION ?k)"
  let ?chs = "chs[i := (case ?v of None \<Rightarrow> Some (Object (Channel Stdout)) | Some x \<Rightarrow> Some x)]"
  have i: "i < 5" using Suc.prems(2) by simp
  have e: "channel_entry tmp c i" using Suc.prems(4) by simp
  then have rd: "readable tmp c LOG_SECTION ?k" by (simp add: channel_entry_def)
  obtain c1 where c1: "config_get (\<lambda>k. k) tmp LOG_SECTION ?k c =
      Some (fst (read_value tmp c LOG_SECTION ?k), ?v, c1)" "cfg_inv c1" "same_regs c c1"
    "\<forall>s k. s \<noteq> LOG_SECTION \<or> k \<noteq> ?k \<longrightarrow> cfg_view c1 s k = cfg_view c s k"
    using get_total[OF Suc.prems(1) name_lengths(3) name_lengths(9)[OF i] rd] by blast
  have later: "\<forall>j. Suc i \<le> j \<and> j < Suc i + left \<longrightarrow> channel_entry tmp c1 j"
  proof (intro allI impI)
    fix j assume j: "Suc i \<le> j \<and> j < Suc i + left"
    then have "LEVEL_STR ! j \<noteq> ?k"
      using Suc.prems(2) level_keys(1,2) nth_eq_iff_index_eq[of LEVEL_STR j i] by auto
    then have "cfg_view c1 LOG_SECTION (LEVEL_STR ! j) = cfg_view c LOG_SECTION (LEVEL_STR ! j)" using c1(4) by blast
    then show "channel_entry tmp c1 j" using channel_same[OF c1(3)] Suc.prems(4) j by simp
  qed
  have "Suc i + left \<le> 5" "length ?chs = 5" using Suc.prems(2,3) by simp_all
  from Suc.IH[OF c1(2) this later] obtain chs' c2 where c2: "channel_loop (\<lambda>k. k) tmp (Suc i) left ?chs c1 = Some (chs', c2)"
    "cfg_inv c2" "same_regs c1 c2" "\<forall>s. s \<noteq> LOG_SECTION \<longrightarrow> cfg_view c2 s = cfg_view c1 s" "\<forall>j < Suc i. chs' ! j = ?chs ! j"
    "\<forall>j. Suc i \<le> j \<and> j < Suc i + left \<longrightarrow> (\<exists>ch. chs' ! j = Some (Object (Channel ch)))" by blast
  have "\<exists>ch. chs' ! i = Some (Object (Channel ch))"
    using c2(5)[rule_format, of i] e i Suc.prems(3) by (auto simp: channel_entry_def split: option.split)
  then have all: "\<forall>j. i \<le> j \<and> j < i + Suc left \<longrightarrow> (\<exists>ch. chs' ! j = Some (Object (Channel ch)))"
    using c2(6) by (metis Suc_leI add_Suc_right add_Suc le_neq_implies_less)
  have old: "\<forall>j < i. chs' ! j = chs ! j" using c2(5) by simp
  have "channel_loop (\<lambda>k. k) tmp i (Suc left) chs c = Some (chs', c2)" by (simp add: c1(1) c2(1))
  moreover have "same_regs c c2" using c1(3) c2(3) by (rule same_regs_trans)
  moreover have "\<forall>s. s \<noteq> LOG_SECTION \<longrightarrow> cfg_view c2 s = cfg_view c s" using c1(4) c2(4) by (auto simp: fun_eq_iff)
  ultimately show ?case using c2(2) all old by blast
qed

lemma level_read:
  assumes v: "log_entries_ok (cfg_view c)" and p: "hm_map (config_parsers c) LOG_SECTION = Some (log_config_parser fw fa)"
  shows "\<exists>n. number_or (int INFO) (snd (read_value tmp c LOG_SECTION KEY_LOG_LEVEL)) = Some n \<and> 0 \<le> n \<and> n \<le> 4"
proof (cases "cfg_view c LOG_SECTION KEY_LOG_LEVEL")
  case None
  then show ?thesis by (simp add: read_value_def INFO_def)
next
  case (Some x)
  then consider t where "x = \<lparr>is_cook = False, cfg_value = Text t\<rparr>"
    | n where "x = \<lparr>is_cook = True, cfg_value = Object (Number n)\<rparr>" "n \<in> {0, 1}"
    using v unfolding log_entries_ok_def by blast
  then show ?thesis
  proof cases
    case (1 t)
    obtain n where n: "log_config_parser fw fa KEY_LOG_LEVEL t = Some (0, Some (Object (Number (int n))))" "n \<le> 4"
    proof
      show "log_config_parser fw fa KEY_LOG_LEVEL t = Some (0, Some (Object (Number (int
          (if length (takeWhile (\<lambda>l. strcasecmp l t \<noteq> 0) LEVEL_STR) < length LEVEL_STR
           then length (takeWhile (\<lambda>l. strcasecmp l t \<noteq> 0) LEVEL_STR) else INFO)))))"
        by (simp only: log_config_parser_def Let_def strcmp_zero if_True refl)
    qed (simp add: INFO_def level_keys)
    then show ?thesis using 1 by (simp add: read_value_def Some p Let_def del: hm_map.simps)
  next
    case (2 n)
    then show ?thesis by (auto simp: read_value_def Some simp del: hm_map.simps)
  qed
qed

lemma logger_ok:
  assumes inv: "cfg_inv c" and v: "log_entries_ok (cfg_view c)" and fw: "\<forall>f. fw f"
  shows "\<exists>lg c'. logger_init fw fa (\<lambda>k. k) tmp c = Some (0, lg, c') \<and> cfg_inv c' \<and>
    (\<forall>s. s \<noteq> LOG_SECTION \<longrightarrow> cfg_view c' s = cfg_view c s \<and> hm_map (config_parsers c') s = hm_map (config_parsers c) s) \<and>
    config_cleaners c' = config_cleaners c \<and> 0 \<le> logging_level lg \<and> logging_level lg \<le> 4 \<and>
    (\<forall>now level msg. level < 5 \<longrightarrow> do_log lg now level msg \<noteq> None)"
proof -
  let ?p = "log_config_parser fw fa"
  obtain c1 where c1: "config_register_parser (\<lambda>k. k) LOG_SECTION ?p c = Some c1" "cfg_inv c1" "cfg_view c1 = cfg_view c"
    "hm_map (config_parsers c1) = (hm_map (config_parsers c))(LOG_SECTION \<mapsto> ?p)" "config_cleaners c1 = config_cleaners c"
    using register_ok(1)[OF inv name_lengths(3)] by blast
  have p1: "hm_map (config_parsers c1) LOG_SECTION = Some ?p" using c1(4) by simp
  have v1: "log_entries_ok (cfg_view c1)" using v c1(3) by simp
  obtain c2 where c2: "config_get (\<lambda>k. k) tmp LOG_SECTION KEY_LOG_LEVEL c1 =
      Some (fst (read_value tmp c1 LOG_SECTION KEY_LOG_LEVEL), snd (read_value tmp c1 LOG_SECTION KEY_LOG_LEVEL), c2)"
    "cfg_inv c2" "same_regs c1 c2" "\<forall>s k. s \<noteq> LOG_SECTION \<or> k \<noteq> KEY_LOG_LEVEL \<longrightarrow> cfg_view c2 s k = cfg_view c1 s k"
    using get_total[OF c1(2) name_lengths(3,8) log_readable[OF v1 p1 fw]] by blast
  obtain n where n: "number_or (int INFO) (snd (read_value tmp c1 LOG_SECTION KEY_LOG_LEVEL)) = Some n" "0 \<le> n" "n \<le> 4"
    using level_read[OF v1 p1] by blast
  then have "n = 0 \<or> n = 1 \<or> n = 2 \<or> n = 3 \<or> n = 4" by arith
  then have i: "int_of_long n = n" by (auto simp: int_of_long_def c_int_def)
  have len: "nat n + (length LEVEL_STR - nat n) = 5" "length (replicate (length LEVEL_STR) None) = 5" using n by (simp_all add: level_keys)
  have rd: "\<forall>j. nat n \<le> j \<and> j < nat n + (length LEVEL_STR - nat n) \<longrightarrow> channel_entry tmp c2 j"
  proof (intro allI impI)
    fix j assume "nat n \<le> j \<and> j < nat n + (length LEVEL_STR - nat n)"
    then have j: "j < 5" using len by simp
    then have "LEVEL_STR ! j \<noteq> KEY_LOG_LEVEL" using level_keys(2,3) nth_mem by metis
    then have "cfg_view c2 LOG_SECTION (LEVEL_STR ! j) = cfg_view c1 LOG_SECTION (LEVEL_STR ! j)" using c2(4) by blast
    then show "channel_entry tmp c2 j" using channel_same[OF c2(3)] log_channel[OF v1 p1 fw j] by simp
  qed
  obtain chs c3 where c3: "channel_loop (\<lambda>k. k) tmp (nat n) (length LEVEL_STR - nat n) (replicate (length LEVEL_STR) None) c2 = Some (chs, c3)"
    "cfg_inv c3" "same_regs c2 c3" "\<forall>s. s \<noteq> LOG_SECTION \<longrightarrow> cfg_view c3 s = cfg_view c2 s"
    "\<forall>j. nat n \<le> j \<and> j < nat n + (length LEVEL_STR - nat n) \<longrightarrow> (\<exists>ch. chs ! j = Some (Object (Channel ch)))"
    using channels_ok[OF c2(2) eq_imp_le[OF len(1)] len(2) rd] by blast
  let ?lg = "\<lparr>logging_level = n, output_channels = chs\<rparr>"
  have log: "do_log ?lg now level msg \<noteq> None" if l: "level < 5" for now level msg
  proof (cases "int level < n")
    case False
    then have "nat n \<le> level" by (simp add: nat_le_iff)
    then obtain ch where "chs ! level = Some (Object (Channel ch))" using c3(5)[rule_format, of level] l len(1) by auto
    then show ?thesis by (simp add: do_log_def)
  qed (simp add: do_log_def)
  have other: "cfg_view c2 s = cfg_view c1 s" if "s \<noteq> LOG_SECTION" for s using c2(4) that by (auto simp: fun_eq_iff)
  have "logger_init fw fa (\<lambda>k. k) tmp c = Some (0, ?lg, c3)"
    using n(2) by (simp add: logger_init_def c1(1) c2(1) n(1) i c3(1))
  then show ?thesis using c1(3-5) c2(3) c3(2-4) other n(2,3) log
    by (intro exI[of _ ?lg] exI[of _ c3]) (simp add: same_regs_def del: hm_map.simps)
qed

section \<open>The file and the arguments together\<close>

definition raw_text :: "cstr \<Rightarrow> Setting ConfigValue" where
  "raw_text t = \<lparr>is_cook = False, cfg_value = Text t\<rparr>"

definition settings :: "item list \<Rightarrow> arg list \<Rightarrow> view" where
  "settings items args = arg_entries args (snd (fold apply_item items ([], \<lambda>s k. None)))"

text \<open>Every entry is a text or the log level of an argument.\<close>

definition entry_form :: "cstr \<Rightarrow> cstr \<Rightarrow> Setting ConfigValue \<Rightarrow> bool" where
  "entry_form s k x \<longleftrightarrow> (\<exists>t. x = raw_text t) \<or>
     s = LOG_SECTION \<and> k = KEY_LOG_LEVEL \<and> (\<exists>n \<in> {0, 1}. x = \<lparr>is_cook = True, cfg_value = Object (Number n)\<rparr>)"

definition entries_form :: "view \<Rightarrow> bool" where
  "entries_form v \<longleftrightarrow> (\<forall>s k x. v s k = Some x \<longrightarrow> entry_form s k x)"

lemma form_set: "entries_form v \<Longrightarrow> entry_form s k x \<Longrightarrow> entries_form (set_entry s k x v)"
  by (auto simp: entries_form_def set_entry_def split: if_splits)

lemma form_items: "entries_form v \<Longrightarrow> entries_form (snd (fold apply_item items (sec, v)))"
proof (induction items arbitrary: sec v)
  case (Cons i items)
  obtain sec' v' where r: "apply_item i (sec, v) = (sec', v')" by (cases "apply_item i (sec, v)")
  then have "entries_form v'" using Cons.prems form_set by (cases i) (auto simp: entry_form_def raw_text_def)
  then show ?case using Cons.IH r by simp
qed simp

lemma form_args: "entries_form v \<Longrightarrow> entries_form (fold apply_arg args v)"
proof (induction args arbitrary: v)
  case (Cons a args)
  then have "entries_form (apply_arg a v)" using form_set by (cases a) (auto simp: entry_form_def)
  then show ?case using Cons.IH by simp
qed simp

lemma settings_form: "entries_form (settings items args)"
proof -
  have "entries_form (fold apply_arg args (snd (fold apply_item items ([], \<lambda>s k. None))))"
    by (intro form_args form_items) (simp add: entries_form_def)
  then show ?thesis using form_set by (auto simp: settings_def arg_entries_def entry_form_def raw_text_def Let_def)
qed

lemma form_log: "entries_form v \<Longrightarrow> log_entries_ok v"
  unfolding entries_form_def entry_form_def log_entries_ok_def raw_text_def by blast

lemma form_text: "entries_form v \<Longrightarrow> s \<noteq> LOG_SECTION \<Longrightarrow> v s k = None \<or> (\<exists>t. v s k = Some (raw_text t))"
  unfolding entries_form_def entry_form_def by (cases "v s k") blast+

definition text_entry :: "view \<Rightarrow> cstr \<Rightarrow> cstr \<Rightarrow> cstr option" where
  "text_entry v s k = (case v s k of None \<Rightarrow> None
     | Some x \<Rightarrow> (case cfg_value x of Text t \<Rightarrow> Some t | Object z \<Rightarrow> None))"

lemma form_entry:
  assumes "entries_form v" "s \<noteq> LOG_SECTION"
  shows "v s k = map_option raw_text (text_entry v s k)"
  using form_text[OF assms, of k] by (auto simp: text_entry_def raw_text_def)

section \<open>The cache at the start\<close>

lemma dns_names:
  "length SECTION_DNS < KEY_SIZE" "length KEY_IP_TABLE_PATH < KEY_SIZE" "SECTION_DNS \<noteq> LOG_SECTION"
  "SECTION_DNS \<noteq> SERV_SECTION" "SECTION_DNS \<noteq> SECTION_DNS_RESOLVER"
  by (simp_all add: SECTION_DNS_def KEY_IP_TABLE_PATH_def section_names KEY_SIZE_def bytes_of_def)

definition table_ok :: "Host \<Rightarrow> (cstr list \<times> cstr) list \<Rightarrow> bool" where
  "table_ok h es \<longleftrightarrow> (let rs = map (entry_record (pton4 h) (pton6 h)) es in
     (\<forall>e \<in> set es. entry_ok (pton4 h) (pton6 h) e) \<and> card (table_questions rs) \<le> 1024 \<and>
     (\<forall>r \<in> set rs. rrs_room (table_group rs (rr_type r) (rr_name r)) \<le> ROOM))"

text \<open>What a cache filled from the table answers.\<close>

definition holds_table :: "Host \<Rightarrow> (cstr list \<times> cstr) list \<Rightarrow> DnsCache option \<Rightarrow> bool" where
  "holds_table h es c \<longleftrightarrow> (\<exists>d L. c = Some d \<and> cache_abs 1024 d L \<and> counts_ok L \<and>
     (\<forall>now name type. live now L (cache_key_create name type QCLASS_IN) =
        (let rs = table_group (map (entry_record (pton4 h) (pton6 h)) es) type name
         in if rs = [] then None else Some (table_value rs))))"

lemma rrs_room_length: "length rs \<le> rrs_room rs"
  by (induction rs) (auto simp: rrs_room_def rr_room_def)

lemma entry_sound:
  assumes "entry_ok p4 p6 e" "pton_lengths p4 p6"
  shows "rr_sound (entry_record p4 p6 e)"
proof -
  have "wire_labels (fst e)" using assms(1) by (auto simp: entry_ok_def)
  then show ?thesis using assms
    by (auto simp: rr_sound_def entry_record_def pton_lengths_def entry_ok_def Let_def split: option.split)
qed

lemma table_sound:
  assumes "table_ok h es" "pton_lengths (pton4 h) (pton6 h)"
    and r: "r \<in> set (map (entry_record (pton4 h) (pton6 h)) es)"
  shows "value_sound ROOM (table_value (table_group (map (entry_record (pton4 h) (pton6 h)) es) (rr_type r) (rr_name r)))"
proof -
  let ?rs = "map (entry_record (pton4 h) (pton6 h)) es"
  let ?g = "table_group ?rs (rr_type r) (rr_name r)"
  have room: "rrs_room ?g \<le> ROOM" using assms(1) r unfolding table_ok_def Let_def by blast
  then have "length ?g < 65536" using rrs_room_length[of ?g] by (simp add: ROOM_def)
  then have n: "unat (word_of_nat (length ?g) :: uint16_t) = length ?g" by (simp add: unat_of_nat)
  have "\<forall>x \<in> set ?g. x \<in> set ?rs" by (auto simp: table_group_def)
  then have "\<forall>x \<in> set ?g. rr_sound x" using entry_sound[OF _ assms(2)] assms(1) by (fastforce simp: table_ok_def Let_def)
  then show ?thesis using room n by (simp add: value_sound_def table_value_def rrs_or_nil_def)
qed

definition table_path :: "view \<Rightarrow> cstr" where
  "table_path v = (case text_entry v SECTION_DNS KEY_IP_TABLE_PATH of None \<Rightarrow> VALUE_DEFAULT_IP_TABLE_PATH | Some t \<Rightarrow> t)"

lemma cache_start_ok:
  assumes inv: "cfg_inv c" and form: "entries_form v" and v: "cfg_view c SECTION_DNS = v SECTION_DNS"
    and p: "hm_map (config_parsers c) SECTION_DNS = None" and st: "stack h = (\<lambda>k. k)"
    and pton: "pton_lengths (pton4 h) (pton6 h)" and t: "table_ok h es"
    and f: "files h (table_path v) = Some (table_bytes (map entry_line es)) \<or> files h (table_path v) = None \<and> es = []"
  shows "\<exists>cache c'. cache_start h c = Some (0, cache, c') \<and> cache_fine cache \<and> holds_table h es cache \<and> cfg_inv c' \<and>
    (\<forall>s. s \<noteq> SECTION_DNS \<longrightarrow> cfg_view c' s = cfg_view c s)"
proof -
  let ?rs = "map (entry_record (pton4 h) (pton6 h)) es"
  obtain d where d: "dns_cache_init None = Some (0, Some d)" "cache_abs 1024 d []"
    using init_abs unfolding DNS_CACHE_DEFAULT_CAPACITY_def by blast
  have e: "cfg_view c SECTION_DNS KEY_IP_TABLE_PATH = map_option raw_text (text_entry v SECTION_DNS KEY_IP_TABLE_PATH)"
    unfolding v by (rule form_entry[OF form dns_names(3)])
  have r: "readable (junk h) c SECTION_DNS KEY_IP_TABLE_PATH"
    and path: "path_or VALUE_DEFAULT_IP_TABLE_PATH (snd (read_value (junk h) c SECTION_DNS KEY_IP_TABLE_PATH)) = Some (table_path v)"
    by (simp_all add: readable_def read_value_def e p raw_text_def table_path_def del: hm_map.simps split: option.split)
  obtain c' where c': "config_get (\<lambda>k. k) (junk h) SECTION_DNS KEY_IP_TABLE_PATH c =
      Some (fst (read_value (junk h) c SECTION_DNS KEY_IP_TABLE_PATH), snd (read_value (junk h) c SECTION_DNS KEY_IP_TABLE_PATH), c')"
    "cfg_inv c'" "\<forall>s k. s \<noteq> SECTION_DNS \<or> k \<noteq> KEY_IP_TABLE_PATH \<longrightarrow> cfg_view c' s k = cfg_view c s k"
    using get_total[OF inv dns_names(1,2) r] by blast
  have "\<exists>r d' L. load_ip_table (pton4 h) (pton6 h) (boot_clock h) (table_mem h) (files h (table_path v)) (Some d) = Some (r, Some d') \<and>
      cache_abs 1024 d' L \<and> cache_sound ROOM L \<and> counts_ok L \<and> (\<forall>now name type. live now L (cache_key_create name type QCLASS_IN) =
        (if table_group ?rs type name = [] then None else Some (table_value (table_group ?rs type name))))"
    using f
  proof
    assume f: "files h (table_path v) = Some (table_bytes (map entry_line es))"
    have ok: "\<forall>e \<in> set es. entry_ok (pton4 h) (pton6 h) e" "int (card (table_questions ?rs)) \<le> 1024"
      using t by (simp_all add: table_ok_def Let_def)
    obtain d' L where L: "load_ip_table (pton4 h) (pton6 h) (boot_clock h) (table_mem h) (Some (table_bytes (map entry_line es))) (Some d) = Some (0, Some d')"
      "cache_abs 1024 d' L"
      "\<forall>(k, v, t) \<in> set L. \<exists>r \<in> set ?rs. k = record_cache_key r \<and> v = table_value (table_group ?rs (rr_type r) (rr_name r))"
      "fst ` set L = record_cache_key ` set ?rs"
      using load_rep[OF entry_lines(1)[OF ok(1) pton, symmetric] d(2) entry_lines(2,3)[OF ok(1) pton] ok(2)] by blast
    have "cache_sound ROOM L" using L(3) table_sound[OF t pton] unfolding cache_sound_def by fast
    then show ?thesis using L live_table[OF L(2) entry_lines(3)[OF ok(1) pton] L(3,4)] counts_table[OF L(3)] f by auto
  next
    assume "files h (table_path v) = None \<and> es = []"
    then show ?thesis using d(2)
      by (intro exI[of _ 1] exI[of _ d] exI[of _ "[]"]) (simp add: load_ip_table_def cache_sound_def counts_ok_def live_def table_group_def)
  qed
  then obtain r d' L where L: "load_ip_table (pton4 h) (pton6 h) (boot_clock h) (table_mem h) (files h (table_path v)) (Some d) = Some (r, Some d')"
    "cache_abs 1024 d' L" "cache_sound ROOM L" "counts_ok L" "\<forall>now name type. live now L (cache_key_create name type QCLASS_IN) =
        (if table_group ?rs type name = [] then None else Some (table_value (table_group ?rs type name)))" by blast
  have "cache_start h c = Some (0, Some d', c')"
    by (simp add: cache_start_def d(1) st c'(1) path L(1) del: dns_cache_init.simps)
  moreover have "cache_fine (Some d')" using L(2,3) by (auto simp: cache_fine_def cache_opt_def)
  moreover have "holds_table h es (Some d')" using L(2,4,5) by (auto simp: holds_table_def Let_def)
  moreover have "\<forall>s. s \<noteq> SECTION_DNS \<longrightarrow> cfg_view c' s = cfg_view c s" using c'(3) by blast
  ultimately show ?thesis using c'(2) by blast
qed


section \<open>From the arguments to the event loop\<close>

text \<open>
  The assumptions on the world: the dead stack arrays still hold the names that were in them,
  the uninitialised variable some number \<open>g\<close>, log files can be created, the two buffers have
  the size \<open>malloc\<close> was asked for, the socket was opened.
\<close>

definition host_ok :: "Host \<Rightarrow> int \<Rightarrow> bool" where
  "host_ok h g \<longleftrightarrow> stack h = (\<lambda>k. k) \<and> junk h = Object (Number g) \<and> (\<forall>f. can_create h f) \<and>
     length (send_mem h) = 4096 \<and> length (recv_mem h) = 4096 \<and> fst (init_socket h 0) = 0 \<and> pton_lengths (pton4 h) (pton6 h)"

definition config_path :: "arg list \<Rightarrow> cstr" where
  "config_path args = (case List.map_filter arg_file args of [] \<Rightarrow> default_config_file | f # _ \<Rightarrow> f)"

definition number_entry :: "view \<Rightarrow> cstr \<Rightarrow> int \<Rightarrow> int option" where
  "number_entry v k dflt = (case text_entry v SERV_SECTION k of None \<Rightarrow> Some dflt | Some t \<Rightarrow> atol t)"

lemma server_start_ok:
  assumes h: "host_ok h g" and inv: "cfg_inv c" and form: "entries_form v" and v: "cfg_view c SERV_SECTION = v SERV_SECTION"
    and n: "number_entry v KEY_PACKET_TIMEOUT VALUE_DEFAULT_REQUEST_TIMEOUT = Some timeout"
      "number_entry v KEY_MAX_RETRY_TIME VALUE_DEFAULT_MAX_RETRY_TIME = Some retries"
    and u: "text_entry v SERV_SECTION KEY_UPSTREAMS = Some t" "ips \<noteq> []" "t = join_commas ips \<or> t = COMMA # join_commas ips"
      "\<forall>ip \<in> set ips. address_ok (ipstr2binary (little_endian h) (pton4 h) (pton6 h)) ip"
    and cache: "cache_fine cache"
  shows "\<exists>s. server_start h caching cache c = Some (0, Some (\<lparr>request_timeout = timeout, max_retry_time = int_of_long retries,
      use_cache = caching, sendto = sending h\<rparr>, s)) \<and> (\<forall>cf. reachable cf 0 s) \<and> server_inv 0 s \<and> dns_cache s = cache \<and>
    lseq (upstreams s) = rev (map (endpoint_for (ipstr2binary (little_endian h) (pton4 h) (pton6 h)) (little_endian h)) ips) \<and>
    sview (factory s) = Map.empty \<and> outbox s = []"
proof -
  have e: "cfg_view c SERV_SECTION k = map_option raw_text (text_entry v SERV_SECTION k)" for k
    unfolding v by (rule form_entry[OF form section_distinct(2)])
  have num: "number_setting c SERV_SECTION k dflt m" if "number_entry v k dflt = Some m" for k dflt m
    using that by (auto simp: number_setting_def number_entry_def e raw_text_def split: option.splits)
  have ups: "cfg_view c SERV_SECTION KEY_UPSTREAMS = Some \<lparr>is_cook = False, cfg_value = Text t\<rparr>"
    by (simp add: e u(1) raw_text_def)
  obtain l c' where l: "server_settings (ipstr2binary (little_endian h) (pton4 h) (pton6 h)) (little_endian h) (\<lambda>k. k) (junk h) c =
      Some (timeout, int_of_long retries, Some l, c')" "linv l"
    "lseq l = rev (map (endpoint_for (ipstr2binary (little_endian h) (pton4 h) (pton6 h)) (little_endian h)) ips)"
    using settings_ok[OF inv num[OF n(1)] num[OF n(2)] ups u(2,4,3)] by blast
  have H: "stack h = (\<lambda>k. k)" "length (send_mem h) = 4096" "length (recv_mem h) = 4096" "fst (init_socket h 0) = 0"
    using h by (simp_all add: host_ok_def)
  have ne: "lseq l \<noteq> []" using l(3) u(2) by simp
  obtain s where s: "server_boot (pool_mem h) cache (Some l) (send_mem h) (recv_mem h) = Some (0, Some s)" "server_inv 0 s"
    "sview (factory s) = Map.empty" "upstreams s = l" "dns_cache s = cache" "outbox s = []"
    using boot_ok[OF l(2) ne cache H(2,3), of 0 "pool_mem h"] by auto
  have "\<forall>cf. reachable cf 0 s" using reachable.boot[OF l(2) ne cache H(2,3) s(1)] by simp
  then show ?thesis using s l(3) by (intro exI[of _ s]) (simp add: server_start_def H l(1) s(1))
qed

lemma settings_loaded:
  assumes args: "\<forall>a \<in> set args. arg_ok a" "length (join_commas (List.map_filter arg_address args)) < 1023"
    and conf: "files h (config_path args) = Some (concat (map render items)) \<or> files h (config_path args) = None \<and> items = []"
      "\<forall>i \<in> set items. item_ok i"
  shows "\<exists>c0 r1 c1 c2. config_init = Some (0, c0) \<and>
    config_load_file (\<lambda>k. k) (line_mem h) (files h (config_path args)) c0 = Some (r1, c1) \<and>
    param_inject_config (\<lambda>k. k) (concat (map arg_words args)) c1 = Some (0, c2) \<and>
    cfg_inv c2 \<and> cfg_view c2 = settings items args \<and> hm_map (config_parsers c2) = Map.empty"
proof -
  obtain c0 :: Conf where c0: "config_init = Some (0, c0)" "cfg_inv c0" "cfg_view c0 = (\<lambda>s k. None)"
    "hm_map (config_parsers c0) = Map.empty" "hm_map (config_cleaners c0) = Map.empty"
    using init_ok[where ?'v = Setting] by blast
  have raw: "all_raw c0" by (simp add: all_raw_def c0(3))
  obtain r1 c1 where c1: "config_load_file (\<lambda>k. k) (line_mem h) (files h (config_path args)) c0 = Some (r1, c1)" "cfg_inv c1"
    "cfg_view c1 = snd (fold apply_item items ([], \<lambda>s k. None))"
    "config_parsers c1 = config_parsers c0" "config_cleaners c1 = config_cleaners c0"
    using conf(1)
  proof
    assume "files h (config_path args) = Some (concat (map render items))"
    then show thesis using load_file[OF c0(2) raw conf(2), of "line_mem h"] that c0(3) by auto
  next
    assume "files h (config_path args) = None \<and> items = []"
    then show thesis using that[of "-1" c0] c0(2,3) by (simp add: config_load_file_def)
  qed
  have nc: "no_cleaners c1" using c0(5) c1(5) by (simp add: no_cleaners_def del: hm_map.simps)
  obtain c2 where c2: "param_inject_config (\<lambda>k. k) (concat (map arg_words args)) c1 = Some (0, c2)" "cfg_inv c2"
    "cfg_view c2 = settings items args" "same_regs c1 c2"
    using inject_args[OF args(1) c1(2) nc args(2)] unfolding c1(3) settings_def by blast
  have "hm_map (config_parsers c2) = Map.empty" using c2(4) c1(4) c0(4) by (simp add: same_regs_def del: hm_map.simps)
  then show ?thesis using c0(1) c1(1) c2(1-3) by blast
qed



definition host_sample :: Host where
  "host_sample = \<lparr>little_endian = True,
     files = (\<lambda>f. if f = bytes_of ''r.ini'' then Some (bytes_of ''[server]'' @ [10] @ bytes_of ''max_retry_time=5'' @ [10])
                  else if f = bytes_of ''./dnsrelay.txt'' then Some (bytes_of ''b=10.0.0.2'' @ [10]) else None),
     pton4 = pton4_sample, pton6 = (\<lambda>_. None), can_create = (\<lambda>_. True), can_append = (\<lambda>_. True), stack = (\<lambda>k. k),
     junk = Object (Number 0), pool_mem = \<lparr>ids = (\<lambda>_. 0), top_idx = 0, st = (\<lambda>_. False)\<rparr>, line_mem = [], table_mem = [], send_mem = replicate 4096 0,
     recv_mem = replicate 4096 0, boot_clock = (\<lambda>_. 0), socket_call = 3, bind_call = (\<lambda>fd a. 0), sending = (\<lambda>n b a. 0)\<rparr>"



section \<open>What clients get\<close>

lemma local_reply:
  assumes q: "packet_is_query query" and dec: "pack_try_response_local (\<lambda>i. clock (Suc i)) query (dns_cache s) = Some (CLIENT, Some p, c')"
    and p: "packet_ok p" "questions p = [q]" "\<forall>r \<in> set (rrs p). rr_name r = qname q" "packet_room p \<le> 512"
    and len: "length (send_buf s) = 4096"
  shows "\<exists>s' b n. handle_dns_packet cf clock query src s = Some s' \<and> outbox s' = outbox s @ [(b, dest_sockaddr src, n)] \<and>
    reads_as b p \<and> factory s' = factory s \<and> id_pool s' = id_pool s"
proof -
  have "length (send_buf (s\<lparr>dns_cache := c'\<rparr>)) = 4096" using len by simp
  from send_exact[OF p this, of cf src] obtain b enc where
    "packet_send cf p src (s\<lparr>dns_cache := c'\<rparr>) =
       (let n = sendto cf (length (outbox s)) enc (dest_sockaddr src) in Some (if n \<ge> 0 then 0 else 1,
        s\<lparr>dns_cache := c', send_buf := b, outbox := outbox s @ [(enc, dest_sockaddr src, n)]\<rparr>))"
    "reads_as enc p" unfolding Let_def reads_as_def by auto
  then show ?thesis using q dec by (auto simp: handle_dns_packet_def Let_def)
qed

lemma entry_rr_ok:
  assumes "entry_ok p4 p6 e" "pton_lengths p4 p6"
  shows "rr_ok (entry_record p4 p6 e)"
  using assms by (auto simp: rr_ok_def entry_record_def entry_ok_def pton_lengths_def Let_def QTYPE_A_def QTYPE_AAAA_def QTYPE_MX_def
    QTYPE_CNAME_def QTYPE_NS_def split: option.split)



text \<open>A relay with a table that blocks \<open>b\<close>, and the query for \<open>a.b\<close>.\<close>

definition host_blocking :: Host where
  "host_blocking = host_sample\<lparr>pton4 := pton4_zero,
     files := (\<lambda>f. if f = VALUE_DEFAULT_IP_TABLE_PATH then Some (bytes_of ''b=0.0.0.0'' @ [10]) else None)\<rparr>"


end
