(* ===== verification/Spec2Isabelle.thy ===== *)
theory Spec2Isabelle
  imports Id_Factory Byte_Order Exception_Chain Stl_Vector Stl_LinkedList Stl_HashMap Stl_LazyHeap
    Dns_Name Dns_Packet Dns_Cache Cache_Timed Dns_Resolver Heap_Memory Packet_Memory Packet_Receive Packet_Lifetime
    Net_Socket Session_Factory Server Server_Correct C_Library Config_Center Server_Config Ip_Table
    Log_Output Relay_Main
begin

text \<open>
  A model of DnsRelay, a caching and blocking DNS relay in C: it answers queries from a table of
  fixed addresses and from a cache, forwards the others to upstream servers under identifiers of
  its own, and passes the responses back.

  The program's parts, and the theories that model them (sources under \<^verbatim>\<open>src/\<close>):

    \<^item> \<open>Relay_Prelude\<close>: types, access to arrays, bytes of words, and the lemmas on them that all
      theories use. \<open>C_Library\<close>: what is used of the C library (\<open>strcasecmp\<close>, \<open>atoi\<close>, \<open>fgets\<close>).

    \<^item> \<open>Id_Factory\<close>: the pool of relay identifiers (\<^verbatim>\<open>dns/id_factory.c\<close>). \<open>Byte_Order\<close>:
      \<^verbatim>\<open>infra/utils.c\<close>. \<open>Exception_Chain\<close>: the stack of error messages, \<^verbatim>\<open>infra/exception.c\<close>.

    \<^item> \<open>Stl_Vector\<close>, \<open>Stl_LinkedList\<close>, \<open>Stl_HashMap\<close>, \<open>Stl_LazyHeap\<close>: the containers of
      \<^verbatim>\<open>infra/stl.c\<close>, on explicit memory (a map from addresses to nodes). Each has a
      representation predicate, an abstraction (a list, a partial function, a multiset), a lemma per
      operation, and a locale with the laws its clients use, interpreted on the model.

    \<^item> \<open>Dns_Name\<close>, \<open>Dns_Packet\<close>, \<open>Dns_Resolver\<close>: \<^verbatim>\<open>dns/dns_resolver.c\<close>, that is names in text
      and on the wire with compression pointers, packets and their records, and the decisions on a
      query. \<open>Dns_Cache\<close>, \<open>Ip_Table\<close>: \<^verbatim>\<open>dns/dns_cache.c\<close>, the cache with its list in order of
      use and the loading of the table of fixed addresses. \<open>Cache_Timed\<close>: the cache against a map
      of questions to values and times, and the thread that prunes it.

    \<^item> \<open>Heap_Memory\<close>, \<open>Packet_Memory\<close>, \<open>Packet_Receive\<close>, \<open>Packet_Lifetime\<close>: the functions that
      allocate, copy and release packets once more, on a heap of blocks with \<open>malloc\<close> and \<open>free\<close>
      (names that end in \<open>_h\<close>): vectors of pointers, \<open>pack_create\<close>, \<open>packet_clone\<close>, the
      responses, \<open>pack_free\<close>, \<open>pack_deserialize\<close>, and what the handlers of \<^verbatim>\<open>server/server.c\<close> do
      with them. \<open>read_packet\<close> gives the value and the blocks of a packet in memory.

    \<^item> \<open>Config_Center\<close>: \<^verbatim>\<open>infra/config_center.c\<close>, entries by section and key, their parsers and
      cleaners, and the file. \<open>Server_Config\<close>: the parsers of the server, the resolver and the
      logger and the arguments of \<^verbatim>\<open>main.c\<close>. \<open>Log_Output\<close>: \<open>do_log\<close> and the text of packets.

    \<^item> \<open>Net_Socket\<close>: \<^verbatim>\<open>infra/sock_posix.c\<close>. \<open>Session_Factory\<close>:
      \<^verbatim>\<open>server/session_factory.c\<close>, open queries by relay identifier and by time. \<open>Server\<close>: the
      event loop of \<^verbatim>\<open>server/server.c\<close> and the thread of \<^verbatim>\<open>server/daemons.c\<close>;
      \<open>Server_Correct\<close> has its properties. \<open>Relay_Main\<close>: \<open>main\<close>, from the arguments and files to
      the loop.

  State is passed explicitly in records with the fields of the code's static variables. An
  execution without a defined result (a null pointer, freed memory, an index outside of an array, a
  recursion without end) is \<open>None\<close>; the C return codes are numbers inside of \<open>Some\<close>. So a statement that an
  operation has a result excludes all of these. Loops over pointers are \<open>partial_function (option)\<close> and their
  termination is part of the lemmas; all other recursion is proved to terminate.

  What the lemmas show: per container, that operations implement the abstract ones; \<open>cache_abs\<close>
  relates the cache to a bounded list in order of use, \<open>cfg_view\<close> the configuration to a function of
  section and key, \<open>sview\<close> the sessions to a function of the relay identifier. \<open>server_inv\<close> is the
  invariant of the loop: the identifiers in use are those of the sessions, the cache holds
  records the sender can write, the next upstream server is in the list, the buffers have their size.
  On the heap, \<open>read_packet\<close> is the abstraction to the packets of the other theories, \<open>built\<close> what
  a function has allocated, and \<open>ledger\<close> the account of live packets and lost vectors.
  \<open>reachable\<close> are the states of the loop from its start; \<open>Relay_Main\<close> shows that the program gets to it.

  Bounds and assumptions: a packet received may need at most \<open>ROOM\<close>, 2048 bytes, without
  compression, half of the send buffer, for a reply carries its question and the
  records of one cached response and each of the two is within that bound; the code checks the size of the
  buffer only after it has written. The text of a packet for the log is safe
  up to 640 bytes only, and \<open>Log_Output\<close> has the packets for which it is not: the calls of the
  log are left out of the other theories. The clock does not go back, and does not pass a whole timeout
  during one pass over the timeouts. Memory is never exhausted. Operations of the cache take
  a lock and are single steps; in the loop, the thread that prunes it runs between rounds, and
  \<open>Cache_Timed\<close> shows that a turn of it between any two operations of the cache changes no result
  while the questions fit into the cache. The registries of parsers keep pointers to dead stack arrays: what is read
  through them is a parameter, assumed to be unchanged where a property needs it. Results of system calls,
  of \<open>inet_pton\<close> and of \<open>fopen\<close> are parameters; of \<open>inet_pton\<close> the lengths of addresses are
  assumed.

  Not modelled: the messages given to the log and to the error chain at each call; allocation that
  fails; the release of the endpoints and texts of the configuration beyond the calls of the cleaners;
  on the heap of blocks, the structures of sessions and the nodes of lists, maps and the cache, which
  have models of their own in their theories; the code for Windows; tests and benchmarks.
\<close>

end
